(* ===== verification/Ox_Prelude.thy ===== *)
theory Ox_Prelude
  imports Main "HOL-Library.Word"
begin

text \<open>
  What the components share.  Block addresses and counters are natural numbers
  read at their C width: \<open>u32\<close> and \<open>u64\<close> cut a value to 32 or 64 bits, and
  \<open>add64\<close>, \<open>sub64\<close>, \<open>add32\<close> and \<open>sub32\<close> are the wrapping operations of
  \<^verbatim>\<open>uint64_t\<close> and \<^verbatim>\<open>uint32_t\<close>.  An operation that can fail returns
  \<open>ox_error + 'a\<close>: a failing \<^verbatim>\<open>oxbow_assert\<close>, \<^verbatim>\<open>BUG_ON\<close> or
  \<^verbatim>\<open>abort\<close> is \<open>Inl\<close> of an error.  The facts on circular ranges of block
  addresses (\<open>wrap_range\<close>) serve the journal log, the checkpoint and the
  stage area.
\<close>

named_theorems c_arith \<open>wrapping C arithmetic that does not wrap\<close>

type_synonym baddr = nat

datatype ox_error =
    Assertion      \<comment> \<open>oxbow_assert, BUG_ON or abort\<close>
  | Null_deref
  | No_memory
  | No_space
  | Invalid_arg
  | Blocked        \<comment> \<open>a wait that no step of the same thread can end\<close>

section \<open>Fixed-width arithmetic\<close>

definition u32 :: "nat \<Rightarrow> nat" where
  "u32 n = n mod 2 ^ 32"

definition u64 :: "nat \<Rightarrow> nat" where
  "u64 n = n mod 2 ^ 64"

definition add32 :: "nat \<Rightarrow> nat \<Rightarrow> nat" where
  "add32 a b = (a + b) mod 2 ^ 32"

definition sub32 :: "nat \<Rightarrow> nat \<Rightarrow> nat" where
  "sub32 a b = (a + (2 ^ 32 - b mod 2 ^ 32)) mod 2 ^ 32"

definition add64 :: "nat \<Rightarrow> nat \<Rightarrow> nat" where
  "add64 a b = (a + b) mod 2 ^ 64"

definition sub64 :: "nat \<Rightarrow> nat \<Rightarrow> nat" where
  "sub64 a b = (a + (2 ^ 64 - b mod 2 ^ 64)) mod 2 ^ 64"

definition mul64 :: "nat \<Rightarrow> nat \<Rightarrow> nat" where
  "mul64 a b = (a * b) mod 2 ^ 64"

section \<open>Circular ranges\<close>

text \<open>The number of blocks of an area and the blocks of a run of \<open>n\<close> blocks that
  starts at \<open>start\<close> and continues at \<open>lo\<close> after \<open>hi\<close>.\<close>

definition area_size :: "nat \<Rightarrow> nat \<Rightarrow> nat" where
  "area_size lo hi = hi + 1 - lo"

definition wrap_at :: "nat \<Rightarrow> nat \<Rightarrow> nat \<Rightarrow> nat \<Rightarrow> nat" where
  "wrap_at lo hi start i = lo + (start - lo + i) mod area_size lo hi"

definition wrap_range :: "nat \<Rightarrow> nat \<Rightarrow> nat \<Rightarrow> nat \<Rightarrow> nat list" where
  "wrap_range lo hi start n = map (wrap_at lo hi start) [0..<n]"

section \<open>Lemmas on arithmetic\<close>

lemma u32_id [c_arith]: "n < 2 ^ 32 \<Longrightarrow> u32 n = n"
  by (simp add: u32_def)

lemma u32_le: "u32 n \<le> n"
  by (simp add: u32_def)

lemma u32_less: "u32 n < 2 ^ 32"
  by (simp add: u32_def)

lemma u64_id [c_arith]: "n < 2 ^ 64 \<Longrightarrow> u64 n = n"
  by (simp add: u64_def)

lemma add32_id [c_arith]: "a + b < 2 ^ 32 \<Longrightarrow> add32 a b = a + b"
  by (simp add: add32_def)

lemma add64_id [c_arith]: "a + b < 2 ^ 64 \<Longrightarrow> add64 a b = a + b"
  by (simp add: add64_def)

lemma sub32_id [c_arith]: "b \<le> a \<Longrightarrow> a < 2 ^ 32 \<Longrightarrow> sub32 a b = a - b"
proof -
  assume le: "b \<le> a" and lt: "a < 2 ^ 32"
  then have "a + (2 ^ 32 - b mod 2 ^ 32) = (a - b) + 2 ^ 32" by simp
  then show ?thesis using lt by (simp add: sub32_def)
qed

lemma sub64_id [c_arith]: "b \<le> a \<Longrightarrow> a < 2 ^ 64 \<Longrightarrow> sub64 a b = a - b"
proof -
  assume le: "b \<le> a" and lt: "a < 2 ^ 64"
  then have "a + (2 ^ 64 - b mod 2 ^ 64) = (a - b) + 2 ^ 64" by simp
  then show ?thesis using lt by (simp add: sub64_def)
qed

lemma sub64_wraps: "a < b \<Longrightarrow> b < 2 ^ 64 \<Longrightarrow> sub64 a b = 2 ^ 64 - (b - a)"
  by (simp add: sub64_def)

lemma mul64_id [c_arith]: "a * b < 2 ^ 64 \<Longrightarrow> mul64 a b = a * b"
  by (simp add: mul64_def)

section \<open>Lemmas on circular ranges\<close>

lemma length_wrap_range [simp]: "length (wrap_range lo hi start n) = n"
  by (simp add: wrap_range_def)

lemma wrap_range_0 [simp]: "wrap_range lo hi start 0 = []"
  by (simp add: wrap_range_def)

lemma nth_wrap_range [simp]:
  "i < n \<Longrightarrow> wrap_range lo hi start n ! i = wrap_at lo hi start i"
  by (simp add: wrap_range_def)

lemma wrap_at_bounds:
  assumes "lo \<le> hi"
  shows "lo \<le> wrap_at lo hi start i" "wrap_at lo hi start i \<le> hi"
proof -
  have "(start - lo + i) mod area_size lo hi < area_size lo hi"
    using assms by (simp add: area_size_def)
  moreover have "lo + area_size lo hi = hi + 1"
    using assms by (simp add: area_size_def)
  ultimately show "lo \<le> wrap_at lo hi start i" "wrap_at lo hi start i \<le> hi"
    by (simp_all add: wrap_at_def)
qed

lemma set_wrap_range_subset: "lo \<le> hi \<Longrightarrow> set (wrap_range lo hi start n) \<subseteq> {lo..hi}"
  using wrap_at_bounds by (auto simp: wrap_range_def)

lemma wrap_at_no_wrap:
  "lo \<le> start \<Longrightarrow> start + i \<le> hi \<Longrightarrow> wrap_at lo hi start i = start + i"
  by (simp add: wrap_at_def area_size_def)

lemma wrap_at_wrap:
  assumes "lo \<le> start" "hi < start + i" "start + i \<le> hi + area_size lo hi" "lo \<le> hi"
  shows "wrap_at lo hi start i = start + i - area_size lo hi"
proof -
  define d where "d = start + i - (hi + 1)"
  have d: "start + i = hi + 1 + d" "d < area_size lo hi"
    using assms by (simp_all add: d_def area_size_def)
  have "start - lo + i = d + area_size lo hi"
    using d assms by (simp add: area_size_def)
  then have "wrap_at lo hi start i = lo + d"
    using d(2) by (simp add: wrap_at_def)
  then show ?thesis
    using d(1) assms(4) by (simp add: area_size_def)
qed

lemma distinct_wrap_range:
  assumes "n \<le> area_size lo hi"
  shows "distinct (wrap_range lo hi start n)"
proof -
  have "inj_on (wrap_at lo hi start) {0..<n}"
  proof (rule inj_onI)
    fix i j
    assume ij: "i \<in> {0..<n}" "j \<in> {0..<n}"
      and eq: "wrap_at lo hi start i = wrap_at lo hi start j"
    have "(start - lo + i) mod area_size lo hi = (start - lo + j) mod area_size lo hi"
      using eq by (simp add: wrap_at_def)
    then have "i mod area_size lo hi = j mod area_size lo hi"
      by (simp add: nat_mod_eq_iff)
    then show "i = j" using ij assms by simp
  qed
  then show ?thesis by (simp add: wrap_range_def distinct_map)
qed

lemma wrap_at_add: "wrap_at lo hi start (m + i) = wrap_at lo hi (wrap_at lo hi start m) i"
  by (simp add: wrap_at_def mod_add_left_eq add.assoc)

lemma wrap_range_append:
  "wrap_range lo hi start (m + n) = wrap_range lo hi start m @ wrap_range lo hi (wrap_at lo hi start m) n"
proof (rule nth_equalityI)
  fix i assume "i < length (wrap_range lo hi start (m + n))"
  then show "wrap_range lo hi start (m + n) ! i =
      (wrap_range lo hi start m @ wrap_range lo hi (wrap_at lo hi start m) n) ! i"
    using wrap_at_add [of lo hi start m "i - m"] by (cases "i < m") (simp_all add: nth_append)
qed simp

lemma wrap_range_wrapping:
  assumes "lo \<le> hi" "lo \<le> start" "start \<le> hi + 1" "k = hi + 1 - start" "k \<le> n" "n \<le> area_size lo hi"
  shows "wrap_range lo hi start n = [start..<hi + 1] @ [lo..<lo + (n - k)]"
proof (rule nth_equalityI)
  show "length (wrap_range lo hi start n) = length ([start..<hi + 1] @ [lo..<lo + (n - k)])"
    using assms by (simp del: upt_Suc)
  fix i assume i: "i < length (wrap_range lo hi start n)"
  show "wrap_range lo hi start n ! i = ([start..<hi + 1] @ [lo..<lo + (n - k)]) ! i"
  proof (cases "i < hi + 1 - start")
    case True
    then show ?thesis using i assms by (simp add: nth_append wrap_at_no_wrap del: upt_Suc)
  next
    case False
    then have "wrap_at lo hi start i = start + i - area_size lo hi"
      using i assms by (intro wrap_at_wrap) auto
    then show ?thesis using False i assms
      by (simp add: nth_append area_size_def del: upt_Suc)
  qed
qed

lemma wrap_range_straight:
  "lo \<le> start \<Longrightarrow> start + n \<le> hi + 1 \<Longrightarrow> wrap_range lo hi start n = [start..<start + n]"
  by (rule nth_equalityI) (auto simp: wrap_at_no_wrap)

section \<open>Sequencing\<close>

text \<open>A call that may fail followed by the rest, and a loop over a list whose body may fail.\<close>

definition ebind :: "'e + 'a \<Rightarrow> ('a \<Rightarrow> 'e + 'b) \<Rightarrow> 'e + 'b" where
  "ebind m f = (case m of Inl e \<Rightarrow> Inl e | Inr x \<Rightarrow> f x)"

primrec foldE :: "('a \<Rightarrow> 's \<Rightarrow> 'e + 's) \<Rightarrow> 'a list \<Rightarrow> 's \<Rightarrow> 'e + 's" where
  "foldE f [] s = Inr s"
| "foldE f (x # xs) s = ebind (f x s) (foldE f xs)"

lemma ebind_simps [simp]: "ebind (Inl e) f = Inl e" "ebind (Inr x) f = f x"
  by (simp_all add: ebind_def)

lemma ebind_eq_Inr: "ebind m f = Inr y \<longleftrightarrow> (\<exists>x. m = Inr x \<and> f x = Inr y)"
  by (cases m) auto

lemma ebind_assoc: "ebind (ebind m f) g = ebind m (\<lambda>x. ebind (f x) g)"
  by (cases m) auto

lemma foldE_append: "foldE f (xs @ ys) s = ebind (foldE f xs s) (foldE f ys)"
  by (induction xs arbitrary: s) (simp_all add: ebind_def split: sum.splits)

text \<open>A loop whose body succeeds under an invariant of the part done so far succeeds.\<close>

lemma foldE_inv:
  assumes "I [] s" "\<And>ys x zs s. xs = ys @ x # zs \<Longrightarrow> I ys s \<Longrightarrow> \<exists>s'. f x s = Inr s' \<and> I (ys @ [x]) s'"
  shows "\<exists>s'. foldE f xs s = Inr s' \<and> I xs s'"
  using assms
proof (induction xs arbitrary: s rule: rev_induct)
  case (snoc x xs)
  obtain s1 where s1: "foldE f xs s = Inr s1" "I xs s1"
    using snoc.IH [of s] snoc.prems by fastforce
  then show ?case using snoc.prems(2) [of xs x "[]" s1] by (auto simp: foldE_append)
qed simp

end
