(* ===== verification/Ox_Space.thy ===== *)
theory Ox_Space
  imports Ox_Prelude
begin

text \<open>
  The contract of a circular log area whose space is taken at the head and given
  back at the tail.  The journal log of the device server and the stage area of
  the host server both keep it.  \<open>space_exec\<close> is a client: it takes space for
  transactions, keeps the queue of the transactions that still own blocks, and
  gives the space of the oldest one back.
\<close>

datatype space_op = Take nat | Give_back

type_synonym 's space_state = "'s \<times> nat list list"

fun space_exec ::
  "('s \<Rightarrow> nat \<Rightarrow> (nat list \<times> 's) option) \<Rightarrow> ('s \<Rightarrow> nat \<Rightarrow> 's) \<Rightarrow>
   's space_state \<Rightarrow> space_op \<Rightarrow> 's space_state" where
  "space_exec take_blks give_blks (s, q) (Take n) =
     (case take_blks s n of None \<Rightarrow> (s, q) | Some (bs, s') \<Rightarrow> (s', q @ [bs]))"
| "space_exec take_blks give_blks (s, []) Give_back = (s, [])"
| "space_exec take_blks give_blks (s, bs # q) Give_back = (give_blks s (length bs), q)"

lemma nth_concat_subset: "i < length xss \<Longrightarrow> set (xss ! i) \<subseteq> set (concat xss)"
  using nth_mem [of i xss] by fastforce

locale space_fifo =
  fixes inv :: "'s \<Rightarrow> bool"
    and live :: "'s \<Rightarrow> nat list"
    and area :: "'s \<Rightarrow> nat set"
    and take_blks :: "'s \<Rightarrow> nat \<Rightarrow> (nat list \<times> 's) option"
    and give_blks :: "'s \<Rightarrow> nat \<Rightarrow> 's"
  assumes live_distinct: "inv s \<Longrightarrow> distinct (live s)"
    and live_area: "inv s \<Longrightarrow> set (live s) \<subseteq> area s"
    and take_inv: "inv s \<Longrightarrow> take_blks s n = Some (bs, s') \<Longrightarrow> inv s'"
    and take_live: "inv s \<Longrightarrow> take_blks s n = Some (bs, s') \<Longrightarrow> live s' = live s @ bs"
    and take_length: "inv s \<Longrightarrow> take_blks s n = Some (bs, s') \<Longrightarrow> length bs = n"
    and take_area: "inv s \<Longrightarrow> take_blks s n = Some (bs, s') \<Longrightarrow> area s' = area s"
    and give_inv: "inv s \<Longrightarrow> n \<le> length (live s) \<Longrightarrow> inv (give_blks s n)"
    and give_live: "inv s \<Longrightarrow> n \<le> length (live s) \<Longrightarrow> live (give_blks s n) = drop n (live s)"
    and give_area: "inv s \<Longrightarrow> n \<le> length (live s) \<Longrightarrow> area (give_blks s n) = area s"
begin

lemma exec_step:
  assumes "inv s" "concat q = live s"
    "space_exec take_blks give_blks (s, q) op = (s', q')"
  shows "inv s' \<and> concat q' = live s' \<and> area s' = area s"
proof (cases op)
  case (Take n)
  then show ?thesis
    using assms take_inv take_live take_area by (auto split: option.splits)
next
  case Give_back
  show ?thesis
  proof (cases q)
    case Nil
    then show ?thesis using assms Give_back by simp
  next
    case (Cons bs q0)
    then have "live s = bs @ concat q0" using assms by simp
    then show ?thesis
      using assms Give_back Cons give_inv [of s "length bs"] give_live [of s "length bs"]
        give_area [of s "length bs"] by auto
  qed
qed

lemma exec_run:
  assumes "inv s" "concat q = live s"
    "foldl (space_exec take_blks give_blks) (s, q) ops = (s', q')"
  shows "inv s' \<and> concat q' = live s' \<and> area s' = area s"
  using assms
proof (induction ops arbitrary: s q)
  case (Cons op ops)
  obtain s1 q1 where step: "space_exec take_blks give_blks (s, q) op = (s1, q1)"
    by fastforce
  have "inv s1 \<and> concat q1 = live s1 \<and> area s1 = area s"
    using exec_step [OF Cons.prems(1,2) step] .
  then show ?case using Cons.IH [of s1 q1] Cons.prems(3) step by simp
qed simp

lemma pending_disjoint:
  assumes "inv s" "concat q = live s"
    "foldl (space_exec take_blks give_blks) (s, q) ops = (s', q')"
    "i < j" "j < length q'"
  shows "set (q' ! i) \<inter> set (q' ! j) = {} \<and> set (q' ! i) \<subseteq> area s"
proof -
  have fin: "inv s'" "concat q' = live s'" "area s' = area s"
    using exec_run [OF assms(1-3)] by auto
  have "q' = take j q' @ q' ! j # drop (Suc j) q'"
    using assms(5) by (simp add: id_take_nth_drop)
  then have eq: "concat q' = concat (take j q') @ q' ! j @ concat (drop (Suc j) q')"
    by (metis concat.simps(2) concat_append)
  have "q' ! i \<in> set (take j q')"
    using assms(4,5) by (auto simp: in_set_conv_nth)
  moreover have "distinct (concat q')" using fin live_distinct by simp
  ultimately have "set (q' ! i) \<inter> set (q' ! j) = {}"
    unfolding eq by auto
  moreover have "set (q' ! i) \<subseteq> set (concat q')"
    using assms(4,5) by (intro nth_concat_subset) simp
  ultimately show ?thesis using fin live_area [of s'] by auto
qed

end

end
