(* ===== verification/Ox_Journal_Log.thy ===== *)
theory Ox_Journal_Log
  imports Ox_Space
begin

text \<open>
  The journal log of the device server (\<^verbatim>\<open>devfs/src/journal.c\<close>): the
  \<^verbatim>\<open>struct journal_log\<close> of one data fetcher, allocation at the head,
  release at the tail, and the address of the chunks of one transaction.
\<close>

section \<open>Units\<close>

definition OXBOW_BLOCK_SIZE :: nat where
  "OXBOW_BLOCK_SIZE = 4096"

definition DATA_FETCHER_BUF_SIZE :: nat where
  "DATA_FETCHER_BUF_SIZE = 32 * 1024 * 1024"

definition nblks_to_bytes :: "nat \<Rightarrow> nat" where
  "nblks_to_bytes n_blks = mul64 (u32 n_blks) OXBOW_BLOCK_SIZE"

definition bytes_to_nblks :: "nat \<Rightarrow> ox_error + nat" where
  "bytes_to_nblks size_in_bytes =
     (if size_in_bytes mod OXBOW_BLOCK_SIZE \<noteq> 0 then Inl Assertion
      else Inr (u32 (size_in_bytes div OXBOW_BLOCK_SIZE)))"

section \<open>The log\<close>

record journal_log =
  df_id :: nat
  log_first :: baddr
  log_last :: baddr
  log_head :: baddr
  log_tail :: baddr
  n_free_blks :: nat

text \<open>The two logs that \<^verbatim>\<open>init_journal\<close> makes of the journal area.\<close>

definition init_log :: "nat \<Rightarrow> baddr \<Rightarrow> nat \<Rightarrow> journal_log" where
  "init_log df first half =
     (let lst = sub64 (add64 first half) 1
      in \<lparr>df_id = df, log_first = first, log_last = lst, log_head = first, log_tail = first,
          n_free_blks = add64 (sub64 lst first) 1\<rparr>)"

definition init_journal_logs :: "baddr \<Rightarrow> nat \<Rightarrow> journal_log \<times> journal_log" where
  "init_journal_logs sb_first sb_maxlen =
     (let half = sb_maxlen div 2;
          l0 = init_log 0 sb_first half;
          l1 = init_log 1 (add64 (log_last l0) 1) half
      in (l0, l1))"

definition check_wrap_around :: "baddr \<Rightarrow> nat \<Rightarrow> baddr \<Rightarrow> bool" where
  "check_wrap_around start n_blks lst = (sub64 (add64 start n_blks) 1 > lst)"

definition check_wrap_around_journal_tx :: "baddr \<Rightarrow> nat \<Rightarrow> journal_log \<Rightarrow> bool" where
  "check_wrap_around_journal_tx start n_blks j = check_wrap_around start n_blks (log_last j)"

definition journal_free_percent :: "journal_log \<Rightarrow> nat" where
  "journal_free_percent j =
     mul64 (n_free_blks j) 100 div add64 (sub64 (log_last j) (log_first j)) 1"

text \<open>The pointer update that allocation, commit and release share.\<close>

definition advance_ptr :: "journal_log \<Rightarrow> baddr \<Rightarrow> nat \<Rightarrow> baddr" where
  "advance_ptr j p n =
     (if add64 p n > log_last j
      then let alloced = add64 (sub64 (log_last j) p) 1;
               remains = sub64 n alloced
           in add64 (log_first j) remains
      else add64 p n)"

definition alloc_journal_space :: "journal_log \<Rightarrow> nat \<Rightarrow> ox_error + (baddr \<times> journal_log)" where
  "alloc_journal_space j sz =
     (case bytes_to_nblks sz of
        Inl e \<Rightarrow> Inl e
      | Inr n_blk_req \<Rightarrow>
          if u32 (n_free_blks j) < n_blk_req then Inl Assertion
          else Inr (log_head j,
                    j\<lparr>log_head := advance_ptr j (log_head j) n_blk_req,
                      n_free_blks := sub64 (n_free_blks j) n_blk_req\<rparr>))"

definition update_log_state :: "journal_log \<Rightarrow> nat \<Rightarrow> journal_log" where
  "update_log_state j n_blk_added =
     j\<lparr>log_head := advance_ptr j (log_head j) n_blk_added,
       n_free_blks := sub64 (n_free_blks j) n_blk_added\<rparr>"

definition get_chunck_start :: "journal_log \<Rightarrow> nat \<Rightarrow> baddr" where
  "get_chunck_start j req_id =
     (let n_blks_per_chunk = DATA_FETCHER_BUF_SIZE div OXBOW_BLOCK_SIZE
      in if req_id = 0 then log_head j
         else add64 (add64 (log_head j) (mul64 req_id n_blks_per_chunk)) 1)"

definition free_journal_space :: "journal_log \<Rightarrow> baddr \<Rightarrow> nat \<Rightarrow> ox_error + journal_log" where
  "free_journal_space j start_baddr sz =
     (case bytes_to_nblks sz of
        Inl e \<Rightarrow> Inl e
      | Inr n_blk_req \<Rightarrow>
          if start_baddr \<noteq> log_tail j then Inl Assertion
          else Inr (j\<lparr>log_tail := advance_ptr j (log_tail j) n_blk_req,
                      n_free_blks := add64 (n_free_blks j) n_blk_req\<rparr>))"

section \<open>Specification\<close>

definition log_cap :: "journal_log \<Rightarrow> nat" where
  "log_cap j = area_size (log_first j) (log_last j)"

definition log_used :: "journal_log \<Rightarrow> nat" where
  "log_used j = log_cap j - n_free_blks j"

definition log_live :: "journal_log \<Rightarrow> baddr list" where
  "log_live j = wrap_range (log_first j) (log_last j) (log_tail j) (log_used j)"

definition log_inv :: "journal_log \<Rightarrow> bool" where
  "log_inv j \<longleftrightarrow>
     log_first j \<le> log_last j \<and> log_last j < 2 ^ 63 \<and>
     log_first j \<le> log_tail j \<and> log_tail j \<le> log_last j \<and>
     n_free_blks j \<le> log_cap j \<and> log_cap j < 2 ^ 32 \<and>
     log_head j = wrap_at (log_first j) (log_last j) (log_tail j) (log_used j)"

definition log_area :: "journal_log \<Rightarrow> baddr set" where
  "log_area j = {log_first j..log_last j}"

definition log_take :: "journal_log \<Rightarrow> nat \<Rightarrow> (baddr list \<times> journal_log) option" where
  "log_take j n =
     (if n < 2 ^ 32 then
        case alloc_journal_space j (n * OXBOW_BLOCK_SIZE) of
          Inl e \<Rightarrow> None
        | Inr (start, j') \<Rightarrow> Some (wrap_range (log_first j) (log_last j) start n, j')
      else None)"

definition log_give :: "journal_log \<Rightarrow> nat \<Rightarrow> journal_log" where
  "log_give j n =
     (case free_journal_space j (log_tail j) (n * OXBOW_BLOCK_SIZE) of Inl e \<Rightarrow> j | Inr j' \<Rightarrow> j')"

section \<open>Lemmas\<close>

lemma bytes_to_nblks_blocks [simp]:
  "bytes_to_nblks (n * OXBOW_BLOCK_SIZE) = Inr (u32 n)"
  by (simp add: bytes_to_nblks_def OXBOW_BLOCK_SIZE_def)

lemma log_invD:
  assumes "log_inv j"
  shows "log_first j \<le> log_last j" "log_last j < 2 ^ 63"
    "log_first j \<le> log_tail j" "log_tail j \<le> log_last j" "n_free_blks j \<le> log_cap j"
    "log_head j = wrap_at (log_first j) (log_last j) (log_tail j) (log_used j)"
    "log_cap j < 2 ^ 32"
  using assms by (auto simp: log_inv_def)

lemma advance_ptr_eq:
  assumes "log_inv j" "log_first j \<le> p" "p \<le> log_last j" "n \<le> log_cap j"
  shows "advance_ptr j p n = wrap_at (log_first j) (log_last j) p n"
proof -
  note inv = log_invD [OF assms(1)]
  have sum: "p + n < 2 ^ 64" "log_first j + n < 2 ^ 64"
    using assms inv by (simp_all add: log_cap_def area_size_def)
  show ?thesis
  proof (cases "p + n > log_last j")
    case True
    then have "advance_ptr j p n = log_first j + (n - (log_last j - p + 1))"
      using assms inv sum by (simp add: advance_ptr_def Let_def c_arith)
    then show ?thesis
      using True assms inv by (simp add: wrap_at_wrap log_cap_def area_size_def)
  next
    case False
    then show ?thesis
      using assms inv sum by (simp add: advance_ptr_def c_arith wrap_at_no_wrap)
  qed
qed

lemma log_head_bounds:
  assumes "log_inv j"
  shows "log_first j \<le> log_head j" "log_head j \<le> log_last j"
  using assms wrap_at_bounds by (auto simp: log_inv_def)

lemma log_used_le: "log_used j \<le> log_cap j"
  by (simp add: log_used_def)

lemma log_distinct: "distinct (log_live j)"
  using log_used_le by (simp add: log_live_def log_cap_def distinct_wrap_range)

lemma update_log_state_inv:
  assumes inv: "log_inv j" and n: "n \<le> n_free_blks j"
  shows "log_inv (update_log_state j n)"
    and "log_live (update_log_state j n) =
           log_live j @ wrap_range (log_first j) (log_last j) (log_head j) n"
    and "n_free_blks (update_log_state j n) = n_free_blks j - n"
proof -
  note i = log_invD [OF inv]
  have cap: "log_cap j < 2 ^ 64" using i by (simp add: log_cap_def area_size_def)
  then have free: "sub64 (n_free_blks j) n = n_free_blks j - n"
    using i n by (intro sub64_id) auto
  then show "n_free_blks (update_log_state j n) = n_free_blks j - n"
    by (simp add: update_log_state_def)
  have used: "log_used (update_log_state j n) = log_used j + n"
    using i n free by (simp add: update_log_state_def log_used_def log_cap_def)
  have head: "log_head (update_log_state j n) = wrap_at (log_first j) (log_last j) (log_head j) n"
    using advance_ptr_eq [OF inv log_head_bounds [OF inv], of n] i n
    by (simp add: update_log_state_def)
  show "log_inv (update_log_state j n)"
    using i n used head free wrap_at_add
    by (simp add: log_inv_def log_cap_def update_log_state_def)
  show "log_live (update_log_state j n) =
      log_live j @ wrap_range (log_first j) (log_last j) (log_head j) n"
    using used i by (simp add: log_live_def wrap_range_append update_log_state_def)
qed

lemma free_journal_space_inv:
  assumes inv: "log_inv j" and n: "n \<le> log_used j" and j':
    "j' = j\<lparr>log_tail := advance_ptr j (log_tail j) n, n_free_blks := add64 (n_free_blks j) n\<rparr>"
  shows "log_inv j'" and "log_live j' = drop n (log_live j)"
    and "n_free_blks j' = n_free_blks j + n"
proof -
  note i = log_invD [OF inv]
  have le: "n_free_blks j + n \<le> log_cap j" using i n by (simp add: log_used_def)
  moreover have "log_cap j < 2 ^ 64" using i by (simp add: log_cap_def area_size_def)
  ultimately have "add64 (n_free_blks j) n = n_free_blks j + n" by (intro add64_id) simp
  then show free: "n_free_blks j' = n_free_blks j + n" by (simp add: j')
  have used: "log_used j = n + log_used j'"
    using le free i by (simp add: j' log_used_def log_cap_def)
  have tail: "log_tail j' = wrap_at (log_first j) (log_last j) (log_tail j) n"
    using advance_ptr_eq [OF inv i(3,4), of n] n log_used_le [of j] by (simp add: j')
  show "log_inv j'"
    using i le free tail wrap_at_bounds [OF i(1)] used wrap_at_add
    by (simp add: log_inv_def log_cap_def j')
  have "log_live j = wrap_range (log_first j) (log_last j) (log_tail j) n @ log_live j'"
    using used tail by (simp add: log_live_def wrap_range_append j')
  then show "log_live j' = drop n (log_live j)" by simp
qed

lemma alloc_journal_space_eq:
  assumes "alloc_journal_space j (n * OXBOW_BLOCK_SIZE) = Inr (start, j')" "n < 2 ^ 32"
  shows "n \<le> n_free_blks j" "start = log_head j" "j' = update_log_state j n"
  using assms u32_le [of "n_free_blks j"]
  by (auto simp: alloc_journal_space_def update_log_state_def u32_id split: if_splits)

lemma alloc_journal_space_ok:
  assumes "log_inv j" "n \<le> n_free_blks j"
  shows "alloc_journal_space j (n * OXBOW_BLOCK_SIZE) = Inr (log_head j, update_log_state j n)"
proof -
  have "n_free_blks j < 2 ^ 32" "n < 2 ^ 32" using log_invD(5,7) [OF assms(1)] assms(2) by simp_all
  then show ?thesis
    using assms(2) by (simp add: alloc_journal_space_def update_log_state_def u32_id)
qed

lemma update_log_state_fields [simp]:
  "log_first (update_log_state j n) = log_first j" "log_last (update_log_state j n) = log_last j"
  "log_tail (update_log_state j n) = log_tail j" "log_cap (update_log_state j n) = log_cap j"
  "df_id (update_log_state j n) = df_id j"
  by (simp_all add: update_log_state_def log_cap_def)

lemma log_take_eq:
  assumes "log_take j n = Some (bs, j')"
  shows "n \<le> n_free_blks j" "j' = update_log_state j n"
    "bs = wrap_range (log_first j) (log_last j) (log_head j) n"
  using assms alloc_journal_space_eq [of j n]
  by (auto simp: log_take_def split: if_splits sum.splits prod.splits)

lemma log_give_inv:
  assumes inv: "log_inv j" and n: "n \<le> length (log_live j)"
  shows "log_inv (log_give j n)" "log_live (log_give j n) = drop n (log_live j)"
    "log_area (log_give j n) = log_area j"
proof -
  have n': "n \<le> log_used j" using n by (simp add: log_live_def)
  then have "n < 2 ^ 32" using log_used_le [of j] log_invD(7) [OF inv] by simp
  then have eq: "log_give j n =
      j\<lparr>log_tail := advance_ptr j (log_tail j) n, n_free_blks := add64 (n_free_blks j) n\<rparr>"
    by (simp add: log_give_def free_journal_space_def u32_id)
  show "log_inv (log_give j n)" "log_live (log_give j n) = drop n (log_live j)"
    "log_area (log_give j n) = log_area j"
    using free_journal_space_inv [OF inv n' eq] by (simp_all add: eq log_area_def)
qed

interpretation jlog: space_fifo log_inv log_live log_area log_take log_give
proof unfold_locales
  fix j :: journal_log
  assume "log_inv j"
  then show "distinct (log_live j)" "set (log_live j) \<subseteq> log_area j"
    using log_distinct set_wrap_range_subset log_invD(1)
    by (auto simp: log_live_def log_area_def)
next
  fix j j' :: journal_log and n bs
  assume inv: "log_inv j" and t: "log_take j n = Some (bs, j')"
  note eq = log_take_eq [OF t]
  show "log_inv j'" "log_live j' = log_live j @ bs" "length bs = n" "log_area j' = log_area j"
    using update_log_state_inv [OF inv eq(1)] eq by (simp_all add: log_area_def update_log_state_def)
next
  fix j :: journal_log and n
  assume "log_inv j" "n \<le> length (log_live j)"
  then show "log_inv (log_give j n)" "log_live (log_give j n) = drop n (log_live j)"
    "log_area (log_give j n) = log_area j"
    using log_give_inv by simp_all
qed

section \<open>Properties\<close>

text \<open>C5.  Allocation refines the abstract log: on a well-formed log a request of
  \<open>n\<close> blocks that fits the free space succeeds, returns the old head, keeps the
  log well-formed, and appends exactly the circular run of \<open>n\<close> blocks at the old
  head to the live blocks; a request that does not fit stops at the assertion.\<close>

theorem alloc_journal_space_refines:
  assumes inv: "log_inv j" and n: "n < 2 ^ 32"
  shows "if n \<le> n_free_blks j
         then \<exists>j'. alloc_journal_space j (n * OXBOW_BLOCK_SIZE) = Inr (log_head j, j') \<and>
                log_inv j' \<and> n_free_blks j' = n_free_blks j - n \<and>
                log_live j' = log_live j @ wrap_range (log_first j) (log_last j) (log_head j) n
         else alloc_journal_space j (n * OXBOW_BLOCK_SIZE) = Inl Assertion"
proof -
  have "n_free_blks j < 2 ^ 32" using log_invD(5,7) [OF inv] by simp
  then have eq: "alloc_journal_space j (n * OXBOW_BLOCK_SIZE) =
      (if n_free_blks j < n then Inl Assertion else Inr (log_head j, update_log_state j n))"
    using n by (simp add: alloc_journal_space_def update_log_state_def u32_id)
  show ?thesis
    using update_log_state_inv [OF inv, of n] by (simp add: eq)
qed

definition log_example :: journal_log where
  "log_example = \<lparr>df_id = 0, log_first = 10, log_last = 19, log_head = 18, log_tail = 15,
     n_free_blks = 7\<rparr>"

theorem alloc_journal_space_refines_witness:
  "\<exists>j'. alloc_journal_space log_example (4 * OXBOW_BLOCK_SIZE) = Inr (18, j') \<and>
     log_inv j' \<and> log_live j' = [15, 16, 17, 18, 19, 10, 11]"
proof -
  have "log_inv log_example"
    by (simp add: log_inv_def log_example_def log_cap_def log_used_def area_size_def wrap_at_def)
  moreover have "log_live log_example = [15, 16, 17]"
    by (simp add: log_example_def log_live_def log_used_def log_cap_def area_size_def
        wrap_range_def wrap_at_def upt_rec)
  moreover have "wrap_range 10 19 18 4 = [18, 19, 10, 11]"
    by (simp add: area_size_def wrap_range_def wrap_at_def upt_rec)
  ultimately show ?thesis
    using alloc_journal_space_refines [of log_example 4] by (simp add: log_example_def) metis
qed

end
