(* ===== verification/Ox_Disk.thy ===== *)
theory Ox_Disk
  imports Ox_Prelude "HOL-Library.Multiset"
begin

text \<open>
  The block device: a disk maps a block address to the contents of the block.
  \<open>write_list\<close> carries out block writes in order.  The lemmas say when writes can
  be dropped (a later write covers them) and when their order does not matter
  (distinct destinations).
\<close>

type_synonym 'b disk = "baddr \<Rightarrow> 'b"

definition write_list :: "(baddr \<times> 'b) list \<Rightarrow> 'b disk \<Rightarrow> 'b disk" where
  "write_list ws d = foldl (\<lambda>d w. d(fst w := snd w)) d ws"

lemma write_list_Nil [simp]: "write_list [] d = d"
  by (simp add: write_list_def)

lemma write_list_Cons [simp]: "write_list (w # ws) d = write_list ws (d(fst w := snd w))"
  by (simp add: write_list_def)

lemma write_list_append [simp]: "write_list (vs @ ws) d = write_list ws (write_list vs d)"
  by (simp add: write_list_def)

lemma write_list_other: "a \<notin> fst ` set ws \<Longrightarrow> write_list ws d a = d a"
  by (induction ws arbitrary: d) auto

lemma write_list_map_of: "write_list ws d a = (case map_of (rev ws) a of None \<Rightarrow> d a | Some v \<Rightarrow> v)"
  by (induction ws rule: rev_induct) auto

lemma write_list_covered: "a \<in> fst ` set ws \<Longrightarrow> write_list ws d a = write_list ws e a"
  by (auto simp: write_list_map_of map_of_eq_None_iff split: option.splits)

text \<open>Writes that later writes cover leave no trace.\<close>

lemma write_list_drop_covered:
  "write_list (filter (\<lambda>w. fst w \<notin> fst ` set ws) vs @ ws) d = write_list (vs @ ws) d"
proof
  fix a
  show "write_list (filter (\<lambda>w. fst w \<notin> fst ` set ws) vs @ ws) d a = write_list (vs @ ws) d a"
  proof (cases "a \<in> fst ` set ws")
    case True
    then show ?thesis by (simp add: write_list_covered [OF True])
  next
    case False
    then have "write_list (filter (\<lambda>w. fst w \<notin> fst ` set ws) vs) d a = write_list vs d a"
      by (induction vs rule: rev_induct) auto
    then show ?thesis using False by (simp add: write_list_other)
  qed
qed

text \<open>Writes to distinct blocks can be carried out in any order.\<close>

lemma write_list_distinct:
  "distinct (map fst ws) \<Longrightarrow> (a, v) \<in> set ws \<Longrightarrow> write_list ws d a = v"
  by (simp add: write_list_map_of rev_map [symmetric])

lemma write_list_perm:
  assumes "distinct (map fst ws)" "distinct (map fst vs)" "set ws = set vs"
  shows "write_list ws d = write_list vs d"
proof
  fix a
  show "write_list ws d a = write_list vs d a"
  proof (cases "a \<in> fst ` set ws")
    case True
    then obtain v where "(a, v) \<in> set ws" by auto
    then show ?thesis using assms write_list_distinct by metis
  next
    case False
    then show ?thesis using assms(3) by (simp add: write_list_other)
  qed
qed

lemma write_list_mset:
  assumes "distinct (map fst ws)" "mset vs = mset ws"
  shows "write_list vs d = write_list ws d"
proof -
  have "mset (map fst vs) = mset (map fst ws)" using assms(2) by simp
  then have "distinct (map fst vs)" using assms(1) mset_eq_imp_distinct_iff by blast
  then show ?thesis using assms mset_eq_setD by (intro write_list_perm) blast+
qed

end
