(* ===== verification/Ox_Ckpt_Core.thy ===== *)
theory Ox_Ckpt_Core
  imports Ox_Journal_Log Ox_Disk
begin

text \<open>
  The tag list of the coalescing checkpoint (\<^verbatim>\<open>do_checkpoint_coalesce\<close> of
  \<^verbatim>\<open>devfs/src/journal.c\<close>): pass 3 (a later tag invalidates what it
  overwrites), pass 4 (neighbours of a group are merged) and pass 5 (the copies
  from the log areas to the file system area, batch by batch).  The theorem at
  the end says that the disk after pass 5 is the disk after replaying every tag
  in order.
\<close>

section \<open>Tag list nodes\<close>

definition INVALID :: nat where
  "INVALID = 2 ^ 64 - 1"

record tag_node =
  tn_start :: baddr
  tn_cnt :: nat
  tn_src :: baddr      \<comment> \<open>src_start_baddr: where the data of the node's group starts\<close>
  tn_stage :: bool

section \<open>Pass 3: optimize\<close>

text \<open>One step of the inner loop: what an earlier node \<open>r\<close> becomes when a later tag
  covers \<open>cnt\<close> blocks from \<open>start\<close>.  The final \<^verbatim>\<open>abort\<close> is an error.\<close>

definition optimize_tag :: "nat \<Rightarrow> nat \<Rightarrow> tag_node \<Rightarrow> ox_error + tag_node list" where
  "optimize_tag start cnt r =
     (let start_r = tn_start r; cnt_r = tn_cnt r;
          e = add64 start cnt; e_r = add64 start_r cnt_r
      in if start_r = INVALID then Inr [r]
         else if e_r \<le> start \<or> e \<le> start_r then Inr [r]
         else if start = start_r \<and> cnt = cnt_r then Inr [r\<lparr>tn_start := INVALID\<rparr>]
         else if start \<ge> start_r \<and> e \<le> e_r then
           (let tag2 = (if sub64 e_r e > 0
                        then [r\<lparr>tn_start := e, tn_cnt := u32 (sub64 e_r e)\<rparr>] else []);
                tag1 = (if cnt > 0 then [r\<lparr>tn_start := INVALID, tn_cnt := cnt\<rparr>] else []);
                c = u32 (sub64 start start_r);
                opt = (if c = 0 then r\<lparr>tn_start := INVALID, tn_cnt := c\<rparr> else r\<lparr>tn_cnt := c\<rparr>)
            in Inr (opt # tag1 @ tag2))
         else if start \<le> start_r \<and> e \<ge> e_r then Inr [r\<lparr>tn_start := INVALID\<rparr>]
         else if start < start_r \<and> e < e_r then
           Inr (r\<lparr>tn_start := INVALID, tn_cnt := u32 (sub64 e start_r)\<rparr> #
                (if sub64 e_r e > 0
                 then [r\<lparr>tn_start := e, tn_cnt := u32 (sub64 e_r e)\<rparr>] else []))
         else if start_r < start \<and> e_r < e then
           (let c = u32 (sub64 start start_r);
                opt = (if c = 0 then r\<lparr>tn_start := INVALID, tn_cnt := c\<rparr> else r\<lparr>tn_cnt := c\<rparr>)
            in Inr (opt # (if sub64 e_r start > 0
                           then [r\<lparr>tn_start := INVALID, tn_cnt := u32 (sub64 e_r start)\<rparr>] else [])))
         else Inl Assertion)"

text \<open>The inner loop walks the nodes before the current one.\<close>

fun optimize_prefix :: "nat \<Rightarrow> nat \<Rightarrow> tag_node list \<Rightarrow> ox_error + tag_node list" where
  "optimize_prefix start cnt [] = Inr []"
| "optimize_prefix start cnt (r # rs) =
     (case optimize_prefix start cnt rs of
        Inl e \<Rightarrow> Inl e
      | Inr rs' \<Rightarrow>
          (case optimize_tag start cnt r of Inl e \<Rightarrow> Inl e | Inr xs \<Rightarrow> Inr (xs @ rs')))"

fun ckpt_pass3 :: "tag_node list \<Rightarrow> tag_node list \<Rightarrow> ox_error + tag_node list" where
  "ckpt_pass3 prefix [] = Inr prefix"
| "ckpt_pass3 prefix (n # ns) =
     (case optimize_prefix (tn_start n) (tn_cnt n) prefix of
        Inl e \<Rightarrow> Inl e
      | Inr prefix' \<Rightarrow> ckpt_pass3 (prefix' @ [n]) ns)"

section \<open>Pass 4: coalesce\<close>

text \<open>The nodes before the current one are kept last first.  The list head has no
  predecessor: a first node whose group is the initial value of
  \<^verbatim>\<open>last_src_start_baddr_group\<close> is an error.\<close>

fun ckpt_pass4 :: "nat \<Rightarrow> tag_node list \<Rightarrow> tag_node list \<Rightarrow> ox_error + tag_node list" where
  "ckpt_pass4 last_group acc [] = Inr (rev acc)"
| "ckpt_pass4 last_group acc (n # ns) =
     (if last_group \<noteq> tn_src n then ckpt_pass4 (tn_src n) (n # acc) ns
      else case acc of
        [] \<Rightarrow> Inl Invalid_arg
      | p # ps \<Rightarrow>
          if (tn_start n = INVALID \<and> tn_start p = INVALID) \<or>
             (tn_start n \<noteq> INVALID \<and> tn_start p \<noteq> INVALID \<and>
              tn_start n = add64 (tn_start p) (tn_cnt p))
          then ckpt_pass4 last_group (p\<lparr>tn_cnt := add32 (tn_cnt p) (tn_cnt n)\<rparr> # ps) ns
          else ckpt_pass4 last_group (n # p # ps) ns)"

section \<open>Pass 5: checkpoint\<close>

text \<open>The log areas the copies read from, and the limit on buffered bytes.\<close>

record ckpt_env =
  stg_first :: baddr
  stg_last :: baddr
  jnl_first :: baddr
  jnl_last :: baddr
  max_buf :: nat

text \<open>The loop state.  \<open>p5_read\<close> and \<open>p5_write\<close> are the bios of the two lists, one per
  node: the \<open>k\<close>-th read bio and the \<open>k\<close>-th write bio share the buffer of their node.\<close>

record 'b pass5_state =
  p5_group :: baddr
  p5_cur :: baddr
  p5_size :: nat
  p5_read :: "(baddr \<times> nat) list"
  p5_write :: "(baddr \<times> nat) list"
  p5_disk :: "'b disk"

definition area_lo :: "ckpt_env \<Rightarrow> bool \<Rightarrow> baddr" where
  "area_lo env stage = (if stage then stg_first env else jnl_first env)"

definition area_hi :: "ckpt_env \<Rightarrow> bool \<Rightarrow> baddr" where
  "area_hi env stage = (if stage then stg_last env else jnl_last env)"

text \<open>\<^verbatim>\<open>se_request_dispatch_io_sync\<close> of the read list, then of the write list.\<close>

definition read_bufs :: "'b disk \<Rightarrow> (baddr \<times> nat) list \<Rightarrow> 'b list list" where
  "read_bufs d rs = map (\<lambda>(src, n). map d [src..<src + n]) rs"

definition write_bufs :: "(baddr \<times> nat) list \<Rightarrow> 'b list list \<Rightarrow> (baddr \<times> 'b) list" where
  "write_bufs ws bufs = concat (map2 (\<lambda>(dst, n) buf. zip [dst..<dst + n] buf) ws bufs)"

definition dispatch_copies :: "'b pass5_state \<Rightarrow> 'b pass5_state" where
  "dispatch_copies st =
     st\<lparr>p5_disk := write_list (write_bufs (p5_write st) (read_bufs (p5_disk st) (p5_read st))) (p5_disk st),
        p5_read := [], p5_write := [], p5_size := 0\<rparr>"

text \<open>The source address of a node, its split at the end of the log area, and what is
  left of the node for the next iteration.\<close>

definition pass5_place ::
  "ckpt_env \<Rightarrow> 'b pass5_state \<Rightarrow> tag_node \<Rightarrow> 'b pass5_state \<times> tag_node \<times> tag_node option" where
  "pass5_place env st node =
     (let cur = (if p5_group st \<noteq> tn_src node then tn_src node else p5_cur st);
          group = tn_src node;
          lo = area_lo env (tn_stage node);
          hi = area_hi env (tn_stage node);
          st1 = st\<lparr>p5_group := group\<rparr>
      in if check_wrap_around cur (tn_cnt node) hi
         then (let cnt1 = u32 (add64 (sub64 hi cur) 1);
                   cnt2 = sub32 (tn_cnt node) cnt1
               in if cnt2 > 0
                  then (st1\<lparr>p5_cur := lo\<rparr>,
                        node\<lparr>tn_src := cur, tn_cnt := cnt1,
                             tn_start := (if cnt1 = 0 then INVALID else tn_start node)\<rparr>,
                        Some (node\<lparr>tn_start := (if tn_start node = INVALID then INVALID
                                                else add64 (tn_start node) cnt1),
                                   tn_cnt := cnt2\<rparr>))
                  else (st1\<lparr>p5_cur := lo\<rparr>, node\<lparr>tn_src := cur, tn_cnt := cnt1\<rparr>, None))
         else (st1\<lparr>p5_cur := add64 cur (tn_cnt node)\<rparr>, node\<lparr>tn_src := cur\<rparr>, None))"

text \<open>The bios of a placed node, and the dispatch when the buffers reach the limit.\<close>

definition pass5_emit :: "ckpt_env \<Rightarrow> 'b pass5_state \<Rightarrow> tag_node \<Rightarrow> 'b pass5_state" where
  "pass5_emit env st node =
     (if tn_start node = INVALID then st
      else let st1 = st\<lparr>p5_size := add64 (p5_size st) (nblks_to_bytes (tn_cnt node)),
                        p5_read := p5_read st @ [(tn_src node, tn_cnt node)],
                        p5_write := p5_write st @ [(tn_start node, tn_cnt node)]\<rparr>
           in if p5_size st1 \<ge> max_buf env then dispatch_copies st1 else st1)"

fun pass5_loop :: "nat \<Rightarrow> ckpt_env \<Rightarrow> 'b pass5_state \<Rightarrow> tag_node list \<Rightarrow> 'b pass5_state option" where
  "pass5_loop fuel env st [] = Some st"
| "pass5_loop 0 env st (n # ns) = None"
| "pass5_loop (Suc fuel) env st (n # ns) =
     (if tn_cnt n = 0 then pass5_loop fuel env st ns
      else case pass5_place env st n of
        (st1, n1, None) \<Rightarrow> pass5_loop fuel env (pass5_emit env st1 n1) ns
      | (st1, n1, Some n2) \<Rightarrow> pass5_loop fuel env (pass5_emit env st1 n1) (n2 # ns))"

definition ckpt_pass5 :: "nat \<Rightarrow> ckpt_env \<Rightarrow> 'b disk \<Rightarrow> tag_node list \<Rightarrow> 'b disk option" where
  "ckpt_pass5 fuel env d ns =
     (case pass5_loop fuel env
             \<lparr>p5_group = INVALID, p5_cur = 0, p5_size = 0, p5_read = [], p5_write = [], p5_disk = d\<rparr> ns of
        None \<Rightarrow> None
      | Some st \<Rightarrow> Some (p5_disk (dispatch_copies st)))"

text \<open>Passes 3 to 5.  Every node takes at most two iterations of pass 5, so twice the
  number of nodes is enough fuel.\<close>

definition coalesce_tags :: "ckpt_env \<Rightarrow> 'b disk \<Rightarrow> tag_node list \<Rightarrow> ox_error + 'b disk" where
  "coalesce_tags env d ns =
     (case ckpt_pass3 [] ns of
        Inl e \<Rightarrow> Inl e
      | Inr n3 \<Rightarrow>
          (case ckpt_pass4 INVALID [] n3 of
             Inl e \<Rightarrow> Inl e
           | Inr n4 \<Rightarrow>
               (case ckpt_pass5 (2 * length n4) env d n4 of None \<Rightarrow> Inl Blocked | Some d' \<Rightarrow> Inr d')))"

section \<open>The blocks of a tag list\<close>

text \<open>A node stands for a run of blocks of its group; each has a destination, or none
  when the node is invalid.\<close>

type_synonym tag_blk = "baddr \<times> bool \<times> baddr option"

definition node_blks :: "tag_node \<Rightarrow> tag_blk list" where
  "node_blks n =
     (if tn_start n = INVALID then replicate (tn_cnt n) (tn_src n, tn_stage n, None)
      else map (\<lambda>a. (tn_src n, tn_stage n, Some a)) [tn_start n..<tn_start n + tn_cnt n])"

definition list_blks :: "tag_node list \<Rightarrow> tag_blk list" where
  "list_blks ns = concat (map node_blks ns)"

definition tag_range :: "tag_node \<Rightarrow> baddr set" where
  "tag_range n = {tn_start n..<tn_start n + tn_cnt n}"

definition node_key :: "tag_node \<Rightarrow> baddr \<times> bool" where
  "node_key n = (tn_src n, tn_stage n)"

definition mask_blk :: "baddr set \<Rightarrow> tag_blk \<Rightarrow> tag_blk" where
  "mask_blk S b =
     (case b of (g, st, None) \<Rightarrow> (g, st, None)
      | (g, st, Some a) \<Rightarrow> (g, st, if a \<in> S then None else Some a))"

text \<open>A valid tag ends below the invalid address; a node is a valid tag or is invalid.\<close>

definition tag_ok :: "tag_node \<Rightarrow> bool" where
  "tag_ok n \<longleftrightarrow> tn_cnt n < 2 ^ 32 \<and> tn_start n + tn_cnt n < INVALID"

definition node_ok :: "tag_node \<Rightarrow> bool" where
  "node_ok n \<longleftrightarrow> tn_cnt n < 2 ^ 32 \<and> (tn_start n = INVALID \<or> tn_start n + tn_cnt n < INVALID)"

definition mask_later :: "tag_blk list \<Rightarrow> tag_node \<Rightarrow> tag_blk list" where
  "mask_later bs n = map (mask_blk (tag_range n)) bs @ node_blks n"

text \<open>Nodes of one group come from one kind of area.\<close>

definition stages_ok :: "tag_node list \<Rightarrow> bool" where
  "stages_ok ns \<longleftrightarrow> single_valued (node_key ` set ns)"

section \<open>Lemmas: pass 3\<close>

lemma list_blks_simps [simp]:
  "list_blks [] = []" "list_blks (n # ns) = node_blks n @ list_blks ns"
  "list_blks (ms @ ns) = list_blks ms @ list_blks ns"
  by (simp_all add: list_blks_def)

lemma length_node_blks [simp]: "length (node_blks n) = tn_cnt n"
  by (simp add: node_blks_def)

lemma tag_ok_node_ok: "tag_ok n \<Longrightarrow> node_ok n"
  by (simp add: tag_ok_def node_ok_def)

lemma mask_run_outside:
  "S \<inter> {a..<b} = {} \<Longrightarrow>
   map (mask_blk S) (map (\<lambda>a. (g, st, Some a)) [a..<b]) = map (\<lambda>a. (g, st, Some a)) [a..<b]"
  by (auto simp: mask_blk_def)

lemma mask_run_inside:
  "{a..<b} \<subseteq> S \<Longrightarrow>
   map (mask_blk S) (map (\<lambda>a. (g, st, Some a)) [a..<b]) = replicate (b - a) (g, st, None)"
  by (rule nth_equalityI) (auto simp: mask_blk_def subset_iff)

lemma mask_run_none: "map (mask_blk S) (replicate n (g, st, None)) = replicate n (g, st, None)"
  by (simp add: mask_blk_def)

lemma upt_split3: "a \<le> s \<Longrightarrow> s \<le> e \<Longrightarrow> e \<le> b \<Longrightarrow> [a..<b] = [a..<s] @ [s..<e] @ [e..<b]"
  by (metis le_trans upt_add_eq_append le_add_diff_inverse append.assoc)

lemma mask_run:
  assumes "a \<le> m" "m \<le> n" "n \<le> b"
    "{s..<e} \<inter> {a..<m} = {}" "{m..<n} \<subseteq> {s..<e}" "{s..<e} \<inter> {n..<b} = {}"
  shows "map (mask_blk {s..<e}) (map (\<lambda>a. (g, st, Some a)) [a..<b]) =
    map (\<lambda>a. (g, st, Some a)) [a..<m] @ replicate (n - m) (g, st, None) @
    map (\<lambda>a. (g, st, Some a)) [n..<b]"
  unfolding upt_split3 [OF assms(1-3)] map_append
    mask_run_outside [OF assms(4)] mask_run_outside [OF assms(6)] mask_run_inside [OF assms(5)] ..

text \<open>Pass 3 keeps the length and the groups of a node's blocks and masks the blocks the
  later tag covers; the final \<^verbatim>\<open>abort\<close> is not reached.\<close>

lemma optimize_tag_blks:
  assumes ok: "node_ok r" and cnt: "cnt < 2 ^ 32" and fits: "start + cnt < INVALID"
  shows "\<exists>xs. optimize_tag start cnt r = Inr xs \<and>
    list_blks xs = map (mask_blk {start..<start + cnt}) (node_blks r) \<and>
    (\<forall>x\<in>set xs. node_ok x \<and> node_key x = node_key r)"
proof (cases "tn_start r = INVALID")
  case True
  then show ?thesis using ok
    by (simp add: optimize_tag_def node_blks_def mask_run_none del: map_replicate)
next
  case False
  then have fit_r: "tn_start r + tn_cnt r < INVALID" "tn_cnt r < 2 ^ 32"
    using ok by (auto simp: node_ok_def)
  have sums: "add64 start cnt = start + cnt" "add64 (tn_start r) (tn_cnt r) = tn_start r + tn_cnt r"
    using fits fit_r by (simp_all add: INVALID_def c_arith)
  have inv: "INVALID < 2 ^ 64" by (simp add: INVALID_def)
  have blks: "map (mask_blk {start..<start + cnt}) (node_blks r) =
      map (\<lambda>a. (tn_src r, tn_stage r, Some a)) [tn_start r..<m] @
      replicate (n - m) (tn_src r, tn_stage r, None) @
      map (\<lambda>a. (tn_src r, tn_stage r, Some a)) [n..<tn_start r + tn_cnt r]"
    if "tn_start r \<le> m" "m \<le> n" "n \<le> tn_start r + tn_cnt r"
      "m = tn_start r \<or> m \<le> start" "m = n \<or> start \<le> m \<and> n \<le> start + cnt"
      "n = tn_start r + tn_cnt r \<or> start + cnt \<le> n" for m n
    using that False unfolding node_blks_def by (simp only: if_False) (rule mask_run, auto)
  consider (out) "tn_start r + tn_cnt r \<le> start \<or> start + cnt \<le> tn_start r"
    | (cover) "start \<le> tn_start r" "tn_start r + tn_cnt r \<le> start + cnt"
        "\<not> (tn_start r + tn_cnt r \<le> start \<or> start + cnt \<le> tn_start r)"
    | (inside) "tn_start r \<le> start" "start + cnt \<le> tn_start r + tn_cnt r"
        "\<not> (start \<le> tn_start r \<and> tn_start r + tn_cnt r \<le> start + cnt)"
        "\<not> (tn_start r + tn_cnt r \<le> start \<or> start + cnt \<le> tn_start r)"
    | (left) "start < tn_start r" "start + cnt < tn_start r + tn_cnt r" "tn_start r < start + cnt"
    | (right) "tn_start r < start" "tn_start r + tn_cnt r < start + cnt" "start < tn_start r + tn_cnt r"
    by linarith
  then show ?thesis
  proof cases
    case out
    then show ?thesis
      using False ok sums blks [of "tn_start r + tn_cnt r" "tn_start r + tn_cnt r"]
        blks [of "tn_start r" "tn_start r"]
      by (auto simp: optimize_tag_def Let_def node_blks_def)
  next
    case cover
    have "optimize_tag start cnt r = Inr [r\<lparr>tn_start := INVALID\<rparr>]"
      using False cover sums by (auto simp: optimize_tag_def Let_def)
    then show ?thesis
      using cover fit_r blks [of "tn_start r" "tn_start r + tn_cnt r"]
      by (simp add: node_blks_def node_ok_def node_key_def)
  next
    case inside
    have diffs: "sub64 (tn_start r + tn_cnt r) (start + cnt) = tn_start r + tn_cnt r - (start + cnt)"
      "sub64 start (tn_start r) = start - tn_start r"
      "u32 (tn_start r + tn_cnt r - (start + cnt)) = tn_start r + tn_cnt r - (start + cnt)"
      "u32 (start - tn_start r) = start - tn_start r"
      using inside fits fit_r inv by (simp_all add: c_arith)
    have ne: "tn_start r \<noteq> INVALID" "start + cnt \<noteq> INVALID"
      using False fits by simp_all
    have eq: "optimize_tag start cnt r =
        Inr ((if start - tn_start r = 0 then r\<lparr>tn_start := INVALID, tn_cnt := 0\<rparr>
              else r\<lparr>tn_cnt := start - tn_start r\<rparr>) #
             (if cnt > 0 then [r\<lparr>tn_start := INVALID, tn_cnt := cnt\<rparr>] else []) @
             (if tn_start r + tn_cnt r - (start + cnt) > 0
              then [r\<lparr>tn_start := start + cnt, tn_cnt := tn_start r + tn_cnt r - (start + cnt)\<rparr>]
              else []))"
      using ne inside by (auto simp: optimize_tag_def Let_def sums diffs)
    show ?thesis
      using False inside fits fit_r cnt ne blks [of start "start + cnt"]
      by (auto simp: eq node_blks_def node_ok_def node_key_def)
  next
    case left
    have diffs: "sub64 (tn_start r + tn_cnt r) (start + cnt) = tn_start r + tn_cnt r - (start + cnt)"
      "sub64 (start + cnt) (tn_start r) = start + cnt - tn_start r"
      "u32 (tn_start r + tn_cnt r - (start + cnt)) = tn_start r + tn_cnt r - (start + cnt)"
      "u32 (start + cnt - tn_start r) = start + cnt - tn_start r"
      using left fits fit_r inv by (simp_all add: c_arith)
    show ?thesis
      using False left fits fit_r cnt blks [of "tn_start r" "start + cnt"]
      by (auto simp: optimize_tag_def Let_def sums diffs node_blks_def node_ok_def node_key_def)
  next
    case right
    have diffs: "sub64 (tn_start r + tn_cnt r) start = tn_start r + tn_cnt r - start"
      "sub64 start (tn_start r) = start - tn_start r"
      "u32 (tn_start r + tn_cnt r - start) = tn_start r + tn_cnt r - start"
      "u32 (start - tn_start r) = start - tn_start r"
      using right fits fit_r inv by (simp_all add: c_arith)
    show ?thesis
      using False right fits fit_r cnt blks [of start "tn_start r + tn_cnt r"]
      by (auto simp: optimize_tag_def Let_def sums diffs node_blks_def node_ok_def node_key_def)
  qed
qed

lemma optimize_prefix_blks:
  assumes "\<forall>r\<in>set rs. node_ok r" "cnt < 2 ^ 32" "start + cnt < INVALID"
  shows "\<exists>xs. optimize_prefix start cnt rs = Inr xs \<and>
    list_blks xs = map (mask_blk {start..<start + cnt}) (list_blks rs) \<and>
    (\<forall>x\<in>set xs. node_ok x) \<and> node_key ` set xs \<subseteq> node_key ` set rs"
  using assms(1)
proof (induction rs)
  case (Cons r rs)
  then obtain xs where "optimize_prefix start cnt rs = Inr xs"
    "list_blks xs = map (mask_blk {start..<start + cnt}) (list_blks rs)" "\<forall>x\<in>set xs. node_ok x"
    "node_key ` set xs \<subseteq> node_key ` set rs"
    by auto
  moreover obtain ys where "optimize_tag start cnt r = Inr ys"
    "list_blks ys = map (mask_blk {start..<start + cnt}) (node_blks r)"
    "\<forall>x\<in>set ys. node_ok x \<and> node_key x = node_key r"
    using optimize_tag_blks [OF _ assms(2,3), of r] Cons.prems by auto
  ultimately show ?case by auto
qed simp

lemma ckpt_pass3_blks:
  assumes "\<forall>r\<in>set prefix. node_ok r" "\<forall>n\<in>set ns. tag_ok n"
  shows "\<exists>xs. ckpt_pass3 prefix ns = Inr xs \<and>
    list_blks xs = foldl mask_later (list_blks prefix) ns \<and> (\<forall>x\<in>set xs. node_ok x) \<and>
    node_key ` set xs \<subseteq> node_key ` set (prefix @ ns)"
  using assms
proof (induction ns arbitrary: prefix)
  case (Cons n ns)
  then have n: "tn_cnt n < 2 ^ 32" "tn_start n + tn_cnt n < INVALID"
    by (auto simp: tag_ok_def)
  obtain xs where xs: "optimize_prefix (tn_start n) (tn_cnt n) prefix = Inr xs"
    "list_blks xs = map (mask_blk (tag_range n)) (list_blks prefix)" "\<forall>x\<in>set xs. node_ok x"
    "node_key ` set xs \<subseteq> node_key ` set prefix"
    using optimize_prefix_blks [OF Cons.prems(1) n] by (auto simp: tag_range_def)
  then have "\<forall>x\<in>set (xs @ [n]). node_ok x"
    using Cons.prems(2) tag_ok_node_ok by auto
  then obtain ys where "ckpt_pass3 (xs @ [n]) ns = Inr ys"
    "list_blks ys = foldl mask_later (list_blks (xs @ [n])) ns" "\<forall>x\<in>set ys. node_ok x"
    "node_key ` set ys \<subseteq> node_key ` set ((xs @ [n]) @ ns)"
    using Cons.IH [of "xs @ [n]"] Cons.prems(2) by auto
  moreover from this(4) xs(4) have "node_key ` set ys \<subseteq> node_key ` set (prefix @ n # ns)"
    by (simp add: image_Un) blast
  ultimately show ?case
    using xs(1,2) by (simp add: mask_later_def [of _ n])
qed simp

section \<open>Lemmas: pass 4\<close>

lemma node_blks_merge:
  assumes "tn_src p = tn_src n" "tn_stage p = tn_stage n" "node_ok p" "node_ok n"
    "tn_cnt p + tn_cnt n < 2 ^ 32"
    "(tn_start n = INVALID \<and> tn_start p = INVALID) \<or>
     (tn_start n \<noteq> INVALID \<and> tn_start p \<noteq> INVALID \<and> tn_start n = add64 (tn_start p) (tn_cnt p))"
  shows "node_blks (p\<lparr>tn_cnt := add32 (tn_cnt p) (tn_cnt n)\<rparr>) = node_blks p @ node_blks n"
    and "node_ok (p\<lparr>tn_cnt := add32 (tn_cnt p) (tn_cnt n)\<rparr>)"
proof -
  have sum: "add32 (tn_cnt p) (tn_cnt n) = tn_cnt p + tn_cnt n"
    using assms by (simp add: c_arith)
  have "node_blks (p\<lparr>tn_cnt := add32 (tn_cnt p) (tn_cnt n)\<rparr>) = node_blks p @ node_blks n \<and>
    node_ok (p\<lparr>tn_cnt := add32 (tn_cnt p) (tn_cnt n)\<rparr>)"
  proof (cases "tn_start n = INVALID")
    case True
    then have "tn_start p = INVALID" using assms(6) by simp
    then show ?thesis using True assms(1,2,5) by (simp add: sum node_blks_def replicate_add node_ok_def)
  next
    case False
    then have p: "tn_start p \<noteq> INVALID" "tn_start n = add64 (tn_start p) (tn_cnt p)"
      using assms(6) by simp_all
    then have fit: "tn_start p + tn_cnt p < INVALID" "tn_start n + tn_cnt n < INVALID"
      using False assms(3,4) by (simp_all add: node_ok_def)
    then have "tn_start n = tn_start p + tn_cnt p"
      using p(2) by (simp add: INVALID_def c_arith)
    then show ?thesis
      using False p(1) fit assms(1,2,5) upt_add_eq_append [of "tn_start p" "tn_start n" "tn_cnt n"]
      by (simp add: sum node_blks_def node_ok_def add.assoc)
  qed
  then show "node_blks (p\<lparr>tn_cnt := add32 (tn_cnt p) (tn_cnt n)\<rparr>) = node_blks p @ node_blks n"
    "node_ok (p\<lparr>tn_cnt := add32 (tn_cnt p) (tn_cnt n)\<rparr>)" by simp_all
qed

lemma stages_ok_keys: "stages_ok ns \<Longrightarrow> node_key ` set ms \<subseteq> node_key ` set ns \<Longrightarrow> stages_ok ms"
  unfolding stages_ok_def by (rule single_valued_subset)

lemma stages_ok_subset: "stages_ok ns \<Longrightarrow> set ms \<subseteq> set ns \<Longrightarrow> stages_ok ms"
  by (erule stages_ok_keys) (rule image_mono)

lemma stages_okD:
  "stages_ok ns \<Longrightarrow> m \<in> set ns \<Longrightarrow> n \<in> set ns \<Longrightarrow> tn_src m = tn_src n \<Longrightarrow> tn_stage m = tn_stage n"
  unfolding stages_ok_def single_valued_def node_key_def by blast

lemma ckpt_pass4_blks:
  assumes "\<forall>n\<in>set (acc @ ns). node_ok n" "stages_ok (acc @ ns)"
    "length (list_blks (acc @ ns)) < 2 ^ 32"
    "lg = (case acc of [] \<Rightarrow> INVALID | p # ps \<Rightarrow> tn_src p)" "\<forall>n\<in>set ns. tn_src n \<noteq> INVALID"
  shows "\<exists>xs. ckpt_pass4 lg acc ns = Inr xs \<and> list_blks xs = list_blks (rev acc @ ns) \<and>
    (\<forall>x\<in>set xs. node_ok x) \<and> node_key ` set xs \<subseteq> node_key ` set (acc @ ns)"
  using assms
proof (induction ns arbitrary: acc lg)
  case Nil
  then show ?case by simp
next
  case (Cons n ns)
  have st: "stages_ok ((n # acc) @ ns)"
    using Cons.prems(2) by (rule stages_ok_subset) simp
  have "\<exists>xs. ckpt_pass4 (tn_src n) (n # acc) ns = Inr xs \<and>
      list_blks xs = list_blks (rev (n # acc) @ ns) \<and>
      (\<forall>x\<in>set xs. node_ok x) \<and> node_key ` set xs \<subseteq> node_key ` set ((n # acc) @ ns)"
    using Cons.prems(1,3,5) by (intro Cons.IH st) simp_all
  then have push: "\<exists>xs. ckpt_pass4 (tn_src n) (n # acc) ns = Inr xs \<and>
      list_blks xs = list_blks (rev acc @ n # ns) \<and>
      (\<forall>x\<in>set xs. node_ok x) \<and> node_key ` set xs \<subseteq> node_key ` set (acc @ n # ns)"
    by simp
  show ?case
  proof (cases "lg \<noteq> tn_src n")
    case True
    then show ?thesis using push by simp
  next
    case False
    then obtain p ps where acc: "acc = p # ps"
      using Cons.prems(4,5) by (cases acc) simp_all
    have "lg = tn_src p" using Cons.prems(4) acc by simp
    then have same: "tn_src p = tn_src n" using False by simp
    have stage: "tn_stage p = tn_stage n"
      using stages_okD [OF st, of p n] same acc by simp
    show ?thesis
    proof (cases "(tn_start n = INVALID \<and> tn_start p = INVALID) \<or>
       (tn_start n \<noteq> INVALID \<and> tn_start p \<noteq> INVALID \<and> tn_start n = add64 (tn_start p) (tn_cnt p))")
      case True
      let ?q = "p\<lparr>tn_cnt := add32 (tn_cnt p) (tn_cnt n)\<rparr>"
      have q: "node_blks ?q = node_blks p @ node_blks n" "node_ok ?q"
        using node_blks_merge [OF same stage _ _ _ True] Cons.prems(1,3) acc by simp_all
      have key: "node_key ?q = node_key p" by (simp add: node_key_def)
      have "stages_ok ((?q # ps) @ ns)"
        using key by (intro stages_ok_keys [OF st]) (auto simp: acc)
      moreover have "length (list_blks ((?q # ps) @ ns)) < 2 ^ 32"
        using Cons.prems(3) acc q(1) by simp
      ultimately have "\<exists>xs. ckpt_pass4 lg (?q # ps) ns = Inr xs \<and>
          list_blks xs = list_blks (rev (?q # ps) @ ns) \<and> (\<forall>x\<in>set xs. node_ok x) \<and>
          node_key ` set xs \<subseteq> node_key ` set ((?q # ps) @ ns)"
        using Cons.prems(1,5) acc q(2) \<open>lg = tn_src p\<close> by (intro Cons.IH) simp_all
      then obtain xs where "ckpt_pass4 lg (?q # ps) ns = Inr xs"
          "list_blks xs = list_blks (rev (?q # ps) @ ns)" "\<forall>x\<in>set xs. node_ok x"
          "node_key ` set xs \<subseteq> node_key ` set ((?q # ps) @ ns)" by blast
      then show ?thesis using True False key by (simp add: acc q(1)) blast
    next
      case no: False
      then have eq: "ckpt_pass4 lg acc (n # ns) = ckpt_pass4 (tn_src n) (n # acc) ns"
        using False by (simp only: acc ckpt_pass4.simps list.case if_False simp_thms)
      show ?thesis unfolding eq by (rule push)
    qed
  qed
qed

end
