(* ===== verification/Ox_Ckpt_Replay.thy ===== *)
theory Ox_Ckpt_Replay
  imports Ox_Ckpt_Core
begin

text \<open>
  Correctness of the coalescing checkpoint.  \<open>blk_srcs\<close> gives the log block every
  block of a tag list is copied from, \<open>replay\<close> is the specification (every tag of
  every transaction, in order), and the lemmas take pass 5, then passes 3 to 5
  together, to it.
\<close>

section \<open>Specification\<close>

text \<open>The source of each block, block by block: a new group starts at its own address,
  and a source beyond the end of the area continues at its start.\<close>

fun blk_srcs :: "ckpt_env \<Rightarrow> baddr \<Rightarrow> baddr \<Rightarrow> tag_blk list \<Rightarrow> (baddr \<times> baddr option) list" where
  "blk_srcs env g cur [] = []"
| "blk_srcs env g cur ((g', st, d) # bs) =
     (let c = (if g' \<noteq> g then g' else cur);
          a = (if c > area_hi env st then area_lo env st else c)
      in (a, d) # blk_srcs env g' (Suc a) bs)"

definition copy_pairs :: "(baddr \<times> baddr option) list \<Rightarrow> (baddr \<times> baddr) list" where
  "copy_pairs ps = concat (map (\<lambda>(a, d). case d of None \<Rightarrow> [] | Some t \<Rightarrow> [(t, a)]) ps)"

definition copy_writes :: "'b disk \<Rightarrow> (baddr \<times> baddr) list \<Rightarrow> (baddr \<times> 'b) list" where
  "copy_writes d ps = map (\<lambda>(t, a). (t, d a)) ps"

definition log_areas :: "ckpt_env \<Rightarrow> baddr set" where
  "log_areas env = {stg_first env..stg_last env} \<union> {jnl_first env..jnl_last env}"

definition env_ok :: "ckpt_env \<Rightarrow> bool" where
  "env_ok env \<longleftrightarrow> (\<forall>st. area_lo env st \<le> area_hi env st \<and> area_hi env st < 2 ^ 63 \<and>
     area_size (area_lo env st) (area_hi env st) < 2 ^ 32)"

definition p5_pending :: "'b pass5_state \<Rightarrow> (baddr \<times> baddr) list" where
  "p5_pending st =
     concat (map2 (\<lambda>(s, n) (t, m). zip [t..<t + m] [s..<s + n]) (p5_read st) (p5_write st))"

definition p5_inv :: "ckpt_env \<Rightarrow> 'b disk \<Rightarrow> 'b pass5_state \<Rightarrow> bool" where
  "p5_inv env d st \<longleftrightarrow>
     map snd (p5_read st) = map snd (p5_write st) \<and>
     (\<forall>a\<in>log_areas env. p5_disk st a = d a) \<and>
     snd ` set (p5_pending st) \<subseteq> log_areas env \<and>
     fst ` set (p5_pending st) \<inter> log_areas env = {}"

definition p5_result :: "'b disk \<Rightarrow> 'b pass5_state \<Rightarrow> 'b disk" where
  "p5_result d st = write_list (copy_writes d (p5_pending st)) (p5_disk st)"

text \<open>What one node adds: it takes at most two iterations.\<close>

definition p5_step_ok ::
  "ckpt_env \<Rightarrow> 'b disk \<Rightarrow> 'b pass5_state \<Rightarrow> tag_blk list \<Rightarrow> 'b pass5_state \<Rightarrow> bool" where
  "p5_step_ok env d st bs st1 \<longleftrightarrow>
     p5_inv env d st1 \<and>
     (\<exists>ps. (\<forall>rest. blk_srcs env (p5_group st) (p5_cur st) (bs @ rest) =
              ps @ blk_srcs env (p5_group st1) (p5_cur st1) rest) \<and>
           p5_result d st1 = write_list (copy_writes d (copy_pairs ps)) (p5_result d st))"

definition place_ok :: "ckpt_env \<Rightarrow> tag_node \<Rightarrow> bool" where
  "place_ok env n \<longleftrightarrow> tn_cnt n = 0 \<or> node_ok n \<and>
     area_lo env (tn_stage n) \<le> tn_src n \<and> tn_src n \<le> Suc (area_hi env (tn_stage n)) \<and>
     tn_cnt n \<le> area_size (area_lo env (tn_stage n)) (area_hi env (tn_stage n)) \<and>
     (tn_start n = INVALID \<or> {tn_start n..<tn_start n + tn_cnt n} \<inter> log_areas env = {})"

definition cur_ok :: "ckpt_env \<Rightarrow> 'b pass5_state \<Rightarrow> tag_node list \<Rightarrow> bool" where
  "cur_ok env st ns \<longleftrightarrow>
     (\<forall>n\<in>set ns. tn_src n = p5_group st \<longrightarrow>
        area_lo env (tn_stage n) \<le> p5_cur st \<and> p5_cur st \<le> Suc (area_hi env (tn_stage n)))"

text \<open>Where the walk over a block list ends.\<close>

fun blk_end :: "ckpt_env \<Rightarrow> baddr \<times> baddr \<Rightarrow> tag_blk list \<Rightarrow> baddr \<times> baddr" where
  "blk_end env gc [] = gc"
| "blk_end env (g, cur) ((g', st, d) # bs) =
     (let c = (if g' \<noteq> g then g' else cur);
          a = (if c > area_hi env st then area_lo env st else c)
      in blk_end env (g', Suc a) bs)"

text \<open>A transaction's data: where it starts in its log area, which area, its tags.\<close>

type_synonym tx_group = "baddr \<times> bool \<times> (nat \<times> nat) list"

definition group_nodes :: "tx_group \<Rightarrow> tag_node list" where
  "group_nodes grp = (case grp of (g, st, tags) \<Rightarrow>
     map (\<lambda>(s, c). \<lparr>tn_start = s, tn_cnt = c, tn_src = g, tn_stage = st\<rparr>) tags)"

definition tag_blocks :: "(nat \<times> nat) list \<Rightarrow> baddr list" where
  "tag_blocks tags = concat (map (\<lambda>(s, c). [s..<s + c]) tags)"

definition group_pairs :: "ckpt_env \<Rightarrow> tx_group \<Rightarrow> (baddr \<times> baddr) list" where
  "group_pairs env grp = (case grp of (g, st, tags) \<Rightarrow>
     zip (tag_blocks tags)
         (wrap_range (area_lo env st) (area_hi env st) g (length (tag_blocks tags))))"

definition replay :: "ckpt_env \<Rightarrow> tx_group list \<Rightarrow> 'b disk \<Rightarrow> 'b disk" where
  "replay env grps d = write_list (copy_writes d (concat (map (group_pairs env) grps))) d"

definition group_ok :: "ckpt_env \<Rightarrow> tx_group \<Rightarrow> bool" where
  "group_ok env grp \<longleftrightarrow> (case grp of (g, st, tags) \<Rightarrow>
     area_lo env st \<le> g \<and> g \<le> Suc (area_hi env st) \<and>
     length (tag_blocks tags) \<le> area_size (area_lo env st) (area_hi env st) \<and>
     (\<forall>(s, c)\<in>set tags. c < 2 ^ 32 \<and> s + c < INVALID) \<and>
     set (tag_blocks tags) \<inter> log_areas env = {})"

definition groups_ok :: "ckpt_env \<Rightarrow> tx_group list \<Rightarrow> bool" where
  "groups_ok env grps \<longleftrightarrow> env_ok env \<and> (\<forall>grp\<in>set grps. group_ok env grp) \<and>
     distinct (map fst grps) \<and> length (concat (map (\<lambda>(g, st, tags). tag_blocks tags) grps)) < 2 ^ 32"

definition blk_dsts :: "tag_blk list \<Rightarrow> baddr set" where
  "blk_dsts bs = {a. Some a \<in> (snd \<circ> snd) ` set bs}"

text \<open>The destination blocks of the valid nodes.\<close>

definition dst_blocks :: "tag_node list \<Rightarrow> baddr list" where
  "dst_blocks ns = concat (map (\<lambda>n. if tn_start n = INVALID then [] else [tn_start n..<tn_start n + tn_cnt n]) ns)"

section \<open>Lemmas: pass 5\<close>

lemma tag_blocks_append [simp]: "tag_blocks (xs @ ys) = tag_blocks xs @ tag_blocks ys"
  by (simp add: tag_blocks_def)

lemma copy_pairs_simps [simp]:
  "copy_pairs [] = []" "copy_pairs ((a, None) # ps) = copy_pairs ps"
  "copy_pairs ((a, Some t) # ps) = (t, a) # copy_pairs ps"
  "copy_pairs (ps @ qs) = copy_pairs ps @ copy_pairs qs"
  by (simp_all add: copy_pairs_def)

lemma copy_writes_simps [simp]:
  "copy_writes d [] = []" "copy_writes d (ps @ qs) = copy_writes d ps @ copy_writes d qs"
  "copy_writes d ((t, a) # ps) = (t, d a) # copy_writes d ps"
  by (simp_all add: copy_writes_def)

lemma fst_copy_writes [simp]: "fst ` set (copy_writes d ps) = fst ` set ps"
  by (force simp: copy_writes_def image_iff)

lemma copy_writes_cong: "(\<And>a. a \<in> snd ` set ps \<Longrightarrow> d a = e a) \<Longrightarrow> copy_writes d ps = copy_writes e ps"
  unfolding copy_writes_def by (rule map_cong [OF refl]) (force simp: split_beta)

lemma blk_srcs_run:
  assumes "\<forall>b\<in>set xs. fst b = g \<and> fst (snd b) = st" "c + length xs \<le> Suc (area_hi env st)"
  shows "blk_srcs env g c (xs @ bs) =
    zip [c..<c + length xs] (map (snd \<circ> snd) xs) @ blk_srcs env g (c + length xs) bs"
  using assms
proof (induction xs arbitrary: c)
  case (Cons x xs)
  then show ?case using Cons.IH [of "Suc c"] by (cases x) (simp add: upt_conv_Cons del: upt_Suc)
qed simp

lemma blk_srcs_enter:
  "blk_srcs env g0 cur ((g, st, d) # bs) = blk_srcs env g (if g0 \<noteq> g then g else cur) ((g, st, d) # bs)"
  by simp

lemma blk_srcs_wrap:
  "area_lo env st \<le> area_hi env st \<Longrightarrow>
   blk_srcs env g (Suc (area_hi env st)) ((g, st, d) # bs) = blk_srcs env g (area_lo env st) ((g, st, d) # bs)"
  by simp

section \<open>The result of the pending copies\<close>

lemma write_bufs_read_bufs:
  assumes "map snd rs = map snd ws"
  shows "write_bufs ws (read_bufs d rs) =
    copy_writes d (concat (map2 (\<lambda>(s, n) (t, m). zip [t..<t + m] [s..<s + n]) rs ws))"
  using assms
proof (induction rs arbitrary: ws)
  case (Cons r rs)
  then obtain w ws' where "ws = w # ws'" "snd r = snd w" "map snd rs = map snd ws'" by auto
  then show ?case using Cons.IH [of ws']
    by (cases r; cases w)
      (simp add: write_bufs_def read_bufs_def copy_writes_def zip_map2)
qed (simp add: write_bufs_def read_bufs_def)

lemma dispatch_copies_result:
  assumes "p5_inv env d st"
  shows "p5_inv env d (dispatch_copies st)" "p5_result d (dispatch_copies st) = p5_result d st"
    "p5_disk (dispatch_copies st) = p5_result d st"
proof -
  have "copy_writes (p5_disk st) (p5_pending st) = copy_writes d (p5_pending st)"
    using assms by (intro copy_writes_cong) (auto simp: p5_inv_def)
  then show disk: "p5_disk (dispatch_copies st) = p5_result d st"
    using assms by (simp add: dispatch_copies_def p5_result_def write_bufs_read_bufs p5_inv_def
        p5_pending_def)
  have none: "p5_pending (dispatch_copies st) = []"
    by (simp add: dispatch_copies_def p5_pending_def)
  have "p5_result d st a = d a" if "a \<in> log_areas env" for a
    using assms that unfolding p5_result_def
    by (subst write_list_other) (auto simp: p5_inv_def)
  then show "p5_inv env d (dispatch_copies st)"
    using none disk by (simp add: p5_inv_def) (simp add: dispatch_copies_def)
  show "p5_result d (dispatch_copies st) = p5_result d st"
    unfolding disk [symmetric] by (simp add: p5_result_def none)
qed

text \<open>The bios of one node.\<close>

lemma pass5_emit_result:
  assumes inv: "p5_inv env d st"
    and src: "tn_start n = INVALID \<or> {tn_src n..<tn_src n + tn_cnt n} \<subseteq> log_areas env"
    and dst: "tn_start n = INVALID \<or> {tn_start n..<tn_start n + tn_cnt n} \<inter> log_areas env = {}"
  shows "p5_inv env d (pass5_emit env st n)"
    and "p5_result d (pass5_emit env st n) =
      (if tn_start n = INVALID then p5_result d st
       else write_list (copy_writes d (zip [tn_start n..<tn_start n + tn_cnt n]
              [tn_src n..<tn_src n + tn_cnt n])) (p5_result d st))"
    and "p5_group (pass5_emit env st n) = p5_group st" "p5_cur (pass5_emit env st n) = p5_cur st"
proof -
  let ?st1 = "st\<lparr>p5_size := add64 (p5_size st) (nblks_to_bytes (tn_cnt n)),
    p5_read := p5_read st @ [(tn_src n, tn_cnt n)],
    p5_write := p5_write st @ [(tn_start n, tn_cnt n)]\<rparr>"
  let ?zip = "zip [tn_start n..<tn_start n + tn_cnt n] [tn_src n..<tn_src n + tn_cnt n]"
  have len: "length (p5_read st) = length (p5_write st)"
    using inv by (metis p5_inv_def length_map)
  have pend: "p5_pending ?st1 = p5_pending st @ ?zip"
    using len by (simp add: p5_pending_def)
  have sets: "fst ` set ?zip = {tn_start n..<tn_start n + tn_cnt n}"
    "snd ` set ?zip = {tn_src n..<tn_src n + tn_cnt n}"
    by (simp_all flip: set_map)
  have inv1: "p5_inv env d ?st1" if "tn_start n \<noteq> INVALID"
    using that inv src dst unfolding p5_inv_def pend
    by (simp add: image_Un sets Int_Un_distrib2)
  have res1: "p5_result d ?st1 = write_list (copy_writes d ?zip) (p5_result d st)"
    by (simp add: p5_result_def pend)
  show "p5_inv env d (pass5_emit env st n)"
    using inv inv1 dispatch_copies_result(1) by (auto simp: pass5_emit_def Let_def)
  show "p5_result d (pass5_emit env st n) =
      (if tn_start n = INVALID then p5_result d st
       else write_list (copy_writes d ?zip) (p5_result d st))"
    using dispatch_copies_result(2) [OF inv1] res1 by (simp add: pass5_emit_def Let_def)
  show "p5_group (pass5_emit env st n) = p5_group st" "p5_cur (pass5_emit env st n) = p5_cur st"
    by (simp_all add: pass5_emit_def Let_def dispatch_copies_def)
qed

lemma pass5_place_straight:
  assumes "env_ok env" "c = (if p5_group st \<noteq> tn_src n then tn_src n else p5_cur st)"
    "area_lo env (tn_stage n) \<le> c" "c + tn_cnt n \<le> Suc (area_hi env (tn_stage n))" "0 < tn_cnt n"
  shows "pass5_place env st n =
    (st\<lparr>p5_group := tn_src n, p5_cur := c + tn_cnt n\<rparr>, n\<lparr>tn_src := c\<rparr>, None)"
proof -
  have "area_hi env (tn_stage n) < 2 ^ 63" using assms(1) by (simp add: env_ok_def)
  then have "add64 c (tn_cnt n) = c + tn_cnt n" "\<not> check_wrap_around c (tn_cnt n) (area_hi env (tn_stage n))"
    using assms(4,5) by (simp_all add: check_wrap_around_def c_arith)
  then show ?thesis using assms(2) by (simp add: pass5_place_def Let_def)
qed

lemma pass5_place_wrapping:
  assumes "env_ok env" "c = (if p5_group st \<noteq> tn_src n then tn_src n else p5_cur st)"
    "area_lo env (tn_stage n) \<le> c" "c \<le> Suc (area_hi env (tn_stage n))"
    "Suc (area_hi env (tn_stage n)) < c + tn_cnt n" "node_ok n"
    "k = Suc (area_hi env (tn_stage n)) - c"
  shows "pass5_place env st n =
    (st\<lparr>p5_group := tn_src n, p5_cur := area_lo env (tn_stage n)\<rparr>,
     n\<lparr>tn_src := c, tn_cnt := k, tn_start := (if k = 0 then INVALID else tn_start n)\<rparr>,
     Some (n\<lparr>tn_start := (if tn_start n = INVALID then INVALID else tn_start n + k),
             tn_cnt := tn_cnt n - k\<rparr>))"
proof -
  let ?hi = "area_hi env (tn_stage n)"
  have hi: "?hi < 2 ^ 63" "area_size (area_lo env (tn_stage n)) ?hi < 2 ^ 32"
    using assms(1) by (simp_all add: env_ok_def)
  then have k: "k < 2 ^ 32" "k < tn_cnt n" "tn_cnt n < 2 ^ 32"
    using assms(3-7) by (simp_all add: area_size_def node_ok_def)
  have wrap: "check_wrap_around c (tn_cnt n) ?hi"
    using assms(4,5) k hi by (simp add: check_wrap_around_def c_arith)
  have cnt1: "u32 (add64 (sub64 ?hi c) 1) = k"
  proof (cases "c = Suc ?hi")
    case True
    then show ?thesis using assms(7) hi by (simp add: sub64_wraps add64_def u32_def)
  next
    case False
    then show ?thesis using assms(4,7) hi k by (simp add: c_arith)
  qed
  have cnt2: "sub32 (tn_cnt n) k = tn_cnt n - k" using k by (simp add: c_arith)
  have st: "tn_start n \<noteq> INVALID \<Longrightarrow> add64 (tn_start n) k = tn_start n + k"
    using assms(6) k by (simp add: node_ok_def INVALID_def c_arith)
  show ?thesis
    using wrap cnt1 cnt2 st k assms(2) by (simp add: pass5_place_def Let_def)
qed

lemma node_blks_keys: "\<forall>b\<in>set (node_blks n). fst b = tn_src n \<and> fst (snd b) = tn_stage n"
  by (auto simp: node_blks_def)

lemma node_blks_dsts:
  "map (snd \<circ> snd) (node_blks n) =
   (if tn_start n = INVALID then replicate (tn_cnt n) None
    else map Some [tn_start n..<tn_start n + tn_cnt n])"
  by (simp add: node_blks_def o_def)

lemma copy_pairs_none: "copy_pairs (zip as (replicate n None)) = []"
proof (induction n arbitrary: as)
  case (Suc n)
  then show ?case by (cases as) auto
qed simp

lemma copy_pairs_some: "length as = length ts \<Longrightarrow> copy_pairs (zip as (map Some ts)) = zip ts as"
  by (induction as ts rule: list_induct2) auto

lemma copy_pairs_node:
  "copy_pairs (zip [c..<c + tn_cnt n] (map (snd \<circ> snd) (node_blks n))) =
   (if tn_start n = INVALID then []
    else zip [tn_start n..<tn_start n + tn_cnt n] [c..<c + tn_cnt n])"
  by (simp add: node_blks_dsts copy_pairs_none copy_pairs_some)

lemma area_sub_log_areas:
  "area_lo env st \<le> a \<Longrightarrow> b \<le> Suc (area_hi env st) \<Longrightarrow> {a..<b} \<subseteq> log_areas env"
  by (auto simp: log_areas_def area_lo_def area_hi_def split: if_splits)

lemma p5_step_ok_trans:
  "p5_step_ok env d st bs st1 \<Longrightarrow> p5_step_ok env d st1 bs' st2 \<Longrightarrow> p5_step_ok env d st (bs @ bs') st2"
  unfolding p5_step_ok_def by (elim conjE exE, intro conjI exI) auto

lemma pass5_node_straight:
  assumes env: "env_ok env" and inv: "p5_inv env d st" and ok: "node_ok n"
    and c: "c = (if p5_group st \<noteq> tn_src n then tn_src n else p5_cur st)"
    and lo: "area_lo env (tn_stage n) \<le> c" and hi: "c + tn_cnt n \<le> Suc (area_hi env (tn_stage n))"
    and pos: "0 < tn_cnt n"
    and dst: "tn_start n = INVALID \<or> {tn_start n..<tn_start n + tn_cnt n} \<inter> log_areas env = {}"
  shows "\<exists>st1. (\<forall>f rest. pass5_loop (Suc f) env st (n # rest) = pass5_loop f env st1 rest) \<and>
    p5_step_ok env d st (node_blks n) st1 \<and> p5_group st1 = tn_src n \<and> p5_cur st1 = c + tn_cnt n"
proof -
  let ?st = "st\<lparr>p5_group := tn_src n, p5_cur := c + tn_cnt n\<rparr>" and ?n = "n\<lparr>tn_src := c\<rparr>"
  let ?st1 = "pass5_emit env ?st ?n"
  have inv': "p5_inv env d ?st" "p5_result d ?st = p5_result d st"
    using inv by (simp_all add: p5_inv_def p5_result_def p5_pending_def)
  have emit: "p5_inv env d ?st1" "p5_group ?st1 = tn_src n" "p5_cur ?st1 = c + tn_cnt n"
    "p5_result d ?st1 = write_list (copy_writes d (copy_pairs
       (zip [c..<c + tn_cnt n] (map (snd \<circ> snd) (node_blks n))))) (p5_result d st)"
    using pass5_emit_result [OF inv'(1), of ?n] area_sub_log_areas [OF lo hi] dst
    by (simp_all add: inv'(2) copy_pairs_node)
  obtain x xs where x: "node_blks n = (tn_src n, tn_stage n, x) # xs"
    using pos node_blks_keys [of n] length_node_blks [of n]
    by (cases "node_blks n") (auto simp del: length_node_blks)
  have "blk_srcs env (p5_group st) (p5_cur st) (node_blks n @ rest) =
      zip [c..<c + tn_cnt n] (map (snd \<circ> snd) (node_blks n)) @
      blk_srcs env (tn_src n) (c + tn_cnt n) rest" for rest
    using blk_srcs_run [OF node_blks_keys, of c n env rest] hi
      blk_srcs_enter [of env "p5_group st" "p5_cur st" "tn_src n" "tn_stage n" x "xs @ rest"]
    by (simp only: x append_Cons c [symmetric]) (simp flip: x)
  then have "p5_step_ok env d st (node_blks n) ?st1"
    using emit unfolding p5_step_ok_def by auto
  moreover have "pass5_loop (Suc f) env st (n # rest) = pass5_loop f env ?st1 rest" for f rest
    using pos pass5_place_straight [OF env c lo hi pos] by simp
  ultimately show ?thesis using emit(2,3) by blast
qed

lemma node_blks_split:
  assumes "node_ok n" "k \<le> tn_cnt n"
  shows "node_blks n = node_blks (n\<lparr>tn_cnt := k\<rparr>) @
    node_blks (n\<lparr>tn_start := (if tn_start n = INVALID then INVALID else tn_start n + k),
                tn_cnt := tn_cnt n - k\<rparr>)"
proof (cases "tn_start n = INVALID")
  case True
  then show ?thesis using assms(2) by (simp add: node_blks_def flip: replicate_add)
next
  case False
  then show ?thesis
    using assms upt_add_eq_append [of "tn_start n" "tn_start n + k" "tn_cnt n - k"]
    by (simp add: node_blks_def node_ok_def flip: map_append)
qed

lemma node_blks_first:
  assumes "0 < tn_cnt n"
  obtains x xs where "node_blks n = (tn_src n, tn_stage n, x) # xs"
  using assms node_blks_keys [of n] length_node_blks [of n]
  by (cases "node_blks n") (auto simp del: length_node_blks)

lemma pass5_node_wrapping:
  assumes env: "env_ok env" and inv: "p5_inv env d st" and ok: "node_ok n"
    and c: "c = (if p5_group st \<noteq> tn_src n then tn_src n else p5_cur st)"
    and lo: "area_lo env (tn_stage n) \<le> c" and hi: "c \<le> Suc (area_hi env (tn_stage n))"
    and wrap: "Suc (area_hi env (tn_stage n)) < c + tn_cnt n"
    and size: "tn_cnt n \<le> area_size (area_lo env (tn_stage n)) (area_hi env (tn_stage n))"
    and dst: "tn_start n = INVALID \<or> {tn_start n..<tn_start n + tn_cnt n} \<inter> log_areas env = {}"
  shows "\<exists>st1. (\<forall>f rest. pass5_loop (Suc (Suc f)) env st (n # rest) = pass5_loop f env st1 rest) \<and>
    p5_step_ok env d st (node_blks n) st1 \<and> p5_group st1 = tn_src n \<and>
    area_lo env (tn_stage n) \<le> p5_cur st1 \<and> p5_cur st1 \<le> Suc (area_hi env (tn_stage n))"
proof -
  let ?lo = "area_lo env (tn_stage n)" and ?hi = "area_hi env (tn_stage n)"
  define k where k: "k = Suc ?hi - c"
  let ?st = "st\<lparr>p5_group := tn_src n, p5_cur := ?lo\<rparr>"
  let ?n1 = "n\<lparr>tn_src := c, tn_cnt := k, tn_start := (if k = 0 then INVALID else tn_start n)\<rparr>"
  let ?n2 = "n\<lparr>tn_start := (if tn_start n = INVALID then INVALID else tn_start n + k),
    tn_cnt := tn_cnt n - k\<rparr>"
  let ?st1 = "pass5_emit env ?st ?n1"
  have kn: "k < tn_cnt n" "c + k = Suc ?hi" "tn_cnt n - k \<le> Suc ?hi - ?lo" "?lo \<le> ?hi"
    using wrap hi lo size env by (simp_all add: k area_size_def env_ok_def)
  have inv': "p5_inv env d ?st" "p5_result d ?st = p5_result d st"
    using inv by (simp_all add: p5_inv_def p5_result_def p5_pending_def)
  have src1: "tn_start ?n1 = INVALID \<or> {tn_src ?n1..<tn_src ?n1 + tn_cnt ?n1} \<subseteq> log_areas env"
    using area_sub_log_areas [OF lo, of "c + k"] kn(2) by simp
  have dst1: "tn_start ?n1 = INVALID \<or>
      {tn_start ?n1..<tn_start ?n1 + tn_cnt ?n1} \<inter> log_areas env = {}"
    using dst kn(1) by (auto simp: disjoint_iff)
  have emit: "p5_inv env d ?st1" "p5_group ?st1 = tn_src n" "p5_cur ?st1 = ?lo"
    "p5_result d ?st1 = write_list (copy_writes d (copy_pairs
       (zip [c..<c + k] (map (snd \<circ> snd) (node_blks (n\<lparr>tn_cnt := k\<rparr>)))))) (p5_result d st)"
    using pass5_emit_result [OF inv'(1) src1 dst1] copy_pairs_node [of c "n\<lparr>tn_cnt := k\<rparr>"]
    by (simp_all add: inv'(2) split: if_splits)
  have dst2: "tn_start ?n2 = INVALID \<or>
      {tn_start ?n2..<tn_start ?n2 + tn_cnt ?n2} \<inter> log_areas env = {}"
    using dst by (auto simp: disjoint_iff)
  have ok2: "node_ok ?n2" using ok kn(1) by (auto simp: node_ok_def)
  have "\<exists>st2. (\<forall>f rest. pass5_loop (Suc f) env ?st1 (?n2 # rest) = pass5_loop f env st2 rest) \<and>
      p5_step_ok env d ?st1 (node_blks ?n2) st2 \<and> p5_group st2 = tn_src ?n2 \<and>
      p5_cur st2 = ?lo + tn_cnt ?n2"
    using kn by (intro pass5_node_straight [OF env emit(1) ok2 _ _ _ _ dst2]) (simp_all add: emit(2,3))
  then obtain st2 where st2: "\<And>f rest. pass5_loop (Suc f) env ?st1 (?n2 # rest) = pass5_loop f env st2 rest"
    "p5_step_ok env d ?st1 (node_blks ?n2) st2" "p5_group st2 = tn_src n"
    "p5_cur st2 = ?lo + (tn_cnt n - k)" by auto
  obtain x xs where x: "node_blks n = (tn_src n, tn_stage n, x) # xs"
    using node_blks_first [of n] kn(1) by auto
  obtain y ys where y: "node_blks ?n2 = (tn_src n, tn_stage n, y) # ys"
    using node_blks_first [of ?n2] kn(1) by auto
  have split: "node_blks n = node_blks (n\<lparr>tn_cnt := k\<rparr>) @ node_blks ?n2"
    using node_blks_split [OF ok] kn(1) by simp
  have head: "blk_srcs env (p5_group st) (p5_cur st) (node_blks n @ rest) =
      zip [c..<c + k] (map (snd \<circ> snd) (node_blks (n\<lparr>tn_cnt := k\<rparr>))) @
      blk_srcs env (tn_src n) ?lo (node_blks ?n2 @ rest)" for rest
  proof -
    have "blk_srcs env (p5_group st) (p5_cur st) (node_blks n @ rest) =
        blk_srcs env (tn_src n) c (node_blks (n\<lparr>tn_cnt := k\<rparr>) @ node_blks ?n2 @ rest)"
      using blk_srcs_enter [of env "p5_group st" "p5_cur st" "tn_src n" "tn_stage n" x "xs @ rest"]
      by (simp only: c [symmetric] append_Cons [symmetric] x [symmetric]) (simp add: split)
    then show ?thesis
      using blk_srcs_run [OF node_blks_keys, of c "n\<lparr>tn_cnt := k\<rparr>" env "node_blks ?n2 @ rest"] kn(2)
        blk_srcs_wrap [OF kn(4), of "tn_src n" y "ys @ rest"]
      by (simp add: y)
  qed
  have "p5_step_ok env d st (node_blks n) st2"
    using st2(2) emit(2-4) head unfolding p5_step_ok_def
    by (elim conjE exE, intro conjI exI) auto
  moreover have "pass5_loop (Suc (Suc f)) env st (n # rest) = pass5_loop f env st2 rest" for f rest
    using st2(1) pass5_place_wrapping [OF env c lo hi wrap ok k] kn(1) by simp
  ultimately show ?thesis using st2(3,4) kn(3,4) by auto
qed

lemma pass5_node:
  assumes env: "env_ok env" and inv: "p5_inv env d st" and n: "place_ok env n"
    and cur: "cur_ok env st (n # ns)" and st: "stages_ok (n # ns)"
  shows "\<exists>st1 k. k \<le> 2 \<and> (\<forall>f. pass5_loop (f + k) env st (n # ns) = pass5_loop f env st1 ns) \<and>
    p5_step_ok env d st (node_blks n) st1 \<and> cur_ok env st1 ns"
proof (cases "tn_cnt n = 0")
  case True
  have "p5_step_ok env d st (node_blks n) st"
    using inv True length_node_blks [of n] unfolding p5_step_ok_def
    by (intro conjI exI [of _ "[]"]) (simp_all del: length_node_blks)
  then show ?thesis
    using True cur by (intro exI [of _ st] exI [of _ 1]) (simp add: cur_ok_def)
next
  case False
  define c where c: "c = (if p5_group st \<noteq> tn_src n then tn_src n else p5_cur st)"
  have range: "area_lo env (tn_stage n) \<le> c" "c \<le> Suc (area_hi env (tn_stage n))"
    using n cur False by (auto simp: c place_ok_def cur_ok_def)
  have after: "cur_ok env st1 ns" if "p5_group st1 = tn_src n"
    "area_lo env (tn_stage n) \<le> p5_cur st1" "p5_cur st1 \<le> Suc (area_hi env (tn_stage n))"
    for st1 :: "'b pass5_state"
    unfolding cur_ok_def
  proof (intro ballI impI)
    fix m assume "m \<in> set ns" "tn_src m = p5_group st1"
    then have "tn_stage m = tn_stage n" using stages_okD [OF st, of m n] that(1) by simp
    then show "area_lo env (tn_stage m) \<le> p5_cur st1 \<and> p5_cur st1 \<le> Suc (area_hi env (tn_stage m))"
      using that(2,3) by simp
  qed
  show ?thesis
  proof (cases "c + tn_cnt n \<le> Suc (area_hi env (tn_stage n))")
    case True
    obtain st1 where "\<And>f rest. pass5_loop (Suc f) env st (n # rest) = pass5_loop f env st1 rest"
      "p5_step_ok env d st (node_blks n) st1" "p5_group st1 = tn_src n" "p5_cur st1 = c + tn_cnt n"
      using pass5_node_straight [OF env inv _ c range(1) True] n False by (auto simp: place_ok_def)
    then show ?thesis
      using after [of st1] range True by (intro exI [of _ st1] exI [of _ 1]) simp
  next
    case wrap: False
    obtain st1 where "\<And>f rest. pass5_loop (Suc (Suc f)) env st (n # rest) = pass5_loop f env st1 rest"
      "p5_step_ok env d st (node_blks n) st1" "p5_group st1 = tn_src n"
      "area_lo env (tn_stage n) \<le> p5_cur st1" "p5_cur st1 \<le> Suc (area_hi env (tn_stage n))"
      using pass5_node_wrapping [OF env inv _ c range] n wrap False by (auto simp: place_ok_def)
    then show ?thesis
      using after [of st1] by (intro exI [of _ st1] exI [of _ 2]) simp
  qed
qed

lemma pass5_loop_result:
  assumes "env_ok env" "p5_inv env d st" "\<forall>n\<in>set ns. place_ok env n" "stages_ok ns"
    "cur_ok env st ns" "2 * length ns \<le> fuel"
  shows "\<exists>st'. pass5_loop fuel env st ns = Some st' \<and> p5_step_ok env d st (list_blks ns) st'"
  using assms(2-)
proof (induction ns arbitrary: st fuel)
  case Nil
  have "p5_step_ok env d st [] st"
    using Nil unfolding p5_step_ok_def by (intro conjI exI [of _ "[]"]) simp_all
  then show ?case by (cases fuel) auto
next
  case (Cons n ns)
  obtain st1 k where st1: "k \<le> 2" "\<And>f. pass5_loop (f + k) env st (n # ns) = pass5_loop f env st1 ns"
    "p5_step_ok env d st (node_blks n) st1" "cur_ok env st1 ns"
    using pass5_node [OF assms(1) Cons.prems(1) _ Cons.prems(4,3)] Cons.prems(2) by auto
  have "2 * length ns \<le> fuel - k" using Cons.prems(5) st1(1) by simp
  then obtain st' where "pass5_loop (fuel - k) env st1 ns = Some st'"
    "p5_step_ok env d st1 (list_blks ns) st'"
    using Cons.IH [of st1 "fuel - k"] st1(3,4) Cons.prems(2) stages_ok_subset [OF Cons.prems(3)]
    by (auto simp: p5_step_ok_def)
  moreover have "fuel = fuel - k + k" using Cons.prems(5) st1(1) by simp
  ultimately show ?case using st1(2) [of "fuel - k"] p5_step_ok_trans [OF st1(3)] by auto
qed

lemma ckpt_pass5_result:
  assumes "env_ok env" "\<forall>n\<in>set ns. place_ok env n" "stages_ok ns" "\<forall>n\<in>set ns. tn_src n \<noteq> INVALID"
    "2 * length ns \<le> fuel"
  shows "ckpt_pass5 fuel env d ns =
    Some (write_list (copy_writes d (copy_pairs (blk_srcs env INVALID 0 (list_blks ns)))) d)"
proof -
  let ?st = "\<lparr>p5_group = INVALID, p5_cur = 0, p5_size = 0, p5_read = [], p5_write = [], p5_disk = d\<rparr>"
  have st: "p5_inv env d ?st" "cur_ok env ?st ns" "p5_result d ?st = d"
    using assms(4) by (simp_all add: p5_inv_def p5_pending_def cur_ok_def p5_result_def)
  obtain st' where st': "pass5_loop fuel env ?st ns = Some st'" "p5_step_ok env d ?st (list_blks ns) st'"
    using pass5_loop_result [OF assms(1) st(1) assms(2,3) st(2) assms(5)] by auto
  from st'(2) have inv: "p5_inv env d st'" by (simp add: p5_step_ok_def)
  from st'(2) obtain ps where ps: "\<forall>rest. blk_srcs env INVALID 0 (list_blks ns @ rest) =
      ps @ blk_srcs env (p5_group st') (p5_cur st') rest"
    "p5_result d st' = write_list (copy_writes d (copy_pairs ps)) d"
    by (auto simp: p5_step_ok_def st(3))
  then have "blk_srcs env INVALID 0 (list_blks ns) = ps"
    using spec [OF ps(1), of "[]"] by simp
  then show ?thesis
    using st'(1) ps(2) dispatch_copies_result(3) [OF inv] by (simp add: ckpt_pass5_def)
qed

section \<open>Masking does not change the replay\<close>

lemma blk_srcs_append:
  "blk_srcs env g c (xs @ ys) =
   blk_srcs env g c xs @ (case blk_end env (g, c) xs of (g', c') \<Rightarrow> blk_srcs env g' c' ys)"
proof (induction xs arbitrary: g c)
  case (Cons x xs)
  then show ?case by (cases x) (simp add: Let_def)
qed simp

lemma blk_end_append: "blk_end env gc (xs @ ys) = blk_end env (blk_end env gc xs) ys"
proof (induction xs arbitrary: gc)
  case (Cons x xs)
  then show ?case by (cases x; cases gc) (simp add: Let_def)
qed simp

lemma blk_end_mask: "blk_end env gc (map (mask_blk S) xs) = blk_end env gc xs"
proof (induction xs arbitrary: gc)
  case (Cons x xs)
  then show ?case by (cases x; cases gc) (simp add: mask_blk_def Let_def split: option.splits)
qed simp

lemma copy_pairs_mask:
  "copy_pairs (blk_srcs env g c (map (mask_blk S) xs)) =
   filter (\<lambda>p. fst p \<notin> S) (copy_pairs (blk_srcs env g c xs))"
proof (induction xs arbitrary: g c)
  case (Cons x xs)
  then show ?case
    by (cases x) (auto simp: mask_blk_def Let_def split: option.splits)
qed simp

lemma copy_writes_filter:
  "copy_writes d (filter (\<lambda>p. fst p \<notin> S) ps) = filter (\<lambda>w. fst w \<notin> S) (copy_writes d ps)"
  by (induction ps) (auto simp: copy_writes_def)

lemma map_snd_blk_srcs: "map snd (blk_srcs env g c xs) = map (snd \<circ> snd) xs"
proof (induction xs arbitrary: g c)
  case (Cons x xs)
  then show ?case by (cases x) (simp add: Let_def)
qed simp

lemma fst_copy_pairs: "map fst (copy_pairs ps) = concat (map (\<lambda>d. case d of None \<Rightarrow> [] | Some t \<Rightarrow> [t]) (map snd ps))"
  by (induction ps) (auto split: option.splits)

lemma fst_copy_pairs_tag:
  assumes "tag_ok n"
  shows "map fst (copy_pairs (blk_srcs env g c (node_blks n))) = [tn_start n..<tn_start n + tn_cnt n]"
proof -
  have "tn_start n \<noteq> INVALID" using assms by (simp add: tag_ok_def)
  then show ?thesis
    by (simp only: fst_copy_pairs map_snd_blk_srcs node_blks_dsts) (simp add: o_def)
qed

lemma mask_later_writes:
  assumes "\<forall>n\<in>set ns. tag_ok n"
  shows "write_list (copy_writes d (copy_pairs (blk_srcs env g c (foldl mask_later [] ns)))) d =
    write_list (copy_writes d (copy_pairs (blk_srcs env g c (list_blks ns)))) d \<and>
    blk_end env (g, c) (foldl mask_later [] ns) = blk_end env (g, c) (list_blks ns)"
  using assms
proof (induction ns rule: rev_induct)
  case (snoc n ns)
  let ?m = "foldl mask_later [] ns"
  obtain g' c' where e: "blk_end env (g, c) (list_blks ns) = (g', c')" by fastforce
  let ?w = "copy_writes d (copy_pairs (blk_srcs env g' c' (node_blks n)))"
  have "set (map fst (copy_pairs (blk_srcs env g' c' (node_blks n)))) = tag_range n"
    using fst_copy_pairs_tag [of n env g' c'] snoc.prems by (simp only: tag_range_def) simp
  then have "fst ` set ?w = tag_range n" by simp
  then have "write_list (copy_writes d (copy_pairs (blk_srcs env g c (map (mask_blk (tag_range n)) ?m))) @ ?w) d =
      write_list (copy_writes d (copy_pairs (blk_srcs env g c ?m)) @ ?w) d"
    using write_list_drop_covered [of ?w "copy_writes d (copy_pairs (blk_srcs env g c ?m))" d]
    by (simp add: copy_pairs_mask copy_writes_filter)
  then show ?case
    using snoc e by (simp add: mask_later_def [of _ n] blk_srcs_append blk_end_mask blk_end_append)
qed simp

section \<open>The blocks of the transactions\<close>

lemma wrap_at_0: "lo \<le> hi \<Longrightarrow> lo \<le> c \<Longrightarrow> c \<le> Suc hi \<Longrightarrow> wrap_at lo hi c 0 = (if c > hi then lo else c)"
  by (auto simp: wrap_at_def area_size_def not_le le_less)

lemma wrap_range_Suc:
  "wrap_range lo hi c (Suc n) = wrap_at lo hi c 0 # wrap_range lo hi (Suc (wrap_at lo hi c 0)) n"
proof -
  have "wrap_at lo hi c (Suc i) = wrap_at lo hi (Suc (wrap_at lo hi c 0)) i" for i
    by (simp add: wrap_at_def mod_Suc_eq mod_add_left_eq flip: add_Suc)
      (metis add_Suc add_Suc_right mod_Suc_eq mod_add_left_eq)
  then show ?thesis
    by (simp add: wrap_range_def upt_conv_Cons map_Suc_upt [symmetric] del: upt_Suc)
qed

lemma blk_srcs_group:
  assumes "\<forall>b\<in>set xs. fst b = g \<and> fst (snd b) = st"
    "area_lo env st \<le> area_hi env st" "area_lo env st \<le> c" "c \<le> Suc (area_hi env st)"
  shows "blk_srcs env g c xs =
    zip (wrap_range (area_lo env st) (area_hi env st) c (length xs)) (map (snd \<circ> snd) xs)"
  using assms
proof (induction xs arbitrary: c)
  case (Cons x xs)
  let ?a = "if c > area_hi env st then area_lo env st else c"
  have "blk_srcs env g (Suc ?a) xs =
      zip (wrap_range (area_lo env st) (area_hi env st) (Suc ?a) (length xs)) (map (snd \<circ> snd) xs)"
    using Cons.prems by (intro Cons.IH) auto
  then show ?case
    using Cons.prems wrap_at_0 [of "area_lo env st" "area_hi env st" c]
    by (cases x) (simp add: wrap_range_Suc Let_def o_def)
qed simp

lemma group_blks:
  assumes "\<forall>(s, c)\<in>set tags. c < 2 ^ 32 \<and> s + c < INVALID"
  shows "list_blks (group_nodes (g, st, tags)) = map (\<lambda>a. (g, st, Some a)) (tag_blocks tags)"
  using assms
  by (induction tags) (auto simp: group_nodes_def tag_blocks_def node_blks_def)

lemma copy_pairs_group:
  assumes "group_ok env (g, st, tags)" "env_ok env"
  shows "copy_pairs (blk_srcs env g g (list_blks (group_nodes (g, st, tags)))) = group_pairs env (g, st, tags)"
proof -
  let ?bs = "map (\<lambda>a. (g, st, Some a)) (tag_blocks tags)"
  have blks: "list_blks (group_nodes (g, st, tags)) = ?bs"
    using assms(1) by (intro group_blks) (simp add: group_ok_def)
  have "blk_srcs env g g ?bs =
      zip (wrap_range (area_lo env st) (area_hi env st) g (length ?bs)) (map (snd \<circ> snd) ?bs)"
    using assms by (intro blk_srcs_group) (auto simp: group_ok_def env_ok_def)
  then show ?thesis
    by (simp add: blks group_pairs_def o_def copy_pairs_some)
qed

lemma blk_end_group: "\<forall>b\<in>set xs. fst b = g \<Longrightarrow> fst (blk_end env (g, c) xs) = g"
proof (induction xs arbitrary: c)
  case (Cons x xs)
  then show ?case by (cases x) (simp add: Let_def)
qed simp

lemma copy_pairs_groups:
  assumes "env_ok env" "\<forall>grp\<in>set grps. group_ok env grp" "distinct (map fst grps)" "g0 \<notin> fst ` set grps"
  shows "copy_pairs (blk_srcs env g0 c0 (list_blks (concat (map group_nodes grps)))) =
    concat (map (group_pairs env) grps)"
  using assms(2-)
proof (induction grps arbitrary: g0 c0)
  case (Cons grp grps)
  obtain g st tags where grp: "grp = (g, st, tags)" by (cases grp)
  have blks: "list_blks (group_nodes grp) = map (\<lambda>a. (g, st, Some a)) (tag_blocks tags)"
    using Cons.prems(1) by (simp add: grp group_blks group_ok_def)
  have pairs: "copy_pairs (blk_srcs env g g (list_blks (group_nodes grp))) = group_pairs env grp"
    using Cons.prems(1) assms(1) by (simp add: grp copy_pairs_group)
  show ?case
  proof (cases "tag_blocks tags")
    case Nil
    then have "group_pairs env grp = []" by (simp add: grp group_pairs_def)
    then show ?thesis using Nil blks Cons.IH [of g0 c0] Cons.prems by simp
  next
    case bs: (Cons a as)
    let ?bs = "list_blks (group_nodes grp)" and ?rest = "list_blks (concat (map group_nodes grps))"
    have "g0 \<noteq> g" using Cons.prems(3) grp by simp
    then have "blk_srcs env g0 c0 (?bs @ ?rest) = blk_srcs env g g (?bs @ ?rest)"
      unfolding blks bs by simp
    moreover obtain c' where "blk_end env (g, g) ?bs = (g, c')"
      using blk_end_group [of ?bs g env g] by (cases "blk_end env (g, g) ?bs") (auto simp: blks)
    ultimately have "blk_srcs env g0 c0 (?bs @ ?rest) = blk_srcs env g g ?bs @ blk_srcs env g c' ?rest"
      by (simp add: blk_srcs_append)
    then show ?thesis
      using pairs Cons.IH [of g c'] Cons.prems grp by simp
  qed
qed simp

section \<open>The nodes after passes 3 and 4\<close>

lemma mask_later_keys:
  "map (\<lambda>b. (fst b, fst (snd b))) (foldl mask_later bs ns) =
   map (\<lambda>b. (fst b, fst (snd b))) (bs @ list_blks ns)"
proof (induction ns arbitrary: bs)
  case (Cons n ns)
  have "(\<lambda>b. (fst b, fst (snd b))) \<circ> mask_blk S = (\<lambda>b. (fst b, fst (snd b)))" for S
    by (auto simp: mask_blk_def split: option.splits)
  then show ?case using Cons by (simp add: mask_later_def [of _ n])
qed simp

lemma blk_dsts_append [simp]: "blk_dsts (xs @ ys) = blk_dsts xs \<union> blk_dsts ys"
  by (auto simp: blk_dsts_def)

lemma blk_dsts_mask: "blk_dsts (map (mask_blk S) bs) \<subseteq> blk_dsts bs"
proof
  fix a assume "a \<in> blk_dsts (map (mask_blk S) bs)"
  then obtain b where b: "b \<in> set bs" "snd (snd (mask_blk S b)) = Some a"
    by (auto simp: blk_dsts_def)
  from b(2) have "snd (snd b) = Some a"
    by (cases b) (auto simp: mask_blk_def split: option.splits if_splits)
  then show "a \<in> blk_dsts bs" using b(1) by (force simp: blk_dsts_def)
qed

lemma mask_later_dsts: "blk_dsts (foldl mask_later bs ns) \<subseteq> blk_dsts (bs @ list_blks ns)"
proof (induction ns arbitrary: bs)
  case (Cons n ns)
  have "blk_dsts (mask_later bs n) \<subseteq> blk_dsts bs \<union> blk_dsts (node_blks n)"
    using blk_dsts_mask by (auto simp: mask_later_def)
  then show ?case using Cons [of "mask_later bs n"] by auto
qed simp

lemma filter_length_keys:
  fixes xs ys :: "tag_blk list"
  assumes "map (\<lambda>b. (fst b, fst (snd b))) xs = map (\<lambda>b. (fst b, fst (snd b))) ys"
  shows "length (filter (\<lambda>b. fst b = g) xs) = length (filter (\<lambda>b. fst b = g) ys)"
proof -
  have len: "length (filter (\<lambda>b. fst b = g) zs) =
      length (filter (\<lambda>k. fst k = g) (map (\<lambda>b. (fst b, fst (snd b))) zs))" for zs :: "tag_blk list"
    by (simp add: filter_map o_def)
  show ?thesis unfolding len [of xs] len [of ys] assms ..
qed

lemma node_cnt_le_group:
  assumes "n \<in> set ns"
  shows "tn_cnt n \<le> length (filter (\<lambda>b. fst b = tn_src n) (list_blks ns))"
proof -
  obtain as bs where "ns = as @ n # bs" using assms by (meson split_list)
  moreover have "filter (\<lambda>b. fst b = tn_src n) (node_blks n) = node_blks n"
    using node_blks_keys [of n] by (simp add: filter_id_conv)
  ultimately show ?thesis by simp
qed

lemma groups_blks_iff:
  assumes "\<forall>grp\<in>set grps. group_ok env grp"
  shows "b \<in> set (list_blks (concat (map group_nodes grps))) \<longleftrightarrow>
    (\<exists>(g, st, tags)\<in>set grps. \<exists>a\<in>set (tag_blocks tags). b = (g, st, Some a))"
  using assms
proof (induction grps)
  case (Cons grp grps)
  then show ?case
    by (cases grp) (auto simp: group_blks group_ok_def)
qed simp

lemma groups_other:
  assumes "\<forall>grp\<in>set grps. group_ok env grp" "g \<notin> fst ` set grps"
  shows "\<forall>b\<in>set (list_blks (concat (map group_nodes grps))). fst b \<noteq> g"
  using assms(2) by (force simp: groups_blks_iff [OF assms(1)])

lemma group_total:
  assumes "\<forall>grp\<in>set grps. group_ok env grp" "distinct (map fst grps)" "(g, st, tags) \<in> set grps"
  shows "length (filter (\<lambda>b. fst b = g) (list_blks (concat (map group_nodes grps)))) =
    length (tag_blocks tags)"
  using assms
proof (induction grps)
  case (Cons grp grps)
  obtain g' st' tags' where grp: "grp = (g', st', tags')" by (cases grp)
  have blks: "list_blks (group_nodes grp) = map (\<lambda>a. (g', st', Some a)) (tag_blocks tags')"
    using Cons.prems(1) by (simp add: grp group_blks group_ok_def)
  show ?case
  proof (cases "g' = g")
    case True
    then have same: "tags' = tags" using Cons.prems(2,3) grp by force
    have "\<forall>b\<in>set (list_blks (concat (map group_nodes grps))). fst b \<noteq> g"
      using Cons.prems(1,2) True grp by (intro groups_other) auto
    then have "filter (\<lambda>b. fst b = g) (list_blks (concat (map group_nodes grps))) = []"
      by (simp add: filter_empty_conv)
    then show ?thesis using True same by (simp add: blks filter_map o_def)
  next
    case False
    then have "filter (\<lambda>b. fst b = g) (list_blks (group_nodes grp)) = []"
      by (simp add: blks filter_map o_def)
    then show ?thesis using Cons grp False by simp
  qed
qed simp

lemma node_blks_dsts_set:
  "tn_start n \<noteq> INVALID \<Longrightarrow> blk_dsts (node_blks n) = {tn_start n..<tn_start n + tn_cnt n}"
  by (force simp: blk_dsts_def node_blks_def)

lemma coalesced_place_ok:
  assumes grps: "groups_ok env grps"
    and blks: "list_blks xs = foldl mask_later [] (concat (map group_nodes grps))"
    and ok: "\<forall>x\<in>set xs. node_ok x" and x: "x \<in> set xs"
  shows "place_ok env x"
proof (cases "tn_cnt x = 0")
  case False
  let ?ns = "concat (map group_nodes grps)"
  note g = grps [unfolded groups_ok_def]
  have gok: "\<forall>grp\<in>set grps. group_ok env grp" "distinct (map fst grps)" using g by auto
  have keys: "map (\<lambda>b. (fst b, fst (snd b))) (list_blks xs) =
      map (\<lambda>b. (fst b, fst (snd b))) (list_blks ?ns)"
    using mask_later_keys [of "[]" ?ns] blks by simp
  obtain as bs where xs: "xs = as @ x # bs" using x by (meson split_list)
  obtain y ys where y: "node_blks x = (tn_src x, tn_stage x, y) # ys"
    using node_blks_first [of x] False by auto
  have "(tn_src x, tn_stage x) \<in> set (map (\<lambda>b. (fst b, fst (snd b))) (list_blks xs))"
    by (simp add: xs y)
  then have "(tn_src x, tn_stage x) \<in> set (map (\<lambda>b. (fst b, fst (snd b))) (list_blks ?ns))"
    by (simp only: keys)
  then obtain tags where grp: "(tn_src x, tn_stage x, tags) \<in> set grps"
    by (auto simp: groups_blks_iff [OF gok(1)])
  have "tn_cnt x \<le> length (tag_blocks tags)"
    using node_cnt_le_group [OF x] filter_length_keys [OF keys, of "tn_src x"]
      group_total [OF gok grp] by simp
  moreover have "tn_start x = INVALID \<or> {tn_start x..<tn_start x + tn_cnt x} \<inter> log_areas env = {}"
  proof (cases "tn_start x = INVALID")
    case inv: False
    have "blk_dsts (node_blks x) \<subseteq> blk_dsts (list_blks xs)" by (auto simp: xs)
    then have "blk_dsts (node_blks x) \<subseteq> blk_dsts (list_blks ?ns)"
      using mask_later_dsts [of "[]" ?ns] blks by simp
    moreover have "blk_dsts (list_blks ?ns) \<inter> log_areas env = {}"
      using gok(1) by (force simp: blk_dsts_def groups_blks_iff [OF gok(1)] group_ok_def disjoint_iff)
    ultimately show ?thesis using node_blks_dsts_set [OF inv] by auto
  qed simp
  moreover have "group_ok env (tn_src x, tn_stage x, tags)" using gok(1) grp by auto
  ultimately show ?thesis using ok x by (auto simp: place_ok_def group_ok_def)
qed (simp add: place_ok_def)

lemma group_ok_valid: "env_ok env \<Longrightarrow> group_ok env grp \<Longrightarrow> fst grp \<noteq> INVALID"
proof -
  assume env: "env_ok env" and grp: "group_ok env grp"
  obtain g st tags where "grp = (g, st, tags)" by (cases grp)
  then have "fst grp \<le> Suc (area_hi env st)" using grp by (simp add: group_ok_def)
  moreover have "area_hi env st < 2 ^ 63" using env by (simp add: env_ok_def)
  ultimately show ?thesis by (simp add: INVALID_def)
qed

lemma group_nodes_facts:
  assumes "groups_ok env grps" "n \<in> set (concat (map group_nodes grps))"
  shows "tag_ok n" "tn_src n \<noteq> INVALID"
proof -
  obtain g st tags where grp: "(g, st, tags) \<in> set grps" "n \<in> set (group_nodes (g, st, tags))"
    using assms(2) by force
  then have "group_ok env (g, st, tags)" "env_ok env" using assms(1) by (auto simp: groups_ok_def)
  then have "g \<le> Suc (area_hi env st)" "area_hi env st < 2 ^ 63"
    "\<forall>(s, c)\<in>set tags. c < 2 ^ 32 \<and> s + c < INVALID"
    by (auto simp: group_ok_def env_ok_def)
  then show "tag_ok n" "tn_src n \<noteq> INVALID"
    using grp(2) by (auto simp: group_nodes_def tag_ok_def INVALID_def)
qed

lemma group_nodes_stages:
  assumes "distinct (map fst grps)"
  shows "stages_ok (concat (map group_nodes grps))"
proof -
  have "single_valued ((\<lambda>(g, st, tags). (g, st)) ` set grps)"
    using eq_key_imp_eq_value [OF assms] by (fastforce simp: single_valued_def)
  moreover have "node_key ` set (concat (map group_nodes grps)) \<subseteq> (\<lambda>(g, st, tags). (g, st)) ` set grps"
  proof
    fix k assume "k \<in> node_key ` set (concat (map group_nodes grps))"
    then obtain grp n where "grp \<in> set grps" "n \<in> set (group_nodes grp)" "k = node_key n" by auto
    then show "k \<in> (\<lambda>(g, st, tags). (g, st)) ` set grps"
      by (intro rev_image_eqI [of grp]) (auto simp: group_nodes_def node_key_def)
  qed
  ultimately show ?thesis unfolding stages_ok_def by (rule single_valued_subset [rotated])
qed

lemma length_mask_later: "length (foldl mask_later bs ns) = length bs + length (list_blks ns)"
  using arg_cong [OF mask_later_keys [of bs ns], of length] by simp

lemma length_group_blks:
  assumes "\<forall>grp\<in>set grps. group_ok env grp"
  shows "length (list_blks (concat (map group_nodes grps))) =
    length (concat (map (\<lambda>(g, st, tags). tag_blocks tags) grps))"
  using assms
proof (induction grps)
  case (Cons grp grps)
  then show ?case by (cases grp) (simp add: group_blks group_ok_def)
qed simp

lemma coalesce_tags_replay:
  assumes "groups_ok env grps"
  shows "coalesce_tags env d (concat (map group_nodes grps)) = Inr (replay env grps d)"
proof -
  let ?ns = "concat (map group_nodes grps)"
  have g: "env_ok env" "\<forall>grp\<in>set grps. group_ok env grp" "distinct (map fst grps)"
    using assms by (auto simp: groups_ok_def)
  have ns: "\<forall>n\<in>set ?ns. tag_ok n" "\<forall>n\<in>set ?ns. tn_src n \<noteq> INVALID"
    using group_nodes_facts [OF assms] by blast+
  obtain xs where xs: "ckpt_pass3 [] ?ns = Inr xs" "list_blks xs = foldl mask_later [] ?ns"
    "\<forall>x\<in>set xs. node_ok x" "node_key ` set xs \<subseteq> node_key ` set ?ns"
    using ckpt_pass3_blks [of "[]" ?ns] ns(1) by auto
  have st: "stages_ok xs" using stages_ok_keys [OF group_nodes_stages [OF g(3)] xs(4)] .
  have srcs: "\<forall>y\<in>set ys. tn_src y \<noteq> INVALID" if "node_key ` set ys \<subseteq> node_key ` set ?ns" for ys
  proof
    fix y assume "y \<in> set ys"
    then have "node_key y \<in> node_key ` set ?ns" using that by (auto simp del: set_concat)
    then obtain n where "n \<in> set ?ns" "node_key y = node_key n" by (rule imageE)
    then show "tn_src y \<noteq> INVALID" using ns(2) by (simp add: node_key_def) metis
  qed
  have "length (list_blks xs) < 2 ^ 32"
    using assms g(2) by (simp add: xs(2) length_mask_later length_group_blks groups_ok_def)
  then obtain ys where ys: "ckpt_pass4 INVALID [] xs = Inr ys" "list_blks ys = list_blks xs"
    "\<forall>y\<in>set ys. node_ok y" "node_key ` set ys \<subseteq> node_key ` set xs"
    using ckpt_pass4_blks [of "[]" xs INVALID] xs(3) st srcs [OF xs(4)] by auto
  have place: "\<forall>y\<in>set ys. place_ok env y"
    using coalesced_place_ok [OF assms] ys(2,3) xs(2) by simp
  have p5: "ckpt_pass5 (2 * length ys) env d ys =
      Some (write_list (copy_writes d (copy_pairs (blk_srcs env INVALID 0 (list_blks ys)))) d)"
    by (rule ckpt_pass5_result [OF g(1) place stages_ok_keys [OF st ys(4)]
        srcs [OF subset_trans [OF ys(4) xs(4)]] order_refl])
  have inv: "INVALID \<notin> fst ` set grps"
  proof
    assume "INVALID \<in> fst ` set grps"
    then obtain grp where "INVALID = fst grp" "grp \<in> set grps" by (rule imageE)
    then show False using group_ok_valid [OF g(1), of grp] g(2) by simp
  qed
  have "write_list (copy_writes d (copy_pairs (blk_srcs env INVALID 0 (list_blks ys)))) d = replay env grps d"
    using mask_later_writes [OF ns(1), of d env INVALID 0] copy_pairs_groups [OF g inv, of 0]
    by (simp add: ys(2) xs(2) replay_def)
  then show ?thesis
    by (simp add: coalesce_tags_def xs(1) ys(1) p5)
qed

text \<open>The copies of pass 5 write to distinct blocks.\<close>

lemma mask_later_distinct:
  assumes "\<forall>n\<in>set ns. tag_ok n"
  shows "distinct (map fst (copy_pairs (blk_srcs env g c (foldl mask_later [] ns))))"
  using assms
proof (induction ns rule: rev_induct)
  case (snoc n ns)
  let ?m = "foldl mask_later [] ns"
  obtain g' c' where e: "blk_end env (g, c) (map (mask_blk (tag_range n)) ?m) = (g', c')" by fastforce
  have "map fst (copy_pairs (blk_srcs env g c (mask_later ?m n))) =
      map fst (filter (\<lambda>p. fst p \<notin> tag_range n) (copy_pairs (blk_srcs env g c ?m))) @
      [tn_start n..<tn_start n + tn_cnt n]"
    using fst_copy_pairs_tag [of n env g' c'] snoc.prems e
    by (simp add: mask_later_def blk_srcs_append copy_pairs_mask)
  moreover have "distinct (map fst (filter (\<lambda>p. fst p \<notin> tag_range n) (copy_pairs (blk_srcs env g c ?m))))"
    using snoc by (simp add: distinct_map_filter)
  ultimately show ?case by (auto simp: tag_range_def)
qed simp

lemma dst_blocks_blks:
  "dst_blocks ns = concat (map (\<lambda>b. case snd (snd b) of None \<Rightarrow> [] | Some a \<Rightarrow> [a]) (list_blks ns))"
proof (induction ns)
  case (Cons n ns)
  have "concat (map (\<lambda>b. case snd (snd b) of None \<Rightarrow> [] | Some a \<Rightarrow> [a]) (node_blks n)) =
      (if tn_start n = INVALID then [] else [tn_start n..<tn_start n + tn_cnt n])"
    by (simp add: node_blks_def comp_def)
  then show ?case using Cons by (simp add: dst_blocks_def)
qed (simp add: dst_blocks_def)

lemma blk_dsts_Cons: "blk_dsts ((g, st, d) # bs) = set_option d \<union> blk_dsts bs"
  by (auto simp: blk_dsts_def)

lemma blk_dsts_mask_eq: "blk_dsts (map (mask_blk S) bs) = blk_dsts bs - S"
proof (induction bs)
  case (Cons b bs)
  obtain g st d where "b = (g, st, d)" by (cases b) auto
  then show ?case using Cons by (cases d) (auto simp: mask_blk_def blk_dsts_Cons)
qed (simp add: blk_dsts_def)

lemma mask_later_dst_set:
  assumes "\<forall>n\<in>set ns. tag_ok n"
  shows "blk_dsts (foldl mask_later bs ns) = blk_dsts bs \<union> (\<Union>n\<in>set ns. tag_range n)"
  using assms
proof (induction ns arbitrary: bs)
  case (Cons n ns)
  have "blk_dsts (mask_later bs n) = blk_dsts bs \<union> tag_range n"
    using Cons.prems node_blks_dsts_set [of n] by (auto simp: mask_later_def blk_dsts_mask_eq tag_ok_def tag_range_def)
  then show ?case using Cons by auto
qed simp

section \<open>Properties\<close>

text \<open>C3.  After pass 3 the valid nodes of the tag list write to distinct blocks, and to
  exactly the blocks the tags name: the copies of pass 5 can be dispatched in any order.\<close>

theorem ckpt_pass3_disjoint:
  assumes "\<forall>n\<in>set ns. tag_ok n"
  shows "\<exists>xs. ckpt_pass3 [] ns = Inr xs \<and> distinct (dst_blocks xs) \<and>
    set (dst_blocks xs) = (\<Union>n\<in>set ns. {tn_start n..<tn_start n + tn_cnt n})"
proof -
  obtain xs where xs: "ckpt_pass3 [] ns = Inr xs" "list_blks xs = foldl mask_later [] ns"
    using ckpt_pass3_blks [of "[]" ns] assms by auto
  have "dst_blocks xs = map fst (copy_pairs (blk_srcs undefined 0 0 (foldl mask_later [] ns)))"
    by (simp add: dst_blocks_blks xs(2) fst_copy_pairs map_snd_blk_srcs comp_def)
  moreover have "set (dst_blocks xs) = blk_dsts (foldl mask_later [] ns)"
    by (force simp: dst_blocks_blks xs(2) blk_dsts_def image_iff split: option.splits)
  ultimately show ?thesis
    using mask_later_distinct [OF assms] mask_later_dst_set [OF assms, of "[]"] xs(1)
    by (simp add: tag_range_def blk_dsts_def)
qed

theorem ckpt_pass3_disjoint_witness:
  "\<exists>xs. ckpt_pass3 [] [\<lparr>tn_start = 5, tn_cnt = 4, tn_src = 100, tn_stage = True\<rparr>,
      \<lparr>tn_start = 6, tn_cnt = 2, tn_src = 200, tn_stage = False\<rparr>] = Inr xs \<and>
    distinct (dst_blocks xs) \<and> set (dst_blocks xs) = {5..<9}"
proof -
  have "{5..<9} \<union> {6..<8} = {5..<9 :: nat}" by auto
  then show ?thesis
    using ckpt_pass3_disjoint [of "[\<lparr>tn_start = 5, tn_cnt = 4, tn_src = 100, tn_stage = True\<rparr>,
      \<lparr>tn_start = 6, tn_cnt = 2, tn_src = 200, tn_stage = False\<rparr>]"]
    by (simp add: tag_ok_def INVALID_def)
qed

end
