(* ===== verification/Ox_Fifo.thy ===== *)
theory Ox_Fifo
  imports Ox_Prelude
begin

text \<open>
  The contract of a queue: what is put in comes out in the same order.  \<open>repr s xs\<close>
  says that the state \<open>s\<close> holds the elements \<open>xs\<close>, oldest first, and \<open>can s x\<close>
  says when \<open>x\<close> may be put in.  The bio list and the multi-producer ring provide
  it.
\<close>

fun put_all :: "('s \<Rightarrow> 'a \<Rightarrow> 's) \<Rightarrow> 's \<Rightarrow> 'a list \<Rightarrow> 's" where
  "put_all put s [] = s"
| "put_all put s (x # xs) = put_all put (put s x) xs"

fun take_n :: "('s \<Rightarrow> ('a \<times> 's) option) \<Rightarrow> nat \<Rightarrow> 's \<Rightarrow> 'a list \<times> 's" where
  "take_n get 0 s = ([], s)"
| "take_n get (Suc n) s =
     (case get s of
        None \<Rightarrow> ([], s)
      | Some (x, s') \<Rightarrow> (case take_n get n s' of (xs, s'') \<Rightarrow> (x # xs, s'')))"

fun can_all :: "('s \<Rightarrow> 'a \<Rightarrow> bool) \<Rightarrow> ('s \<Rightarrow> 'a \<Rightarrow> 's) \<Rightarrow> 's \<Rightarrow> 'a list \<Rightarrow> bool" where
  "can_all can put s [] = True"
| "can_all can put s (x # xs) = (can s x \<and> can_all can put (put s x) xs)"

locale fifo_queue =
  fixes repr :: "'s \<Rightarrow> 'a list \<Rightarrow> bool"
    and can :: "'s \<Rightarrow> 'a \<Rightarrow> bool"
    and put :: "'s \<Rightarrow> 'a \<Rightarrow> 's"
    and get :: "'s \<Rightarrow> ('a \<times> 's) option"
  assumes repr_put: "repr s xs \<Longrightarrow> can s x \<Longrightarrow> repr (put s x) (xs @ [x])"
    and get_none: "repr s [] \<Longrightarrow> get s = None"
    and get_some: "repr s (x # xs) \<Longrightarrow> \<exists>s'. get s = Some (x, s') \<and> repr s' xs"
begin

lemma repr_put_all:
  "repr s xs \<Longrightarrow> can_all can put s ys \<Longrightarrow> repr (put_all put s ys) (xs @ ys)"
proof (induction ys arbitrary: s xs)
  case (Cons y ys)
  then show ?case using repr_put [of s xs y] Cons.IH [of "put s y" "xs @ [y]"] by simp
qed simp

lemma take_all: "repr s xs \<Longrightarrow> \<exists>s'. take_n get (length xs) s = (xs, s') \<and> repr s' []"
proof (induction xs arbitrary: s)
  case (Cons x xs)
  then obtain s1 where s1: "get s = Some (x, s1)" "repr s1 xs" using get_some by blast
  then obtain s2 where "take_n get (length xs) s1 = (xs, s2)" "repr s2 []" using Cons.IH by blast
  then show ?case using s1(1) by auto
qed simp

lemma put_then_take:
  assumes "repr s []" "can_all can put s ys"
  shows "\<exists>s'. take_n get (length ys) (put_all put s ys) = (ys, s') \<and> get s' = None"
  using take_all [OF repr_put_all [OF assms]] get_none by auto

end

end
