(* ===== verification/Ox_Bio.thy ===== *)
theory Ox_Bio
  imports Ox_Fifo Ox_Journal_Log Ox_Disk
begin

text \<open>
  Block I/O requests (\<^verbatim>\<open>devfs/include/common/bio.h\<close>).  The first part has the
  singly linked \<^verbatim>\<open>bio_list\<close> on a heap of bios (address 0 is \<^verbatim>\<open>NULL\<close>)
  and shows that it is a queue.  The second part has the functions of
  \<^verbatim>\<open>devfs/src/journal.c\<close> that build bio lists for a buffer, with the split at
  the end of the log; there a bio list is the list of its bios.
\<close>

section \<open>Bios and bio lists\<close>

record bio_vec =
  bv_buf :: nat
  bv_len :: nat

record bio =
  bi_next :: nat
  bi_blk_no :: baddr
  bi_vcnt :: nat
  total_size :: nat
  bi_io_vec :: "bio_vec list"
  bio_completed :: nat

type_synonym bio_heap = "nat \<Rightarrow> bio"

record bio_list =
  bl_head :: nat
  bl_tail :: nat

definition alloc_bio_n_bvecs :: "baddr \<Rightarrow> nat \<Rightarrow> bio" where
  "alloc_bio_n_bvecs blk_no n_bio_vecs =
     \<lparr>bi_next = 0, bi_blk_no = blk_no, bi_vcnt = n_bio_vecs, total_size = 0,
      bi_io_vec = replicate n_bio_vecs \<lparr>bv_buf = 0, bv_len = 0\<rparr>, bio_completed = 0\<rparr>"

definition bio_list_empty :: "bio_list \<Rightarrow> bool" where
  "bio_list_empty bl = (bl_head bl = 0)"

definition bio_list_init :: "bio_list" where
  "bio_list_init = \<lparr>bl_head = 0, bl_tail = 0\<rparr>"

definition set_next :: "bio_heap \<Rightarrow> nat \<Rightarrow> nat \<Rightarrow> bio_heap" where
  "set_next h p q = h(p := (h p)\<lparr>bi_next := q\<rparr>)"

text \<open>The loop of \<^verbatim>\<open>bio_list_for_each\<close> from \<open>p\<close>; it ends at \<^verbatim>\<open>NULL\<close>.\<close>

fun bio_count :: "nat \<Rightarrow> bio_heap \<Rightarrow> nat \<Rightarrow> nat \<Rightarrow> nat option" where
  "bio_count 0 h p sz = (if p = 0 then Some sz else None)"
| "bio_count (Suc fuel) h p sz = (if p = 0 then Some sz else bio_count fuel h (bi_next (h p)) (add32 sz 1))"

definition bio_list_size :: "nat \<Rightarrow> bio_heap \<Rightarrow> bio_list \<Rightarrow> nat option" where
  "bio_list_size fuel h bl = bio_count fuel h (bl_head bl) 0"

definition bio_list_add :: "bio_heap \<times> bio_list \<Rightarrow> nat \<Rightarrow> bio_heap \<times> bio_list" where
  "bio_list_add s b = (case s of (h, bl) \<Rightarrow>
     (let h1 = set_next h b 0
      in if bl_tail bl \<noteq> 0 then (set_next h1 (bl_tail bl) b, bl\<lparr>bl_tail := b\<rparr>)
         else (h1, bl\<lparr>bl_head := b, bl_tail := b\<rparr>)))"

definition bio_list_add_head :: "bio_heap \<times> bio_list \<Rightarrow> nat \<Rightarrow> bio_heap \<times> bio_list" where
  "bio_list_add_head s b = (case s of (h, bl) \<Rightarrow>
     (let h1 = set_next h b (bl_head bl)
      in if bl_tail bl = 0 then (h1, bl\<lparr>bl_head := b, bl_tail := b\<rparr>) else (h1, bl\<lparr>bl_head := b\<rparr>)))"

definition bio_list_merge :: "bio_heap \<Rightarrow> bio_list \<Rightarrow> bio_list \<Rightarrow> bio_heap \<times> bio_list" where
  "bio_list_merge h bl bl2 =
     (if bl_head bl2 = 0 then (h, bl)
      else if bl_tail bl \<noteq> 0 then (set_next h (bl_tail bl) (bl_head bl2), bl\<lparr>bl_tail := bl_tail bl2\<rparr>)
      else (h, bl\<lparr>bl_head := bl_head bl2, bl_tail := bl_tail bl2\<rparr>))"

definition bio_list_merge_head :: "bio_heap \<Rightarrow> bio_list \<Rightarrow> bio_list \<Rightarrow> bio_heap \<times> bio_list" where
  "bio_list_merge_head h bl bl2 =
     (if bl_head bl2 = 0 then (h, bl)
      else if bl_head bl \<noteq> 0 then (set_next h (bl_tail bl2) (bl_head bl), bl\<lparr>bl_head := bl_head bl2\<rparr>)
      else (h, bl\<lparr>bl_head := bl_head bl2, bl_tail := bl_tail bl2\<rparr>))"

definition bio_list_peek :: "bio_list \<Rightarrow> nat" where
  "bio_list_peek bl = bl_head bl"

definition bio_list_pop :: "bio_heap \<times> bio_list \<Rightarrow> (nat \<times> bio_heap \<times> bio_list) option" where
  "bio_list_pop s = (case s of (h, bl) \<Rightarrow>
     (let b = bl_head bl
      in if b \<noteq> 0
         then let bl1 = bl\<lparr>bl_head := bi_next (h b)\<rparr>;
                  bl2 = (if bl_head bl1 = 0 then bl1\<lparr>bl_tail := 0\<rparr> else bl1)
              in Some (b, set_next h b 0, bl2)
         else None))"

definition bio_list_get :: "bio_list \<Rightarrow> nat \<times> bio_list" where
  "bio_list_get bl = (bl_head bl, bl\<lparr>bl_head := 0, bl_tail := 0\<rparr>)"

text \<open>\<^verbatim>\<open>free_bl\<close> pops and frees the bios until the list is empty: the freed addresses.\<close>

fun free_bl :: "nat \<Rightarrow> bio_heap \<times> bio_list \<Rightarrow> nat list option" where
  "free_bl 0 s = (if bio_list_empty (snd s) then Some [] else None)"
| "free_bl (Suc fuel) s =
     (if bio_list_empty (snd s) then Some []
      else case bio_list_pop s of
             None \<Rightarrow> None
           | Some (b, s') \<Rightarrow> map_option ((#) b) (free_bl fuel s'))"

section \<open>The list a bio list holds\<close>

fun chain :: "bio_heap \<Rightarrow> nat \<Rightarrow> nat list \<Rightarrow> bool" where
  "chain h p [] = (p = 0)"
| "chain h p (x # xs) = (p = x \<and> x \<noteq> 0 \<and> chain h (bi_next (h x)) xs)"

definition bl_repr :: "bio_heap \<times> bio_list \<Rightarrow> nat list \<Rightarrow> bool" where
  "bl_repr s xs \<longleftrightarrow>
     chain (fst s) (bl_head (snd s)) xs \<and> distinct xs \<and>
     bl_tail (snd s) = (if xs = [] then 0 else last xs)"

definition bl_can_add :: "bio_heap \<times> bio_list \<Rightarrow> nat \<Rightarrow> bool" where
  "bl_can_add s b \<longleftrightarrow> b \<noteq> 0 \<and> (\<forall>xs. bl_repr s xs \<longrightarrow> b \<notin> set xs)"

section \<open>Building bio lists\<close>

definition BIO_MAX_BIO_SIZE :: nat where
  "BIO_MAX_BIO_SIZE = DATA_FETCHER_BUF_SIZE"

definition set_bvec :: "bio \<Rightarrow> nat \<Rightarrow> nat \<Rightarrow> nat \<Rightarrow> ox_error + bio" where
  "set_bvec b bvec_id buf n_blks =
     (if \<not> bvec_id < bi_vcnt b \<or> buf = 0 then Inl Assertion
      else Inr (b\<lparr>bi_io_vec := (bi_io_vec b)[bvec_id := \<lparr>bv_buf = buf, bv_len = nblks_to_bytes n_blks\<rparr>],
                  total_size := add64 (total_size b) (nblks_to_bytes n_blks)\<rparr>))"

function add_bio_loop ::
  "bio list \<Rightarrow> nat \<Rightarrow> baddr \<Rightarrow> nat \<Rightarrow> nat \<Rightarrow> ox_error + bio list" where
  "add_bio_loop bl buf_p cur_start size_copied size_total =
     (if size_copied < size_total
      then (let size_to_copy = min (size_total - size_copied) BIO_MAX_BIO_SIZE
            in case bytes_to_nblks size_to_copy of
                 Inl e \<Rightarrow> Inl e
               | Inr n_blks_to_copy \<Rightarrow>
                   (case set_bvec (alloc_bio_n_bvecs cur_start 1) 0 buf_p n_blks_to_copy of
                      Inl e \<Rightarrow> Inl e
                    | Inr b \<Rightarrow>
                        add_bio_loop (bl @ [b]) (add64 buf_p size_to_copy)
                          (add64 cur_start n_blks_to_copy) (size_copied + BIO_MAX_BIO_SIZE) size_total))
      else Inr bl)"
  by auto
termination
  by (relation "measure (\<lambda>(bl, p, c, done, total). total - done)")
    (auto simp: BIO_MAX_BIO_SIZE_def DATA_FETCHER_BUF_SIZE_def)

definition add_bio_to_bl :: "bio list \<Rightarrow> nat \<Rightarrow> baddr \<Rightarrow> nat \<Rightarrow> ox_error + bio list" where
  "add_bio_to_bl bl buf start n_blks = add_bio_loop bl buf start 0 (nblks_to_bytes n_blks)"

definition add_bios_considering_wrap ::
  "journal_log \<Rightarrow> bio list \<Rightarrow> baddr \<Rightarrow> nat \<Rightarrow> nat \<Rightarrow> ox_error + (baddr \<times> bio list)" where
  "add_bios_considering_wrap j bl start_baddr buf sz =
     (case bytes_to_nblks sz of
        Inl e \<Rightarrow> Inl e
      | Inr n_total \<Rightarrow>
          if check_wrap_around_journal_tx start_baddr n_total j
          then (let n1 = u32 (add64 (sub64 (log_last j) start_baddr) 1);
                    buf2 = add64 buf (nblks_to_bytes n1);
                    n2 = sub32 n_total n1
                in case add_bio_to_bl bl buf start_baddr n1 of
                     Inl e \<Rightarrow> Inl e
                   | Inr bl1 \<Rightarrow>
                       (case add_bio_to_bl bl1 buf2 (log_first j) n2 of
                          Inl e \<Rightarrow> Inl e
                        | Inr bl2 \<Rightarrow> Inr (add64 (log_first j) n2, bl2)))
          else (case add_bio_to_bl bl buf start_baddr n_total of
                  Inl e \<Rightarrow> Inl e
                | Inr bl1 \<Rightarrow> Inr (add64 start_baddr n_total, bl1)))"

definition add_bios_considering_wrap_into_separate_bls ::
  "journal_log \<Rightarrow> baddr \<Rightarrow> nat \<Rightarrow> nat \<Rightarrow> ox_error + (bio list \<times> bio list)" where
  "add_bios_considering_wrap_into_separate_bls j start_baddr buf sz =
     (case bytes_to_nblks sz of
        Inl e \<Rightarrow> Inl e
      | Inr n_total \<Rightarrow>
          if check_wrap_around_journal_tx start_baddr n_total j
          then (let n1 = u32 (add64 (sub64 (log_last j) start_baddr) 1);
                    buf2 = add64 buf (nblks_to_bytes n1);
                    n2 = sub32 n_total n1
                in case add_bio_to_bl [] buf start_baddr n1 of
                     Inl e \<Rightarrow> Inl e
                   | Inr bl1 \<Rightarrow>
                       (case add_bio_to_bl [] buf2 (log_first j) n2 of
                          Inl e \<Rightarrow> Inl e
                        | Inr bl2 \<Rightarrow> Inr (bl1, bl2)))
          else (case add_bio_to_bl [] buf start_baddr n_total of
                  Inl e \<Rightarrow> Inl e
                | Inr bl1 \<Rightarrow> Inr (bl1, [])))"

definition wrapped_baddr :: "baddr \<Rightarrow> baddr \<Rightarrow> baddr \<Rightarrow> baddr" where
  "wrapped_baddr fst_blk lst target = add64 fst_blk (sub64 (sub64 target lst) 1)"

definition wrap_dst :: "journal_log \<Rightarrow> baddr \<Rightarrow> baddr" where
  "wrap_dst j dst_baddr =
     (if check_wrap_around_journal_tx dst_baddr 1 j
      then wrapped_baddr (log_first j) (log_last j) dst_baddr else dst_baddr)"

definition add_bio_considering_wrap ::
  "journal_log \<Rightarrow> bio list \<Rightarrow> baddr \<Rightarrow> nat \<Rightarrow> ox_error + (baddr \<times> bio list)" where
  "add_bio_considering_wrap j bl dst_baddr buf =
     (let dst = wrap_dst j dst_baddr
      in case set_bvec (alloc_bio_n_bvecs dst 1) 0 buf 1 of
           Inl e \<Rightarrow> Inl e
         | Inr b \<Rightarrow> Inr (add64 dst 1, bl @ [b]))"

section \<open>The writes of a bio list\<close>

text \<open>\<open>mem a\<close> is the block of memory at address \<open>a\<close>.  A bio with one vector writes the
  blocks of its buffer one after the other.\<close>

definition bvec_writes :: "(nat \<Rightarrow> 'b) \<Rightarrow> baddr \<Rightarrow> bio_vec \<Rightarrow> (baddr \<times> 'b) list" where
  "bvec_writes mem blk v =
     map (\<lambda>i. (blk + i, mem (bv_buf v + i * OXBOW_BLOCK_SIZE))) [0..<bv_len v div OXBOW_BLOCK_SIZE]"

definition bio_writes :: "(nat \<Rightarrow> 'b) \<Rightarrow> bio \<Rightarrow> (baddr \<times> 'b) list" where
  "bio_writes mem b = (case bi_io_vec b of [] \<Rightarrow> [] | v # vs \<Rightarrow> bvec_writes mem (bi_blk_no b) v)"

definition bl_writes :: "(nat \<Rightarrow> 'b) \<Rightarrow> bio list \<Rightarrow> (baddr \<times> 'b) list" where
  "bl_writes mem bl = concat (map (bio_writes mem) bl)"

definition buf_blocks :: "(nat \<Rightarrow> 'b) \<Rightarrow> nat \<Rightarrow> nat \<Rightarrow> 'b list" where
  "buf_blocks mem buf n = map (\<lambda>i. mem (buf + i * OXBOW_BLOCK_SIZE)) [0..<n]"

text \<open>The number of bios for \<open>n\<close> blocks: a bio holds at most 8192 blocks.\<close>

definition bios_for :: "nat \<Rightarrow> nat" where
  "bios_for n = (n + 8191) div 8192"

section \<open>Lemmas on the linked list\<close>

lemma chain_nonzero: "chain h p xs \<Longrightarrow> 0 \<notin> set xs"
  by (induction xs arbitrary: p) auto

lemma chain_head: "chain h p xs \<Longrightarrow> p = (if xs = [] then 0 else hd xs)"
  by (cases xs) auto

lemma chain_unique: "chain h p xs \<Longrightarrow> chain h p ys \<Longrightarrow> xs = ys"
proof (induction xs arbitrary: p ys)
  case Nil
  then show ?case by (cases ys) auto
next
  case (Cons x xs)
  then show ?case by (cases ys) auto
qed

lemma chain_set_next_other: "p \<notin> set xs \<Longrightarrow> chain (set_next h p q) r xs = chain h r xs"
  by (induction xs arbitrary: r) (auto simp: set_next_def)

lemma chain_link:
  assumes "chain h p xs" "chain h q ys" "xs \<noteq> []" "distinct xs" "set xs \<inter> set ys = {}"
  shows "chain (set_next h (last xs) q) p (xs @ ys)"
  using assms
proof (induction xs arbitrary: p)
  case (Cons x xs)
  show ?case
  proof (cases "xs = []")
    case True
    then have "chain (set_next h x q) q ys = chain h q ys"
      using Cons.prems(5) by (intro chain_set_next_other) simp
    then show ?thesis using Cons.prems True by (simp add: set_next_def [of h x q, symmetric])
        (simp add: set_next_def)
  next
    case False
    then have "last xs \<noteq> x" using Cons.prems(4) last_in_set by fastforce
    then show ?thesis using Cons False by (auto simp: set_next_def)
  qed
qed simp

lemma bl_repr_unique: "bl_repr s xs \<Longrightarrow> bl_repr s ys \<Longrightarrow> xs = ys"
  unfolding bl_repr_def using chain_unique by blast

lemma bl_repr_init: "bl_repr (h, bio_list_init) []"
  by (simp add: bl_repr_def bio_list_init_def)

lemma bio_list_add_repr:
  assumes "bl_repr s xs" "b \<noteq> 0" "b \<notin> set xs"
  shows "bl_repr (bio_list_add s b) (xs @ [b])"
proof -
  obtain h bl where s: "s = (h, bl)" by (cases s)
  have c: "chain (set_next h b 0) (bl_head bl) xs" "distinct xs"
    "bl_tail bl = (if xs = [] then 0 else last xs)"
    using assms by (simp_all add: s bl_repr_def chain_set_next_other)
  show ?thesis
  proof (cases "xs = []")
    case True
    then show ?thesis using c assms(2) by (simp add: s bio_list_add_def bl_repr_def set_next_def)
  next
    case False
    then have "last xs \<noteq> 0" using chain_nonzero [OF c(1)] last_in_set [of xs] by metis
    moreover have "chain (set_next (set_next h b 0) (last xs) b) (bl_head bl) (xs @ [b])"
      using c False assms(2,3) by (intro chain_link) (auto simp: set_next_def)
    ultimately show ?thesis
      using c False assms(3) by (simp add: s bio_list_add_def bl_repr_def)
  qed
qed

lemma bio_list_add_head_repr:
  assumes "bl_repr s xs" "b \<noteq> 0" "b \<notin> set xs"
  shows "bl_repr (bio_list_add_head s b) (b # xs)"
proof -
  obtain h bl where s: "s = (h, bl)" by (cases s)
  have c: "chain (set_next h b (bl_head bl)) (bl_head bl) xs" "distinct xs"
    "bl_tail bl = (if xs = [] then 0 else last xs)"
    using assms by (simp_all add: s bl_repr_def chain_set_next_other)
  have "xs \<noteq> [] \<Longrightarrow> last xs \<noteq> 0" using chain_nonzero [OF c(1)] last_in_set [of xs] by metis
  then show ?thesis
    using c assms(2,3) chain_head [OF c(1)]
    by (auto simp: s bio_list_add_head_def bl_repr_def set_next_def)
qed

lemma bio_list_pop_none: "bl_repr s [] \<Longrightarrow> bio_list_pop s = None"
  by (cases s) (simp add: bl_repr_def bio_list_pop_def)

lemma bio_list_pop_some:
  assumes "bl_repr s (x # xs)"
  shows "\<exists>s'. bio_list_pop s = Some (x, s') \<and> bl_repr s' xs"
proof -
  obtain h bl where s: "s = (h, bl)" by (cases s)
  have c: "bl_head bl = x" "x \<noteq> 0" "chain h (bi_next (h x)) xs" "distinct xs" "x \<notin> set xs"
    "bl_tail bl = last (x # xs)"
    using assms by (simp_all add: s bl_repr_def)
  have "chain (set_next h x 0) (bi_next (h x)) xs"
    using c by (simp add: chain_set_next_other)
  then show ?thesis
    using c chain_head [OF c(3)] chain_nonzero [OF c(3)]
    by (cases xs) (auto simp: s bio_list_pop_def bl_repr_def Let_def)
qed

interpretation bioq: fifo_queue bl_repr bl_can_add bio_list_add bio_list_pop
proof unfold_locales
  fix s xs x
  assume "bl_repr s xs" "bl_can_add s x"
  then show "bl_repr (bio_list_add s x) (xs @ [x])"
    using bio_list_add_repr by (simp add: bl_can_add_def)
qed (rule bio_list_pop_none, assumption, rule bio_list_pop_some)

section \<open>Lemmas on the writes\<close>

declare add_bio_loop.simps [simp del]

lemma bl_writes_append [simp]: "bl_writes mem (xs @ ys) = bl_writes mem xs @ bl_writes mem ys"
  by (simp add: bl_writes_def)

lemma length_buf_blocks [simp]: "length (buf_blocks mem buf n) = n"
  by (simp add: buf_blocks_def)

lemma buf_blocks_append:
  "buf_blocks mem buf (m + n) = buf_blocks mem buf m @ buf_blocks mem (buf + m * OXBOW_BLOCK_SIZE) n"
  by (rule nth_equalityI) (auto simp: buf_blocks_def nth_append add_mult_distrib diff_mult_distrib)

lemma bios_for_0 [simp]: "bios_for 0 = 0"
  by (simp add: bios_for_def)

lemma bios_for_eq_0: "bios_for n = 0 \<longleftrightarrow> n = 0"
  by (simp add: bios_for_def div_eq_0_iff)

lemma bios_for_le_1: "n \<le> 8192 \<Longrightarrow> bios_for n \<le> 1"
  by (simp add: bios_for_def)

lemma bios_for_step: "n \<noteq> 0 \<Longrightarrow> bios_for n = Suc (bios_for (n - min n 8192))"
proof (cases "n \<le> 8192")
  case False
  then have "n + 8191 = (n - 8192 + 8191) + 8192" by simp
  then have "(n + 8191) div 8192 = (n - 8192 + 8191) div 8192 + 1"
    by (simp only: div_add_self2)
  then show ?thesis using False by (simp add: bios_for_def min_def)
qed (simp add: bios_for_def)

text \<open>The loop cuts the buffer into bios of at most \<^verbatim>\<open>BIO_MAX_BIO_SIZE\<close> bytes; together
  they write the whole buffer.\<close>

lemma add_bio_loop_writes:
  assumes "tot - cop = r * OXBOW_BLOCK_SIZE" "buf \<noteq> 0" "buf + r * OXBOW_BLOCK_SIZE < 2 ^ 64"
    "start + r < 2 ^ 64" "r < 2 ^ 32"
  shows "\<exists>bs. add_bio_loop bl buf start cop tot = Inr (bl @ bs) \<and>
    bl_writes mem bs = zip [start..<start + r] (buf_blocks mem buf r) \<and> length bs = bios_for r"
  using assms
proof (induction r arbitrary: bl buf start cop rule: less_induct)
  case (less r)
  show ?case
  proof (cases "r = 0")
    case True
    then have "\<not> cop < tot" using less.prems(1) by simp
    then show ?thesis
      using True
      by (simp add: add_bio_loop.simps [of bl buf start cop tot] bl_writes_def buf_blocks_def bios_for_def)
  next
    case False
    let ?n = "min r 8192"
    let ?b = "(alloc_bio_n_bvecs start 1)
      \<lparr>bi_io_vec := [\<lparr>bv_buf = buf, bv_len = ?n * OXBOW_BLOCK_SIZE\<rparr>], total_size := ?n * OXBOW_BLOCK_SIZE\<rparr>"
    have lt: "cop < tot" using False less.prems(1) by (simp add: OXBOW_BLOCK_SIZE_def)
    have sz: "min (tot - cop) BIO_MAX_BIO_SIZE = ?n * OXBOW_BLOCK_SIZE"
      using less.prems(1) by (simp add: BIO_MAX_BIO_SIZE_def DATA_FETCHER_BUF_SIZE_def OXBOW_BLOCK_SIZE_def min_def)
    have nb: "bytes_to_nblks (?n * OXBOW_BLOCK_SIZE) = Inr ?n" "nblks_to_bytes ?n = ?n * OXBOW_BLOCK_SIZE"
      by (simp add: u32_id min_less_iff_disj)
        (simp add: nblks_to_bytes_def u32_id mul64_id OXBOW_BLOCK_SIZE_def min_def)
    have sum: "add64 buf (?n * OXBOW_BLOCK_SIZE) = buf + ?n * OXBOW_BLOCK_SIZE" "add64 start ?n = start + ?n"
      "add64 0 (?n * OXBOW_BLOCK_SIZE) = ?n * OXBOW_BLOCK_SIZE"
      using less.prems(3-5) by (simp_all add: c_arith min_def OXBOW_BLOCK_SIZE_def)
    have step: "add_bio_loop bl buf start cop tot =
        add_bio_loop (bl @ [?b]) (buf + ?n * OXBOW_BLOCK_SIZE) (start + ?n) (cop + BIO_MAX_BIO_SIZE) tot"
      using lt less.prems(2)
      by (subst add_bio_loop.simps)
        (simp add: Let_def sz nb sum set_bvec_def alloc_bio_n_bvecs_def del: bytes_to_nblks_blocks)
    have rest: "r = ?n + (r - ?n)" by simp
    have "\<exists>bs. add_bio_loop (bl @ [?b]) (buf + ?n * OXBOW_BLOCK_SIZE) (start + ?n) (cop + BIO_MAX_BIO_SIZE) tot =
        Inr ((bl @ [?b]) @ bs) \<and> bl_writes mem bs =
          zip [start + ?n..<start + ?n + (r - ?n)] (buf_blocks mem (buf + ?n * OXBOW_BLOCK_SIZE) (r - ?n)) \<and>
        length bs = bios_for (r - ?n)"
      using False less.prems
      by (intro less.IH) (auto simp: BIO_MAX_BIO_SIZE_def DATA_FETCHER_BUF_SIZE_def OXBOW_BLOCK_SIZE_def min_def)
    then obtain bs where bs: "add_bio_loop bl buf start cop tot = Inr (bl @ ?b # bs)"
      "bl_writes mem bs = zip [start + ?n..<start + r] (buf_blocks mem (buf + ?n * OXBOW_BLOCK_SIZE) (r - ?n))"
      "length bs = bios_for (r - ?n)"
      by (auto simp: step)
    have "bio_writes mem ?b = zip [start..<start + ?n] (buf_blocks mem buf ?n)"
      by (rule nth_equalityI)
        (simp_all add: bio_writes_def bvec_writes_def buf_blocks_def alloc_bio_n_bvecs_def
          OXBOW_BLOCK_SIZE_def)
    moreover have "[start..<start + r] = [start..<start + ?n] @ [start + ?n..<start + r]"
      using upt_add_eq_append [of start "start + ?n" "r - ?n"] by simp
    moreover have "buf_blocks mem buf r = buf_blocks mem buf ?n @ buf_blocks mem (buf + ?n * OXBOW_BLOCK_SIZE) (r - ?n)"
      using buf_blocks_append [of mem buf ?n "r - ?n"] by simp
    ultimately have "bl_writes mem (?b # bs) = zip [start..<start + r] (buf_blocks mem buf r)"
      using bs(2) by (simp add: bl_writes_def)
    moreover have "length (?b # bs) = bios_for r" using bs(3) bios_for_step [OF False] by simp
    ultimately show ?thesis using bs(1) by blast
  qed
qed

lemma add_bio_to_bl_writes:
  assumes "buf \<noteq> 0" "buf + n * OXBOW_BLOCK_SIZE < 2 ^ 64" "start + n < 2 ^ 64" "n < 2 ^ 32"
  shows "\<exists>bs. add_bio_to_bl bl buf start n = Inr (bl @ bs) \<and>
    bl_writes mem bs = zip [start..<start + n] (buf_blocks mem buf n) \<and> length bs = bios_for n"
proof -
  have "nblks_to_bytes n = n * OXBOW_BLOCK_SIZE"
    using assms(4) by (simp add: nblks_to_bytes_def u32_id mul64_id OXBOW_BLOCK_SIZE_def)
  then show ?thesis
    unfolding add_bio_to_bl_def using assms by (intro add_bio_loop_writes) simp_all
qed

text \<open>The two ways of placing a buffer at a log position: the blocks go to the circular run
  that starts there.\<close>

lemma wrap_split_sizes:
  assumes inv: "log_inv j" and s: "log_first j \<le> start" "start \<le> Suc (log_last j)"
    and n: "n \<le> log_cap j" and wrap: "log_last j < start + n - 1"
  shows "u32 (add64 (sub64 (log_last j) start) 1) = Suc (log_last j) - start"
    "sub32 n (Suc (log_last j) - start) = n - (Suc (log_last j) - start)"
    "Suc (log_last j) - start < n"
proof -
  note i = log_invD [OF inv]
  have n32: "n < 2 ^ 32" "Suc (log_last j) - start < n" using n i(7) wrap s by simp_all
  then show "Suc (log_last j) - start < n" "sub32 n (Suc (log_last j) - start) = n - (Suc (log_last j) - start)"
    by (simp_all add: c_arith)
  show "u32 (add64 (sub64 (log_last j) start) 1) = Suc (log_last j) - start"
  proof (cases "start = Suc (log_last j)")
    case True
    then show ?thesis using i(2) by (simp add: sub64_wraps add64_def u32_def)
  next
    case False
    then show ?thesis using s i(2) n32 by (simp add: c_arith)
  qed
qed

lemma check_wrap_journal:
  assumes inv: "log_inv j" and s: "0 < start" "start \<le> Suc (log_last j)" and n: "n \<le> log_cap j"
  shows "check_wrap_around_journal_tx start n j \<longleftrightarrow> log_last j < start + n - 1"
proof -
  note i = log_invD [OF inv]
  have "start + n < 2 ^ 64" using i(2,7) s n by simp
  then show ?thesis
    using s(1) by (simp add: check_wrap_around_journal_tx_def check_wrap_around_def c_arith)
qed

lemma wrap_split_bios:
  assumes inv: "log_inv j" and s: "log_first j \<le> start" "start \<le> Suc (log_last j)"
    and n: "n \<le> log_cap j" and wrap: "log_last j < start + n - 1"
    and buf: "buf \<noteq> 0" "buf + n * OXBOW_BLOCK_SIZE < 2 ^ 64" and k: "k = Suc (log_last j) - start"
  shows "\<exists>b1. add_bio_to_bl bl buf start k = Inr (bl @ b1) \<and> length b1 = bios_for k \<and>
    (\<forall>bl'. \<exists>b2. add_bio_to_bl bl' (add64 buf (nblks_to_bytes k)) (log_first j) (n - k) = Inr (bl' @ b2) \<and>
       length b2 = bios_for (n - k) \<and>
       bl_writes mem b1 @ bl_writes mem b2 =
         zip (wrap_range (log_first j) (log_last j) start n) (buf_blocks mem buf n))"
proof -
  note i = log_invD [OF inv]
  have n32: "k < n" "n < 2 ^ 32" "start + k = Suc (log_last j)" "start + k < 2 ^ 64" "log_first j + (n - k) < 2 ^ 64"
    using n i(1,2,7) s wrap k by simp_all
  have le: "k * OXBOW_BLOCK_SIZE \<le> n * OXBOW_BLOCK_SIZE" using n32(1) by simp
  then have lt: "buf + k * OXBOW_BLOCK_SIZE < 2 ^ 64" using buf(2) by linarith
  have buf2: "add64 buf (nblks_to_bytes k) = buf + k * OXBOW_BLOCK_SIZE"
    using n32 lt by (simp add: nblks_to_bytes_def u32_id mul64_id add64_id OXBOW_BLOCK_SIZE_def)
  have total: "buf + k * OXBOW_BLOCK_SIZE + (n - k) * OXBOW_BLOCK_SIZE = buf + n * OXBOW_BLOCK_SIZE"
    using n32(1) le by (simp add: diff_mult_distrib)
  have b1: "\<exists>b1. add_bio_to_bl bl buf start k = Inr (bl @ b1) \<and>
      bl_writes mem b1 = zip [start..<start + k] (buf_blocks mem buf k) \<and> length b1 = bios_for k"
    using buf(1) lt n32 by (intro add_bio_to_bl_writes) simp_all
  have b2: "\<exists>b2. add_bio_to_bl bl' (buf + k * OXBOW_BLOCK_SIZE) (log_first j) (n - k) = Inr (bl' @ b2) \<and>
      bl_writes mem b2 = zip [log_first j..<log_first j + (n - k)]
        (buf_blocks mem (buf + k * OXBOW_BLOCK_SIZE) (n - k)) \<and> length b2 = bios_for (n - k)" for bl'
    using buf n32 total by (intro add_bio_to_bl_writes) simp_all
  have "zip (wrap_range (log_first j) (log_last j) start n) (buf_blocks mem buf n) =
      zip [start..<start + k] (buf_blocks mem buf k) @
      zip [log_first j..<log_first j + (n - k)] (buf_blocks mem (buf + k * OXBOW_BLOCK_SIZE) (n - k))"
    using wrap_range_wrapping [of "log_first j" "log_last j" start k n] i(1) s n n32(1,3) buf_blocks_append [of mem buf k "n - k"]
    by (simp add: log_cap_def k del: upt_Suc)
  then show ?thesis using b1 b2 n32(1) unfolding buf2 by fastforce
qed

lemma add_bios_considering_wrap_writes:
  assumes inv: "log_inv j" and s: "0 < log_first j" "log_first j \<le> start" "start \<le> Suc (log_last j)"
    and n: "n \<le> log_cap j" and buf: "buf \<noteq> 0" "buf + n * OXBOW_BLOCK_SIZE < 2 ^ 64"
  shows "\<exists>bs nxt. add_bios_considering_wrap j bl start buf (n * OXBOW_BLOCK_SIZE) = Inr (nxt, bl @ bs) \<and>
    bl_writes mem bs = zip (wrap_range (log_first j) (log_last j) start n) (buf_blocks mem buf n) \<and>
    log_first j \<le> nxt \<and> nxt \<le> Suc (log_last j) \<and>
    (\<forall>i. wrap_at (log_first j) (log_last j) nxt i = wrap_at (log_first j) (log_last j) start (n + i))"
proof -
  note i = log_invD [OF inv]
  have n32: "n < 2 ^ 32" "start + n < 2 ^ 64" using n i(2,7) s by simp_all
  have cw: "check_wrap_around_journal_tx start n j \<longleftrightarrow> log_last j < start + n - 1"
    using check_wrap_journal [OF inv _ s(3) n] s by simp
  show ?thesis
  proof (cases "log_last j < start + n - 1")
    case False
    then have straight: "start + n \<le> Suc (log_last j)" using s by linarith
    obtain bs where bs: "add_bio_to_bl bl buf start n = Inr (bl @ bs)"
      "bl_writes mem bs = zip [start..<start + n] (buf_blocks mem buf n)"
      using add_bio_to_bl_writes [OF buf n32(2,1)] by blast
    have "\<forall>i. wrap_at (log_first j) (log_last j) (start + n) i = wrap_at (log_first j) (log_last j) start (n + i)"
      using s(2) by (simp add: wrap_at_def add.assoc)
    then show ?thesis
      using bs False cw straight s n32 wrap_range_straight [of "log_first j" start n "log_last j"]
      by (simp add: add_bios_considering_wrap_def u32_id add64_id)
  next
    case True
    let ?k = "Suc (log_last j) - start"
    note sz = wrap_split_sizes [OF inv s(2,3) n True]
    obtain b1 b2 where b: "add_bio_to_bl bl buf start ?k = Inr (bl @ b1)"
      "add_bio_to_bl (bl @ b1) (add64 buf (nblks_to_bytes ?k)) (log_first j) (n - ?k) = Inr ((bl @ b1) @ b2)"
      "bl_writes mem b1 @ bl_writes mem b2 =
         zip (wrap_range (log_first j) (log_last j) start n) (buf_blocks mem buf n)"
      using wrap_split_bios [OF inv s(2,3) n True buf refl] by metis
    have eq: "start - log_first j + n = (n - ?k) + log_cap j" "log_first j + (n - ?k) \<le> Suc (log_last j)"
      using sz(3) s i(1) n by (simp_all add: log_cap_def area_size_def)
    have "wrap_at (log_first j) (log_last j) (log_first j + (n - ?k)) i =
        wrap_at (log_first j) (log_last j) start (n + i)" for i
    proof -
      have "start - log_first j + (n + i) = (n - ?k + i) + log_cap j" using eq(1) by simp
      then have "(start - log_first j + (n + i)) mod log_cap j = (n - ?k + i) mod log_cap j"
        by (simp only: mod_add_self2)
      then show ?thesis by (simp add: wrap_at_def log_cap_def)
    qed
    moreover have "add64 (log_first j) (n - ?k) = log_first j + (n - ?k)"
      using eq(2) i(2) by (simp add: add64_id)
    ultimately show ?thesis
      using b True cw n32 eq(2) by (simp add: add_bios_considering_wrap_def u32_id sz(1) [simplified] sz(2) Let_def)
  qed
qed

lemma add_bios_separate_writes:
  assumes inv: "log_inv j" and s: "0 < log_first j" "log_first j \<le> start" "start \<le> Suc (log_last j)"
    and n: "n \<le> log_cap j" and buf: "buf \<noteq> 0" "buf + n * OXBOW_BLOCK_SIZE < 2 ^ 64"
  shows "\<exists>b1 b2. add_bios_considering_wrap_into_separate_bls j start buf (n * OXBOW_BLOCK_SIZE) = Inr (b1, b2) \<and>
    bl_writes mem b1 @ bl_writes mem b2 =
      zip (wrap_range (log_first j) (log_last j) start n) (buf_blocks mem buf n) \<and>
    (b1 = [] \<longleftrightarrow> n = 0 \<or> start = Suc (log_last j)) \<and>
    (n \<le> 8192 \<longrightarrow> length b1 \<le> 1 \<and> length b2 \<le> 1)"
proof -
  note i = log_invD [OF inv]
  have n32: "n < 2 ^ 32" "start + n < 2 ^ 64" using n i(2,7) s by simp_all
  have cw: "check_wrap_around_journal_tx start n j \<longleftrightarrow> log_last j < start + n - 1"
    using check_wrap_journal [OF inv _ s(3) n] s by simp
  show ?thesis
  proof (cases "log_last j < start + n - 1")
    case False
    then have straight: "start + n \<le> Suc (log_last j)" using s by linarith
    obtain bs where bs: "add_bio_to_bl [] buf start n = Inr ([] @ bs)"
      "bl_writes mem bs = zip [start..<start + n] (buf_blocks mem buf n)" "length bs = bios_for n"
      using add_bio_to_bl_writes [OF buf n32(2,1), of "[]" mem] by blast
    moreover have "bl_writes mem [] = []" by (simp add: bl_writes_def)
    moreover have "n = 0 \<or> start \<noteq> Suc (log_last j)" using straight by linarith
    moreover have "bs = [] \<longleftrightarrow> n = 0" using bs(3) bios_for_eq_0 [of n] by auto
    moreover have "n \<le> 8192 \<longrightarrow> length bs \<le> 1" using bs(3) bios_for_le_1 by simp
    ultimately show ?thesis
      using False cw n32 s(2) straight wrap_range_straight [of "log_first j" start n "log_last j"]
      by (auto simp: add_bios_considering_wrap_into_separate_bls_def u32_id)
  next
    case True
    let ?k = "Suc (log_last j) - start"
    note sz = wrap_split_sizes [OF inv s(2,3) n True]
    obtain b1 b2 where b: "add_bio_to_bl [] buf start ?k = Inr ([] @ b1)" "length b1 = bios_for ?k" "length b2 = bios_for (n - ?k)"
      "add_bio_to_bl [] (add64 buf (nblks_to_bytes ?k)) (log_first j) (n - ?k) = Inr ([] @ b2)"
      "bl_writes mem b1 @ bl_writes mem b2 =
         zip (wrap_range (log_first j) (log_last j) start n) (buf_blocks mem buf n)"
      using wrap_split_bios [OF inv s(2,3) n True buf refl, of "[]" mem] by metis
    have "?k = 0 \<longleftrightarrow> n = 0 \<or> start = Suc (log_last j)" using s(3) sz(3) by linarith
    then have "b1 = [] \<longleftrightarrow> n = 0 \<or> start = Suc (log_last j)"
      using b(2) bios_for_eq_0 [of ?k] by auto
    moreover have "n \<le> 8192 \<longrightarrow> length b1 \<le> 1 \<and> length b2 \<le> 1"
      using b(2,3) bios_for_le_1 [of ?k] bios_for_le_1 [of "n - ?k"] sz(3) by simp
    ultimately show ?thesis
      using b True cw n32 by (simp add: add_bios_considering_wrap_into_separate_bls_def u32_id sz(1) [simplified] sz(2) Let_def)
  qed
qed

lemma wrap_dst_eq:
  assumes inv: "log_inv j" and s: "0 < log_first j" "log_first j \<le> start" "start \<le> Suc (log_last j)"
  shows "wrap_dst j start = wrap_at (log_first j) (log_last j) start 0"
proof -
  note i = log_invD [OF inv]
  have cap: "1 \<le> log_cap j" using i(1) by (simp add: log_cap_def area_size_def)
  have cw: "check_wrap_around_journal_tx start 1 j \<longleftrightarrow> log_last j < start"
    using check_wrap_journal [OF inv _ s(3) cap] s(1,2) by simp
  show ?thesis
  proof (cases "start = Suc (log_last j)")
    case True
    then have "sub64 (sub64 start (log_last j)) 1 = 0"
      using i(2) by (simp add: c_arith)
    then show ?thesis
      using True cw i(1,2) by (simp add: wrap_dst_def wrapped_baddr_def wrap_at_def area_size_def add64_id)
  next
    case False
    then have "start \<le> log_last j" using s(3) by simp
    then show ?thesis using cw s(2) by (simp add: wrap_dst_def wrap_at_no_wrap)
  qed
qed

end
