(* ===== verification/Ox_Sjd.thy ===== *)
theory Ox_Sjd
  imports Ox_Prelude
begin

text \<open>
  The on-disk formats of \<^verbatim>\<open>devfs/include/common/sjd.h\<close>.  A block is its
  bytes by offset; the structures the code casts a block to are views of these
  bytes, with little-endian fields at the offsets of the packed C structures.
  \<open>get_le\<close> and \<open>put_le\<close> read and write a field of \<open>n\<close> bytes.
\<close>

type_synonym block = "nat \<Rightarrow> 8 word"

fun get_le :: "nat \<Rightarrow> nat \<Rightarrow> block \<Rightarrow> nat" where
  "get_le 0 off b = 0"
| "get_le (Suc n) off b = unat (b off) + 256 * get_le n (Suc off) b"

definition put_le :: "nat \<Rightarrow> nat \<Rightarrow> nat \<Rightarrow> block \<Rightarrow> block" where
  "put_le n off v b = (\<lambda>i. if off \<le> i \<and> i < off + n then word_of_nat (v div 256 ^ (i - off)) else b i)"

text \<open>\<^verbatim>\<open>memcpy\<close> of \<open>n\<close> bytes within blocks.\<close>

definition copy_bytes :: "nat \<Rightarrow> nat \<Rightarrow> block \<Rightarrow> nat \<Rightarrow> block \<Rightarrow> block" where
  "copy_bytes n dst_off dst src_off src =
     (\<lambda>i. if dst_off \<le> i \<and> i < dst_off + n then src (src_off + (i - dst_off)) else dst i)"

section \<open>Block types\<close>

definition SUPER_BLK :: nat where "SUPER_BLK = 1"
definition DESC_BLK :: nat where "DESC_BLK = 2"
definition COMMIT_BLK :: nat where "COMMIT_BLK = 3"
definition ETAG_BLK :: nat where "ETAG_BLK = 4"
definition STAGE_TRACE_BLK :: nat where "STAGE_TRACE_BLK = 5"
definition STAGE_DESC_BLK :: nat where "STAGE_DESC_BLK = 6"

lemmas block_type_defs = SUPER_BLK_def DESC_BLK_def COMMIT_BLK_def ETAG_BLK_def
  STAGE_TRACE_BLK_def STAGE_DESC_BLK_def

section \<open>Extent tags\<close>

type_synonym etag = "nat \<times> nat"   \<comment> \<open>start block and number of blocks\<close>

definition sizeof_etag :: nat where "sizeof_etag = 12"

definition get_etag :: "nat \<Rightarrow> nat \<Rightarrow> block \<Rightarrow> etag" where
  "get_etag base i b =
     (get_le 8 (base + sizeof_etag * i) b, get_le 4 (base + sizeof_etag * i + 8) b)"

definition put_etag :: "nat \<Rightarrow> nat \<Rightarrow> etag \<Rightarrow> block \<Rightarrow> block" where
  "put_etag base i t b =
     put_le 4 (base + sizeof_etag * i + 8) (snd t) (put_le 8 (base + sizeof_etag * i) (fst t) b)"

definition get_etags :: "nat \<Rightarrow> nat \<Rightarrow> block \<Rightarrow> etag list" where
  "get_etags base n b = map (\<lambda>i. get_etag base i b) [0..<n]"

section \<open>Journal descriptor block\<close>

abbreviation jdb_blocktype :: "block \<Rightarrow> nat" where "jdb_blocktype \<equiv> get_le 4 0"
abbreviation jdb_transaction_id :: "block \<Rightarrow> nat" where "jdb_transaction_id \<equiv> get_le 4 4"
abbreviation jdb_nr_etag_blks :: "block \<Rightarrow> nat" where "jdb_nr_etag_blks \<equiv> get_le 4 8"
abbreviation jdb_nr_stage_trace_blks :: "block \<Rightarrow> nat" where "jdb_nr_stage_trace_blks \<equiv> get_le 4 12"
abbreviation jdb_nr_tags :: "block \<Rightarrow> nat" where "jdb_nr_tags \<equiv> get_le 4 16"
abbreviation jdb_meta_start_baddr :: "block \<Rightarrow> nat" where "jdb_meta_start_baddr \<equiv> get_le 4 20"

definition sizeof_journal_descriptor_header :: nat where
  "sizeof_journal_descriptor_header = 24"

definition JOURNAL_DESC_TAG_MAX :: nat where
  "JOURNAL_DESC_TAG_MAX = (4096 - sizeof_journal_descriptor_header) div sizeof_etag"

definition jdb_tags :: "block \<Rightarrow> etag list" where
  "jdb_tags b = get_etags sizeof_journal_descriptor_header (jdb_nr_tags b) b"

section \<open>Extent tag and stage trace blocks\<close>

abbreviation jmh_blocktype :: "block \<Rightarrow> nat" where "jmh_blocktype \<equiv> get_le 4 0"
abbreviation jmh_nr :: "block \<Rightarrow> nat" where "jmh_nr \<equiv> get_le 4 4"

definition sizeof_journal_meta_header :: nat where
  "sizeof_journal_meta_header = 8"

definition JOURNAL_ETAG_MAX :: nat where
  "JOURNAL_ETAG_MAX = (4096 - sizeof_journal_meta_header) div sizeof_etag"

definition JOURNAL_TRACE_MAX :: nat where
  "JOURNAL_TRACE_MAX = (4096 - sizeof_journal_meta_header) div 8"

definition jetb_tags :: "block \<Rightarrow> etag list" where
  "jetb_tags b = get_etags sizeof_journal_meta_header (jmh_nr b) b"

definition stb_tx :: "nat \<Rightarrow> block \<Rightarrow> nat" where
  "stb_tx i b = get_le 8 (sizeof_journal_meta_header + 8 * i) b"

definition stb_tx_list :: "block \<Rightarrow> nat list" where
  "stb_tx_list b = map (\<lambda>i. stb_tx i b) [0..<jmh_nr b]"

section \<open>Stage descriptor block\<close>

definition INODE_MAX_SIZE :: nat where "INODE_MAX_SIZE = 256"

abbreviation sdb_blocktype :: "block \<Rightarrow> nat" where "sdb_blocktype \<equiv> get_le 4 256"
abbreviation sdb_ino :: "block \<Rightarrow> nat" where "sdb_ino \<equiv> get_le 8 260"
abbreviation sdb_mrc_tx_id :: "block \<Rightarrow> nat" where "sdb_mrc_tx_id \<equiv> get_le 4 268"
abbreviation sdb_nr_etag_blks :: "block \<Rightarrow> nat" where "sdb_nr_etag_blks \<equiv> get_le 4 272"
abbreviation sdb_nr_tags :: "block \<Rightarrow> nat" where "sdb_nr_tags \<equiv> get_le 4 276"
abbreviation sdb_next_etag_blk :: "block \<Rightarrow> nat" where "sdb_next_etag_blk \<equiv> get_le 4 280"
abbreviation sdb_inode_baddr :: "block \<Rightarrow> nat" where "sdb_inode_baddr \<equiv> get_le 8 284"
abbreviation sdb_inode_index :: "block \<Rightarrow> nat" where "sdb_inode_index \<equiv> get_le 4 292"
abbreviation sdb_inode_size :: "block \<Rightarrow> nat" where "sdb_inode_size \<equiv> get_le 4 296"

definition sizeof_journal_stage_header :: nat where
  "sizeof_journal_stage_header = 300"

definition STAGE_DESC_BLK_TAG_MAX :: nat where
  "STAGE_DESC_BLK_TAG_MAX = (4096 - sizeof_journal_stage_header) div sizeof_etag"

definition sdb_tags :: "block \<Rightarrow> etag list" where
  "sdb_tags b = get_etags sizeof_journal_stage_header (sdb_nr_tags b) b"

section \<open>Journal superblock and commit header\<close>

abbreviation jsb_magic :: "block \<Rightarrow> nat" where "jsb_magic \<equiv> get_le 4 0"
abbreviation jsb_first :: "block \<Rightarrow> nat" where "jsb_first \<equiv> get_le 8 16"
abbreviation jsb_maxlen :: "block \<Rightarrow> nat" where "jsb_maxlen \<equiv> get_le 8 24"
abbreviation jsb_tx_id :: "block \<Rightarrow> nat" where "jsb_tx_id \<equiv> get_le 4 32"
abbreviation jsb_start :: "block \<Rightarrow> nat" where "jsb_start \<equiv> get_le 8 40"

definition set_jsb_tx_id :: "nat \<Rightarrow> block \<Rightarrow> block" where "set_jsb_tx_id v = put_le 4 32 v"
definition set_jsb_start :: "nat \<Rightarrow> block \<Rightarrow> block" where "set_jsb_start v = put_le 8 40 v"

text \<open>The commit header is written in place over the bytes \<open>stk\<close> that follow it in memory.\<close>

definition commit_header :: "nat \<Rightarrow> nat \<Rightarrow> nat \<Rightarrow> nat \<Rightarrow> block \<Rightarrow> block" where
  "commit_header magic txid sec nsec stk =
     put_le 4 24 nsec (put_le 8 16 sec (put_le 4 8 txid (put_le 4 4 COMMIT_BLK (put_le 4 0 magic stk))))"

section \<open>Block tests\<close>

definition is_jnr_desc_blk :: "block \<Rightarrow> bool" where
  "is_jnr_desc_blk b = (jdb_blocktype b = DESC_BLK)"

definition is_stage_trace_blk :: "block \<Rightarrow> bool" where
  "is_stage_trace_blk b = (jmh_blocktype b = STAGE_TRACE_BLK)"

definition is_etag_blk :: "block \<Rightarrow> bool" where
  "is_etag_blk b = (jmh_blocktype b = ETAG_BLK)"

section \<open>Lemmas\<close>

lemma get_le_less: "get_le n off b < 256 ^ n"
proof (induction n arbitrary: off)
  case (Suc n)
  have "unat (b off) < 256" using unsigned_less [of "b off"] by simp
  moreover have "get_le n (Suc off) b + 1 \<le> 256 ^ n" using Suc [of "Suc off"] by simp
  then have "256 * (get_le n (Suc off) b + 1) \<le> 256 * 256 ^ n" by simp
  ultimately show ?case by simp
qed simp

lemma get_le_cong:
  "(\<And>i. off \<le> i \<Longrightarrow> i < off + n \<Longrightarrow> b i = c i) \<Longrightarrow> get_le n off b = get_le n off c"
  by (induction n arbitrary: off) auto

lemma get_le_put_le_other [simp]:
  "off + n \<le> off' \<or> off' + m \<le> off \<Longrightarrow> get_le n off (put_le m off' v b) = get_le n off b"
  by (rule get_le_cong) (auto simp: put_le_def)

lemma get_le_copy_bytes_other:
  "off + n \<le> off' \<or> off' + m \<le> off \<Longrightarrow>
   get_le n off (copy_bytes m off' b so src) = get_le n off b"
  by (rule get_le_cong) (auto simp: copy_bytes_def)

lemma get_le_put_le_shift:
  "get_le n (Suc off) (put_le (Suc n) off v b) = get_le n (Suc off) (put_le n (Suc off) (v div 256) b)"
proof (rule get_le_cong)
  fix i assume "Suc off \<le> i" "i < Suc off + n"
  then have "i - off = Suc (i - Suc off)" by simp
  then show "put_le (Suc n) off v b i = put_le n (Suc off) (v div 256) b i"
    using \<open>Suc off \<le> i\<close> by (simp add: put_le_def div_mult2_eq)
qed

lemma get_le_put_le_same [simp]: "get_le n off (put_le n off v b) = v mod 256 ^ n"
proof (induction n arbitrary: off v b)
  case (Suc n)
  have "get_le (Suc n) off (put_le (Suc n) off v b) = v mod 256 + 256 * (v div 256 mod 256 ^ n)"
    using Suc by (simp add: get_le_put_le_shift) (simp add: put_le_def unat_of_nat)
  also have "\<dots> = v mod 256 ^ Suc n" by (simp add: mod_mult2_eq)
  finally show ?case .
qed simp

lemma get_etag_put_etag_same:
  "get_etag base i (put_etag base i (s, c) b) = (s mod 2 ^ 64, c mod 2 ^ 32)"
  by (simp add: get_etag_def put_etag_def sizeof_etag_def)

lemma get_etag_put_etag_other:
  assumes "i \<noteq> j"
  shows "get_etag base i (put_etag base j t b) = get_etag base i b"
proof -
  have "i + 1 \<le> j \<or> j + 1 \<le> i" using assms by auto
  then show ?thesis by (auto simp: get_etag_def put_etag_def sizeof_etag_def)
qed

end
