(* ===== verification/Ox_Commit.thy ===== *)
theory Ox_Commit
  imports Ox_Bio Ox_Sjd
begin

text \<open>
  Committing a background transaction on the device server
  (\<^verbatim>\<open>persist_data\<close> and \<^verbatim>\<open>persist_meta_and_commit\<close> of
  \<^verbatim>\<open>devfs/src/journal.c\<close>), with the list of transactions that wait for
  their checkpoint.  \<open>commit_prepare\<close> is the part up to the wait for the
  transaction's turn, \<open>commit_finish\<close> the part under \<^verbatim>\<open>g_tx_seqn_mutex\<close>:
  between the two, other transactions can take their steps.
\<close>

section \<open>State\<close>

record fetch_ctx =
  req_cnt :: nat
  desc_blk_baddr :: baddr
  total_log_size :: nat

record tx_meta =
  tm_tx_id :: nat
  tm_desc_blk :: block
  tm_meta :: "block list"

record ckpt_list_entry =
  ce_df :: nat
  ce_start :: baddr
  ce_size :: nat
  ce_tx :: tx_meta
  ce_ready :: bool

record jstate =
  js_sb :: block
  js_log :: "nat \<Rightarrow> journal_log"
  js_fetch :: "nat \<Rightarrow> fetch_ctx"
  js_seqn :: nat
  js_ckpt :: "ckpt_list_entry list"
  js_disk :: "block disk"

text \<open>What a commit carries from its first part to its second.\<close>

record pending_commit =
  pc_df :: nat
  pc_txid :: nat
  pc_tail :: baddr
  pc_commit_baddr :: baddr
  pc_entry :: ckpt_list_entry

section \<open>Fetch context\<close>

definition reset_fetch_ctx :: "fetch_ctx \<Rightarrow> fetch_ctx" where
  "reset_fetch_ctx c = c\<lparr>req_cnt := 0, desc_blk_baddr := 0, total_log_size := 0\<rparr>"

definition reset_jnr_ctx :: "jstate \<Rightarrow> jstate" where
  "reset_jnr_ctx s = s\<lparr>js_seqn := 0, js_fetch := (\<lambda>i. if i < 2 then reset_fetch_ctx (js_fetch s i) else js_fetch s i)\<rparr>"

definition get_fetch_size :: "nat \<Rightarrow> nat \<Rightarrow> nat \<Rightarrow> nat" where
  "get_fetch_size df_buf_id n_bufs sz =
     (if df_buf_id + 1 = n_bufs then sz mod DATA_FETCHER_BUF_SIZE else DATA_FETCHER_BUF_SIZE)"

section \<open>Data\<close>

text \<open>The return value and the new state.  The I/O dispatch accepts one bio per list
  (the RDMA buffer is used in place); an empty first list dispatches nothing.\<close>

definition persist_data ::
  "(nat \<Rightarrow> block) \<Rightarrow> jstate \<Rightarrow> nat \<Rightarrow> nat \<Rightarrow> nat \<Rightarrow> nat \<Rightarrow> ox_error + jstate" where
  "persist_data mem s df req_id rdma_buf sz =
     (let j = js_log s df;
          f = js_fetch s df;
          chunk_start = get_chunck_start j req_id;
          data_start = (if req_id = 0 then add64 chunk_start 1 else chunk_start);
          f1 = (if req_id = 0 then f\<lparr>desc_blk_baddr := chunk_start\<rparr> else f)
      in if sz = 0 \<or> rdma_buf = 0 then Inl Assertion
         else if req_id = 0 \<and> desc_blk_baddr f \<noteq> 0 then Inl Assertion
         else case add_bios_considering_wrap_into_separate_bls j data_start rdma_buf sz of
                Inl e \<Rightarrow> Inl e
              | Inr (bl_first, bl_second) \<Rightarrow>
                  if bl_first = [] then Inr (s\<lparr>js_fetch := (js_fetch s)(df := f1)\<rparr>)
                  else if length bl_first > 1 \<or> length bl_second > 1 then Inl Assertion
                  else Inr (s\<lparr>js_disk := write_list (bl_writes mem bl_first @ bl_writes mem bl_second) (js_disk s),
                              js_fetch := (js_fetch s)(df :=
                                f1\<lparr>total_log_size := add64 (total_log_size f1) sz,
                                   req_cnt := add32 (req_cnt f1) 1\<rparr>)\<rparr>))"

section \<open>Checkpoint list\<close>

definition ckpt_list_enqueue :: "ckpt_list_entry list \<Rightarrow> ckpt_list_entry \<Rightarrow> ckpt_list_entry list" where
  "ckpt_list_enqueue q ce = q @ [ce]"

definition ckpt_list_dequeue ::
  "ckpt_list_entry list \<Rightarrow> (ckpt_list_entry \<times> ckpt_list_entry list) option" where
  "ckpt_list_dequeue q =
     (case q of [] \<Rightarrow> None | ce # rest \<Rightarrow> if ce_ready ce then Some (ce, rest) else None)"

text \<open>\<^verbatim>\<open>prepare_ckpt\<close> marks the entry of a transaction ready; it stops at an assertion when
  the log is nearly full.\<close>

definition CKPT_THRESHOLD_FREE_TRIGGER :: nat where
  "CKPT_THRESHOLD_FREE_TRIGGER = 2"

definition prepare_ckpt :: "jstate \<Rightarrow> nat \<Rightarrow> ox_error + jstate" where
  "prepare_ckpt s i =
     (if i < length (js_ckpt s) then
        (let ce = js_ckpt s ! i
         in if journal_free_percent (js_log s (ce_df ce)) < CKPT_THRESHOLD_FREE_TRIGGER
            then Inl Assertion
            else Inr (s\<lparr>js_ckpt := (js_ckpt s)[i := ce\<lparr>ce_ready := True\<rparr>]\<rparr>))
      else Inl Invalid_arg)"

definition copy_desc_and_meta_to_tx_meta :: "(nat \<Rightarrow> block) \<Rightarrow> nat \<Rightarrow> block \<Rightarrow> tx_meta" where
  "copy_desc_and_meta_to_tx_meta mem rdma_buf jdb =
     \<lparr>tm_tx_id = jdb_transaction_id jdb, tm_desc_blk = jdb,
      tm_meta = buf_blocks mem (rdma_buf + OXBOW_BLOCK_SIZE)
                  (add32 (jdb_nr_etag_blks jdb) (jdb_nr_stage_trace_blks jdb))\<rparr>"

section \<open>Commit\<close>

text \<open>Space for the descriptor block and the data: taken now, or (when data were fetched)
  accounted for after all data requests are done.\<close>

definition commit_account_data ::
  "jstate \<Rightarrow> nat \<Rightarrow> nat \<Rightarrow> nat \<Rightarrow> ox_error + jstate" where
  "commit_account_data s df total_data_size n_fetch_reqs =
     (let j = js_log s df; f = js_fetch s df
      in if n_fetch_reqs = 0
         then (if total_data_size \<noteq> 0 then Inl Assertion
               else case alloc_journal_space j OXBOW_BLOCK_SIZE of
                      Inl e \<Rightarrow> Inl e
                    | Inr (start, j') \<Rightarrow>
                        if req_cnt f \<noteq> 0 \<or> desc_blk_baddr f \<noteq> 0 \<or> total_log_size f \<noteq> 0 then Inl Assertion
                        else Inr (s\<lparr>js_log := (js_log s)(df := j'),
                                    js_fetch := (js_fetch s)(df := f\<lparr>desc_blk_baddr := start\<rparr>)\<rparr>))
         else (if req_cnt f \<noteq> n_fetch_reqs then Inl Blocked
               else if total_data_size \<noteq> total_log_size f then Inl Assertion
               else Inr (s\<lparr>js_log := (js_log s)(df :=
                             update_log_state j (add64 (total_data_size div OXBOW_BLOCK_SIZE) 1))\<rparr>)))"

definition commit_prepare ::
  "(nat \<Rightarrow> block) \<Rightarrow> jstate \<Rightarrow> nat \<Rightarrow> nat \<Rightarrow> nat \<Rightarrow> nat \<Rightarrow> nat \<Rightarrow> ox_error + (jstate \<times> pending_commit)" where
  "commit_prepare mem s df rdma_buf md_size total_data_size n_fetch_reqs =
     (if md_size = 0 \<or> rdma_buf = 0 then Inl Assertion
      else case commit_account_data s df total_data_size n_fetch_reqs of
        Inl e \<Rightarrow> Inl e
      | Inr s1 \<Rightarrow>
          (let jnl_md_size = sub64 md_size OXBOW_BLOCK_SIZE;
               jnl_meta_alloc_size = add64 jnl_md_size (OXBOW_BLOCK_SIZE * 2)
           in case alloc_journal_space (js_log s1 df) jnl_meta_alloc_size of
                Inl e \<Rightarrow> Inl e
              | Inr (start_baddr, j) \<Rightarrow>
                  (case add_bios_considering_wrap j [] start_baddr (add64 rdma_buf OXBOW_BLOCK_SIZE) jnl_md_size of
                     Inl e \<Rightarrow> Inl e
                   | Inr (sb_baddr, meta_bl) \<Rightarrow>
                       (let sb_buf = set_jsb_start (log_tail j) (js_sb s1);
                            jdb = put_le 4 20 start_baddr (mem rdma_buf);
                            desc_baddr = desc_blk_baddr (js_fetch s1 df);
                            sb_dst = wrap_dst j sb_baddr;
                            disk = write_list (bl_writes mem meta_bl @
                                     [(sb_dst, sb_buf), (wrap_dst j desc_baddr, jdb)]) (js_disk s1);
                            ce = \<lparr>ce_df = df, ce_start = desc_baddr,
                                  ce_size = add64 (add64 total_data_size jnl_meta_alloc_size) (nblks_to_bytes 1),
                                  ce_tx = copy_desc_and_meta_to_tx_meta mem rdma_buf jdb, ce_ready = False\<rparr>
                        in Inr (s1\<lparr>js_log := (js_log s1)(df := j), js_disk := disk\<rparr>,
                                \<lparr>pc_df = df, pc_txid = jdb_transaction_id jdb, pc_tail = log_tail j,
                                 pc_commit_baddr = wrap_dst j (add64 sb_dst 1), pc_entry = ce\<rparr>)))))"

text \<open>Under the sequence mutex: the transaction waits for its turn, writes its commit block,
  and joins the checkpoint list.  \<open>stk\<close> are the bytes after the commit header in memory.\<close>

definition commit_finish :: "block \<Rightarrow> nat \<Rightarrow> nat \<Rightarrow> jstate \<Rightarrow> pending_commit \<Rightarrow> ox_error + jstate" where
  "commit_finish stk sec nsec s p =
     (if js_seqn s \<noteq> 0 \<and> pc_txid p \<noteq> add32 (js_seqn s) 1 then Inl Blocked
      else let ch = commit_header (jsb_magic (js_sb s)) (pc_txid p) sec nsec stk;
               sb = set_jsb_start (pc_tail p) (js_sb s);
               sb1 = (if jsb_tx_id sb = 0 then set_jsb_tx_id (pc_txid p) sb else sb)
           in Inr (s\<lparr>js_disk := (js_disk s)(pc_commit_baddr p := ch),
                     js_sb := sb1,
                     js_fetch := (js_fetch s)(pc_df p := reset_fetch_ctx (js_fetch s (pc_df p))),
                     js_ckpt := ckpt_list_enqueue (js_ckpt s) (pc_entry p),
                     js_seqn := pc_txid p\<rparr>))"

definition persist_meta_and_commit ::
  "(nat \<Rightarrow> block) \<Rightarrow> block \<Rightarrow> nat \<Rightarrow> nat \<Rightarrow> jstate \<Rightarrow> nat \<Rightarrow> nat \<Rightarrow> nat \<Rightarrow> nat \<Rightarrow> nat \<Rightarrow> ox_error + jstate" where
  "persist_meta_and_commit mem stk sec nsec s df rdma_buf md_size total_data_size n_fetch_reqs =
     (case commit_prepare mem s df rdma_buf md_size total_data_size n_fetch_reqs of
        Inl e \<Rightarrow> Inl e
      | Inr (s1, p) \<Rightarrow> commit_finish stk sec nsec s1 p)"

section \<open>Interleaved commits\<close>

text \<open>Commits of different transactions interleave: data requests, first parts, and second
  parts in any order the code allows; the checkpoint takes ready entries from the front, and a
  daemon that reconnects resets the context at any moment.  \<open>old\<close> is an auxiliary number no step
  depends on: how many entries of the checkpoint list were committed before the last reset.\<close>

type_synonym jconfig = "jstate \<times> pending_commit list \<times> nat"

inductive jstep :: "(nat \<Rightarrow> block) \<Rightarrow> jconfig \<Rightarrow> jconfig \<Rightarrow> bool" for mem where
  data: "persist_data mem s df req_id buf sz = Inr s' \<Longrightarrow> jstep mem (s, ps, old) (s', ps, old)"
| prepare: "commit_prepare mem s df buf md_size data_size reqs = Inr (s', p) \<Longrightarrow>
    jstep mem (s, ps, old) (s', ps @ [p], old)"
| finish: "p \<in> set ps \<Longrightarrow> commit_finish stk sec nsec s p = Inr s' \<Longrightarrow>
    jstep mem (s, ps, old) (s', remove1 p ps, old)"
| ready: "prepare_ckpt s i = Inr s' \<Longrightarrow> jstep mem (s, ps, old) (s', ps, old)"
| ckpt: "ckpt_list_dequeue (js_ckpt s) = Some (ce, rest) \<Longrightarrow>
    jstep mem (s, ps, old) (s\<lparr>js_ckpt := rest\<rparr>, ps, old - 1)"
| reset: "jstep mem (s, ps, old) (reset_jnr_ctx s, ps, length (js_ckpt s))"

section \<open>Specification\<close>

text \<open>The transaction ids of a list follow each other; after the wrap of the 32-bit id to 0 any
  id can follow.\<close>

fun ids_consecutive :: "nat list \<Rightarrow> bool" where
  "ids_consecutive [] = True"
| "ids_consecutive [x] = True"
| "ids_consecutive (x # y # zs) = ((x = 0 \<or> y = add32 x 1) \<and> ids_consecutive (y # zs))"

definition ckpt_ids :: "jstate \<Rightarrow> nat list" where
  "ckpt_ids s = map (\<lambda>ce. tm_tx_id (ce_tx ce)) (js_ckpt s)"

text \<open>The ids of the transactions in the checkpoint list that were committed since the last
  reset.\<close>

definition new_ids :: "nat \<Rightarrow> jstate \<Rightarrow> nat list" where
  "new_ids old s = drop old (ckpt_ids s)"

definition seqn_inv :: "jconfig \<Rightarrow> bool" where
  "seqn_inv sp = (case sp of (s, ps, old) \<Rightarrow>
     old \<le> length (js_ckpt s) \<and> ids_consecutive (new_ids old s) \<and>
     (new_ids old s \<noteq> [] \<longrightarrow> last (new_ids old s) = js_seqn s) \<and>
     (\<forall>p\<in>set ps. tm_tx_id (ce_tx (pc_entry p)) = pc_txid p))"

section \<open>Lemmas: commit order\<close>

lemma ids_consecutive_append:
  "ids_consecutive xs \<Longrightarrow> xs = [] \<or> last xs = 0 \<or> y = add32 (last xs) 1 \<Longrightarrow> ids_consecutive (xs @ [y])"
  by (induction xs rule: ids_consecutive.induct) auto

lemma ids_consecutive_tl: "ids_consecutive (x # xs) \<Longrightarrow> ids_consecutive xs"
  by (cases xs) auto

lemma commit_prepare_entry:
  assumes "commit_prepare mem s df buf md ds reqs = Inr (s', p)"
  shows "js_ckpt s' = js_ckpt s" "js_seqn s' = js_seqn s" "tm_tx_id (ce_tx (pc_entry p)) = pc_txid p"
  using assms
  by (auto simp: commit_prepare_def commit_account_data_def copy_desc_and_meta_to_tx_meta_def Let_def
      split: if_splits sum.splits prod.splits)

lemma persist_data_frame:
  assumes "persist_data mem s df req_id buf sz = Inr s'"
  shows "js_ckpt s' = js_ckpt s" "js_seqn s' = js_seqn s" "js_log s' = js_log s" "js_sb s' = js_sb s"
  using assms by (auto simp: persist_data_def Let_def split: if_splits sum.splits prod.splits)

lemma commit_finish_seqn:
  assumes "seqn_inv (s, ps, old)" "p \<in> set ps" "commit_finish stk sec nsec s p = Inr s'"
  shows "seqn_inv (s', remove1 p ps, old)"
proof -
  have s': "js_ckpt s' = js_ckpt s @ [pc_entry p]" "js_seqn s' = pc_txid p"
    "js_seqn s = 0 \<or> pc_txid p = add32 (js_seqn s) 1"
    using assms(3) by (auto simp: commit_finish_def ckpt_list_enqueue_def Let_def split: if_splits)
  have p: "tm_tx_id (ce_tx (pc_entry p)) = pc_txid p" "\<forall>q\<in>set ps. tm_tx_id (ce_tx (pc_entry q)) = pc_txid q"
    and inv: "old \<le> length (js_ckpt s)" "ids_consecutive (new_ids old s)" "new_ids old s \<noteq> [] \<longrightarrow> last (new_ids old s) = js_seqn s"
    using assms(1,2) by (auto simp: seqn_inv_def)
  have n: "new_ids old s' = new_ids old s @ [pc_txid p]" using s'(1) p(1) inv(1) by (simp add: new_ids_def ckpt_ids_def)
  then have "ids_consecutive (new_ids old s')" using inv s'(3) by (auto intro: ids_consecutive_append)
  moreover have "\<forall>q\<in>set (remove1 p ps). tm_tx_id (ce_tx (pc_entry q)) = pc_txid q" using p(2) by (auto dest: notin_set_remove1)
  ultimately show ?thesis using n s'(1,2) inv(1) by (simp add: seqn_inv_def)
qed

lemma jstep_seqn_inv:
  assumes "jstep mem sp sp'" "seqn_inv sp"
  shows "seqn_inv sp'"
  using assms
proof (induction rule: jstep.induct)
  case (data s df req_id buf sz s' ps old)
  then show ?case using persist_data_frame [OF data(1)] by (simp add: seqn_inv_def new_ids_def ckpt_ids_def)
next
  case (prepare s df buf md_size data_size reqs s' p ps old)
  then show ?case using commit_prepare_entry [OF prepare(1)] by (auto simp: seqn_inv_def new_ids_def ckpt_ids_def)
next
  case (finish p ps stk sec nsec s s' old)
  then show ?case using commit_finish_seqn by blast
next
  case (ready s i s' ps old)
  then have "ckpt_ids s' = ckpt_ids s" "js_seqn s' = js_seqn s" "length (js_ckpt s') = length (js_ckpt s)"
    by (auto simp: prepare_ckpt_def Let_def ckpt_ids_def map_update split: if_splits
        intro!: nth_equalityI simp: nth_list_update)
  then show ?case using ready.prems by (simp add: seqn_inv_def new_ids_def)
next
  case (ckpt s ce rest ps old)
  then have c: "js_ckpt s = ce # rest" by (auto simp: ckpt_list_dequeue_def split: list.splits if_splits)
  then have n: "new_ids (old - 1) (s\<lparr>js_ckpt := rest\<rparr>) = (if old = 0 then tl (new_ids old s) else new_ids old s)"
    by (cases old) (simp_all add: new_ids_def ckpt_ids_def)
  show ?case
    using ckpt.prems c n ids_consecutive_tl [of "hd (new_ids old s)" "tl (new_ids old s)"]
    by (cases "new_ids old s") (auto simp: seqn_inv_def)
next
  case (reset s ps old)
  then show ?case by (simp add: seqn_inv_def new_ids_def ckpt_ids_def reset_jnr_ctx_def)
qed

section \<open>Lemmas: layout of a transaction\<close>

lemma log_first_data:
  assumes "log_inv j" "0 < log_first j"
  shows "get_chunck_start j 0 = log_head j" "add64 (log_head j) 1 = Suc (log_head j)"
    "log_first j \<le> Suc (log_head j)" "Suc (log_head j) \<le> Suc (log_last j)"
  using log_head_bounds [OF assms(1)] log_invD(2) [OF assms(1)]
  by (simp_all add: get_chunck_start_def Let_def c_arith)

lemma persist_data_first:
  assumes inv: "log_inv (js_log s df)" and first: "0 < log_first (js_log s df)"
    and h: "log_head (js_log s df) < log_last (js_log s df)" and f: "desc_blk_baddr (js_fetch s df) = 0"
    and n: "0 < n" "n \<le> 8192" "n \<le> log_cap (js_log s df)"
    and buf: "buf \<noteq> 0" "buf + n * OXBOW_BLOCK_SIZE < 2 ^ 64"
  shows "persist_data mem s df 0 buf (n * OXBOW_BLOCK_SIZE) =
    Inr (s\<lparr>js_disk := write_list (zip (wrap_range (log_first (js_log s df)) (log_last (js_log s df))
                         (Suc (log_head (js_log s df))) n) (buf_blocks mem buf n)) (js_disk s),
           js_fetch := (js_fetch s)(df := (js_fetch s df)
             \<lparr>desc_blk_baddr := log_head (js_log s df),
              total_log_size := add64 (total_log_size (js_fetch s df)) (n * OXBOW_BLOCK_SIZE),
              req_cnt := add32 (req_cnt (js_fetch s df)) 1\<rparr>)\<rparr>)"
proof -
  let ?j = "js_log s df"
  note d = log_first_data [OF inv first]
  obtain b1 b2 where b: "add_bios_considering_wrap_into_separate_bls ?j (Suc (log_head ?j)) buf
      (n * OXBOW_BLOCK_SIZE) = Inr (b1, b2)"
    "bl_writes mem b1 @ bl_writes mem b2 =
      zip (wrap_range (log_first ?j) (log_last ?j) (Suc (log_head ?j)) n) (buf_blocks mem buf n)"
    "b1 \<noteq> []" "length b1 \<le> 1" "length b2 \<le> 1"
    using add_bios_separate_writes [OF inv first d(3,4) n(3) buf, of mem] n h by auto
  then have "write_list (bl_writes mem b2) (write_list (bl_writes mem b1) (js_disk s)) =
      write_list (zip (wrap_range (log_first ?j) (log_last ?j) (Suc (log_head ?j)) n)
        (buf_blocks mem buf n)) (js_disk s)"
    by (simp flip: write_list_append)
  then show ?thesis
    using b n(1) buf(1) f d(1,2) by (simp add: persist_data_def Let_def OXBOW_BLOCK_SIZE_def)
qed

text \<open>At the last block of the log the first chunk is not written and not counted.\<close>

lemma persist_data_at_end:
  assumes inv: "log_inv (js_log s df)" and first: "0 < log_first (js_log s df)"
    and h: "log_head (js_log s df) = log_last (js_log s df)" and f: "desc_blk_baddr (js_fetch s df) = 0"
    and n: "0 < n" "n \<le> 8192" "n \<le> log_cap (js_log s df)"
    and buf: "buf \<noteq> 0" "buf + n * OXBOW_BLOCK_SIZE < 2 ^ 64"
  shows "persist_data mem s df 0 buf (n * OXBOW_BLOCK_SIZE) =
    Inr (s\<lparr>js_fetch := (js_fetch s)(df := (js_fetch s df)\<lparr>desc_blk_baddr := log_head (js_log s df)\<rparr>)\<rparr>)"
proof -
  let ?j = "js_log s df"
  note d = log_first_data [OF inv first]
  obtain b1 b2 where b: "add_bios_considering_wrap_into_separate_bls ?j (Suc (log_head ?j)) buf
      (n * OXBOW_BLOCK_SIZE) = Inr (b1, b2)" "b1 = []" "length b2 \<le> 1"
    using add_bios_separate_writes [OF inv first d(3,4) n(3) buf, of mem] n h by auto
  then show ?thesis
    using n(1) buf(1) f d(1,2) by (simp add: persist_data_def Let_def OXBOW_BLOCK_SIZE_def)
qed

text \<open>The blocks of a transaction after its data: metadata, superblock and commit block.\<close>

lemma commit_prepare_writes:
  assumes acc: "commit_account_data s df ds reqs = Inr s1"
    and inv: "log_inv (js_log s1 df)" and first: "0 < log_first (js_log s1 df)"
    and j: "lo = log_first (js_log s1 df)" "hi = log_last (js_log s1 df)"
    and h: "h = desc_blk_baddr (js_fetch s1 df)" "lo \<le> h" "h \<le> hi"
    and head: "log_head (js_log s1 df) = wrap_at lo hi h k"
    and m: "m + 2 \<le> n_free_blks (js_log s1 df)"
    and buf: "buf \<noteq> 0" "buf + Suc m * OXBOW_BLOCK_SIZE < 2 ^ 64"
  shows "\<exists>s' p. commit_prepare mem s df buf (Suc m * OXBOW_BLOCK_SIZE) ds reqs = Inr (s', p) \<and>
    js_disk s' = write_list (zip (wrap_range lo hi (wrap_at lo hi h k) m) (buf_blocks mem (buf + OXBOW_BLOCK_SIZE) m) @
      [(wrap_at lo hi h (k + m), set_jsb_start (log_tail (js_log s1 df)) (js_sb s1)),
       (h, put_le 4 20 (wrap_at lo hi h k) (mem buf))]) (js_disk s1) \<and>
    js_sb s' = js_sb s1 \<and> js_seqn s' = js_seqn s1 \<and> js_ckpt s' = js_ckpt s1 \<and> js_fetch s' = js_fetch s1 \<and>
    js_log s' = (js_log s1)(df := update_log_state (js_log s1 df) (m + 2)) \<and>
    pc_df p = df \<and> pc_txid p = jdb_transaction_id (mem buf) \<and> pc_tail p = log_tail (js_log s1 df) \<and>
    pc_commit_baddr p = wrap_at lo hi h (k + m + 1) \<and>
    pc_entry p = \<lparr>ce_df = df, ce_start = h,
      ce_size = add64 (add64 ds ((m + 2) * OXBOW_BLOCK_SIZE)) OXBOW_BLOCK_SIZE,
      ce_tx = copy_desc_and_meta_to_tx_meta mem buf (put_le 4 20 (wrap_at lo hi h k) (mem buf)), ce_ready = False\<rparr>"
proof -
  let ?l = "js_log s1 df"
  let ?j = "update_log_state ?l (m + 2)"
  note i = log_invD [OF inv]
  have m32: "m + 2 < 2 ^ 32" "m \<le> log_cap ?l" using m i(5,7) by simp_all
  have sizes: "sub64 (Suc m * OXBOW_BLOCK_SIZE) OXBOW_BLOCK_SIZE = m * OXBOW_BLOCK_SIZE"
    "add64 (m * OXBOW_BLOCK_SIZE) (OXBOW_BLOCK_SIZE * 2) = (m + 2) * OXBOW_BLOCK_SIZE"
    "add64 buf OXBOW_BLOCK_SIZE = buf + OXBOW_BLOCK_SIZE" "nblks_to_bytes 1 = OXBOW_BLOCK_SIZE"
    using m32(1) buf(2) by (simp_all add: OXBOW_BLOCK_SIZE_def c_arith nblks_to_bytes_def)
  have alloc: "alloc_journal_space ?l ((m + 2) * OXBOW_BLOCK_SIZE) = Inr (log_head ?l, ?j)"
    by (rule alloc_journal_space_ok [OF inv m])
  have invj: "log_inv ?j" by (rule update_log_state_inv(1) [OF inv m])
  have bounds: "lo \<le> wrap_at lo hi h x" "wrap_at lo hi h x \<le> Suc hi" for x
    using wrap_at_bounds [of lo hi h x] i(1) j by simp_all
  obtain bs nxt where bs: "add_bios_considering_wrap ?j [] (wrap_at lo hi h k) (buf + OXBOW_BLOCK_SIZE)
      (m * OXBOW_BLOCK_SIZE) = Inr (nxt, bs)"
    "bl_writes mem bs = zip (wrap_range lo hi (wrap_at lo hi h k) m) (buf_blocks mem (buf + OXBOW_BLOCK_SIZE) m)"
    "lo \<le> nxt" "nxt \<le> Suc hi" "\<And>x. wrap_at lo hi nxt x = wrap_at lo hi (wrap_at lo hi h k) (m + x)"
    using add_bios_considering_wrap_writes [OF invj, of "wrap_at lo hi h k" m "buf + OXBOW_BLOCK_SIZE" "[]" mem]
      bounds first j m32(2) buf by (auto simp: j)
  have sb: "wrap_dst ?j nxt = wrap_at lo hi h (k + m)"
    using wrap_dst_eq [OF invj, of nxt] bs(3-5) first j wrap_at_add [of lo hi h k m] by (simp add: j)
  have "add64 (wrap_at lo hi h (k + m)) 1 = Suc (wrap_at lo hi h (k + m))"
    using bounds(2) [of "k + m"] i(2) j by (simp add: c_arith)
  moreover have "wrap_at lo hi (Suc (wrap_at lo hi h (k + m))) 0 = wrap_at lo hi h (k + m + 1)"
    using bounds(1) [of "k + m"] wrap_at_add [of lo hi h "k + m" 1]
    by (simp add: wrap_at_def Suc_diff_le)
  ultimately have cm: "wrap_dst ?j (add64 (wrap_at lo hi h (k + m)) 1) = wrap_at lo hi h (k + m + 1)"
    using wrap_dst_eq [OF invj, of "Suc (wrap_at lo hi h (k + m))"] wrap_at_bounds [of lo hi h "k + m"]
      i(1) first j by (simp add: j)
  have desc: "wrap_dst ?j h = h"
    using wrap_dst_eq [OF invj, of h] h(2,3) first j by (simp add: j wrap_at_no_wrap)
  show ?thesis
    using buf(1) unfolding commit_prepare_def acc sum.case sizes Let_def alloc head prod.case bs(1)
      h(1) [symmetric] sb cm desc
    by (simp add: bs(2) OXBOW_BLOCK_SIZE_def [symmetric]) (simp add: OXBOW_BLOCK_SIZE_def)
qed

lemma wrap_range_Suc_start:
  assumes "lo \<le> h"
  shows "wrap_range lo hi (Suc h) n = wrap_range lo hi (wrap_at lo hi h 1) n"
proof -
  have "wrap_at lo hi (Suc h) i = wrap_at lo hi (wrap_at lo hi h 1) i" for i
    using wrap_at_add [of lo hi h 1 i] assms by (simp add: wrap_at_def Suc_diff_le)
  then show ?thesis by (simp add: wrap_range_def)
qed

text \<open>The blocks of a transaction in log order.\<close>

lemma tx_image:
  assumes "lo \<le> h" "h \<le> hi" "length ds = n" "length ms = m"
  shows "zip (wrap_range lo hi h (n + m + 3)) (d # ds @ ms @ [sb, cm]) =
    (h, d) # zip (wrap_range lo hi (Suc h) n) ds @ zip (wrap_range lo hi (wrap_at lo hi h (n + 1)) m) ms @
    [(wrap_at lo hi h (n + 1 + m), sb), (wrap_at lo hi h (n + 1 + m + 1), cm)]"
proof -
  have one: "wrap_range lo hi x 1 = [wrap_at lo hi x 0]" for x by (simp add: wrap_range_def)
  have z: "wrap_at lo hi (wrap_at lo hi h x) 0 = wrap_at lo hi h x" for x
    using wrap_at_add [of lo hi h x 0] by simp
  have "wrap_range lo hi h (1 + (n + (m + (1 + 1)))) =
      [wrap_at lo hi h 0] @ wrap_range lo hi (wrap_at lo hi h 1) n @
      wrap_range lo hi (wrap_at lo hi h (1 + n)) m @
      [wrap_at lo hi h (1 + n + m), wrap_at lo hi h (1 + n + m + 1)]"
    by (simp only: wrap_range_append one z append_Cons append_Nil append_assoc wrap_at_add [symmetric] add.assoc add_0_right)
  moreover have "wrap_at lo hi h 0 = h" using assms(1,2) by (simp add: wrap_at_no_wrap)
  moreover have "n + m + 3 = 1 + (n + (m + (1 + 1)))" by simp
  ultimately have eq: "wrap_range lo hi h (n + m + 3) =
      h # wrap_range lo hi (Suc h) n @ wrap_range lo hi (wrap_at lo hi h (n + 1)) m @
      [wrap_at lo hi h (n + 1 + m), wrap_at lo hi h (n + 1 + m + 1)]"
    by (simp only: wrap_range_Suc_start [OF assms(1)] append_Cons append_Nil add.commute [of 1 n])
  show ?thesis unfolding eq using assms(3,4) by (simp add: zip_append1 wrap_range_def)
qed

lemma tx_image_order:
  assumes "lo \<le> h" "h \<le> hi" "length ds = n" "length ms = m" "n + m + 3 \<le> area_size lo hi"
  shows "write_list (zip (wrap_range lo hi (Suc h) n) ds @
      zip (wrap_range lo hi (wrap_at lo hi h (n + 1)) m) ms @
      [(wrap_at lo hi h (n + 1 + m), sb), (h, d)] @ [(wrap_at lo hi h (n + 1 + m + 1), cm)]) dsk =
    write_list (zip (wrap_range lo hi h (n + m + 3)) (d # ds @ ms @ [sb, cm])) dsk"
proof -
  let ?W = "zip (wrap_range lo hi (Suc h) n) ds @
      zip (wrap_range lo hi (wrap_at lo hi h (n + 1)) m) ms @
      [(wrap_at lo hi h (n + 1 + m), sb), (h, d)] @ [(wrap_at lo hi h (n + 1 + m + 1), cm)]"
  let ?L = "zip (wrap_range lo hi h (n + m + 3)) (d # ds @ ms @ [sb, cm])"
  have dist: "distinct (map fst ?L)"
    using distinct_wrap_range [OF assms(5)] assms(3,4) by simp
  have "mset ?W = mset ?L" by (simp add: tx_image [OF assms(1-4)])
  then show ?thesis using dist by (intro write_list_mset)
qed

lemma commit_one_chunk:
  assumes inv: "log_inv (js_log s df)" and first: "0 < log_first (js_log s df)"
    and j: "lo = log_first (js_log s df)" "hi = log_last (js_log s df)" "h = log_head (js_log s df)"
    and h: "h < hi"
    and f: "js_fetch s df = \<lparr>req_cnt = 0, desc_blk_baddr = 0, total_log_size = 0\<rparr>"
    and n: "0 < n" "n \<le> 8192" "n + m + 3 \<le> n_free_blks (js_log s df)"
    and dbuf: "dbuf \<noteq> 0" "dbuf + n * OXBOW_BLOCK_SIZE < 2 ^ 64"
    and mbuf: "mbuf \<noteq> 0" "mbuf + Suc m * OXBOW_BLOCK_SIZE < 2 ^ 64"
  shows "\<exists>s1 s' p. persist_data mem s df 0 dbuf (n * OXBOW_BLOCK_SIZE) = Inr s1 \<and>
    commit_prepare mem s1 df mbuf (Suc m * OXBOW_BLOCK_SIZE) (n * OXBOW_BLOCK_SIZE) 1 = Inr (s', p) \<and>
    js_disk s' = write_list (zip (wrap_range lo hi (wrap_at lo hi h (n + 1)) m) (buf_blocks mem (mbuf + OXBOW_BLOCK_SIZE) m) @
      [(wrap_at lo hi h (n + 1 + m), set_jsb_start (log_tail (js_log s df)) (js_sb s)),
       (h, put_le 4 20 (wrap_at lo hi h (n + 1)) (mem mbuf))])
      (write_list (zip (wrap_range lo hi (Suc h) n) (buf_blocks mem dbuf n)) (js_disk s)) \<and>
    js_sb s' = js_sb s \<and> js_seqn s' = js_seqn s \<and> js_ckpt s' = js_ckpt s \<and>
    js_log s' df = update_log_state (update_log_state (js_log s df) (n + 1)) (m + 2) \<and>
    pc_df p = df \<and> pc_txid p = jdb_transaction_id (mem mbuf) \<and>
    pc_commit_baddr p = wrap_at lo hi h (n + 1 + m + 1) \<and>
    pc_entry p = \<lparr>ce_df = df, ce_start = h, ce_size = (n + m + 3) * OXBOW_BLOCK_SIZE,
      ce_tx = copy_desc_and_meta_to_tx_meta mem mbuf (put_le 4 20 (wrap_at lo hi h (n + 1)) (mem mbuf)), ce_ready = False\<rparr>"
proof -
  let ?l = "js_log s df"
  let ?upd = "update_log_state ?l (n + 1)"
  note i = log_invD [OF inv]
  have n1: "n + 1 \<le> n_free_blks ?l" "n \<le> log_cap ?l" "n + m + 3 < 2 ^ 32"
    using n(3) i(5,7) by simp_all
  obtain s1 where s1: "persist_data mem s df 0 dbuf (n * OXBOW_BLOCK_SIZE) = Inr s1"
    "js_disk s1 = write_list (zip (wrap_range lo hi (Suc h) n) (buf_blocks mem dbuf n)) (js_disk s)"
    "js_log s1 = js_log s" "js_sb s1 = js_sb s" "js_seqn s1 = js_seqn s" "js_ckpt s1 = js_ckpt s"
    "js_fetch s1 df = \<lparr>req_cnt = 1, desc_blk_baddr = h, total_log_size = n * OXBOW_BLOCK_SIZE\<rparr>"
    using persist_data_first [OF inv first _ _ n(1,2) n1(2) dbuf, of mem] h j f n1(3)
    by (auto simp: add64_id add32_id OXBOW_BLOCK_SIZE_def)
  have acc: "commit_account_data s1 df (n * OXBOW_BLOCK_SIZE) 1 =
      Inr (s1\<lparr>js_log := (js_log s1)(df := ?upd)\<rparr>)"
    using s1(3,7) n1(3) by (simp add: commit_account_data_def OXBOW_BLOCK_SIZE_def add64_id)
  note l1 = update_log_state_inv [OF inv n1(1)]
  have head: "log_head ?upd = wrap_at lo hi h (n + 1)"
    using advance_ptr_eq [OF inv log_head_bounds [OF inv], of "n + 1"] n1(1) i(5) j
    by (simp add: update_log_state_def)
  let ?sa = "s1\<lparr>js_log := (js_log s1)(df := ?upd)\<rparr>"
  have free: "m + 2 \<le> n_free_blks (js_log ?sa df)" using l1(3) n(3) by simp
  have hb: "lo \<le> h" "h \<le> hi" using log_head_bounds [OF inv] j by simp_all
  have sa: "log_inv (js_log ?sa df)" "0 < log_first (js_log ?sa df)" "lo = log_first (js_log ?sa df)"
    "hi = log_last (js_log ?sa df)" "h = desc_blk_baddr (js_fetch ?sa df)"
    "log_head (js_log ?sa df) = wrap_at lo hi h (n + 1)"
    using l1(1) first j s1(7) head by simp_all
  note prep = commit_prepare_writes [OF acc sa(1-5) hb sa(6) free mbuf, of mem]
  obtain s' p where sp: "commit_prepare mem s1 df mbuf (Suc m * OXBOW_BLOCK_SIZE) (n * OXBOW_BLOCK_SIZE) 1 = Inr (s', p)"
    "js_disk s' = write_list (zip (wrap_range lo hi (wrap_at lo hi h (n + 1)) m) (buf_blocks mem (mbuf + OXBOW_BLOCK_SIZE) m) @
      [(wrap_at lo hi h (n + 1 + m), set_jsb_start (log_tail (js_log ?sa df)) (js_sb ?sa)),
       (h, put_le 4 20 (wrap_at lo hi h (n + 1)) (mem mbuf))]) (js_disk ?sa)"
    "js_sb s' = js_sb ?sa" "js_seqn s' = js_seqn ?sa" "js_ckpt s' = js_ckpt ?sa" "js_fetch s' = js_fetch ?sa"
    "js_log s' = (js_log ?sa)(df := update_log_state (js_log ?sa df) (m + 2))"
    "pc_df p = df" "pc_txid p = jdb_transaction_id (mem mbuf)" "pc_commit_baddr p = wrap_at lo hi h (n + 1 + m + 1)"
    "pc_entry p = \<lparr>ce_df = df, ce_start = h,
      ce_size = add64 (add64 (n * OXBOW_BLOCK_SIZE) ((m + 2) * OXBOW_BLOCK_SIZE)) OXBOW_BLOCK_SIZE,
      ce_tx = copy_desc_and_meta_to_tx_meta mem mbuf (put_le 4 20 (wrap_at lo hi h (n + 1)) (mem mbuf)), ce_ready = False\<rparr>"
    using prep by (elim exE conjE) (rule that)
  have size: "add64 (add64 (n * OXBOW_BLOCK_SIZE) ((m + 2) * OXBOW_BLOCK_SIZE)) OXBOW_BLOCK_SIZE =
      (n + m + 3) * OXBOW_BLOCK_SIZE"
    using n1(3) by (simp add: OXBOW_BLOCK_SIZE_def add64_id)
  show ?thesis
    by (rule exI [of _ s1], rule exI [of _ s'], rule exI [of _ p], insert sp(1) size)
      (simp add: sp(2-) s1(1-6))
qed

lemma commit_one_tx:
  assumes inv: "log_inv (js_log s df)" and first: "0 < log_first (js_log s df)"
    and j: "lo = log_first (js_log s df)" "hi = log_last (js_log s df)" "h = log_head (js_log s df)"
    and h: "h < hi"
    and f: "js_fetch s df = \<lparr>req_cnt = 0, desc_blk_baddr = 0, total_log_size = 0\<rparr>"
    and n: "0 < n" "n \<le> 8192" "n + m + 3 \<le> n_free_blks (js_log s df)"
    and dbuf: "dbuf \<noteq> 0" "dbuf + n * OXBOW_BLOCK_SIZE < 2 ^ 64"
    and mbuf: "mbuf \<noteq> 0" "mbuf + Suc m * OXBOW_BLOCK_SIZE < 2 ^ 64"
    and turn: "js_seqn s = 0 \<or> jdb_transaction_id (mem mbuf) = add32 (js_seqn s) 1"
  shows "\<exists>s1 s2. persist_data mem s df 0 dbuf (n * OXBOW_BLOCK_SIZE) = Inr s1 \<and>
    persist_meta_and_commit mem stk sec nsec s1 df mbuf (Suc m * OXBOW_BLOCK_SIZE) (n * OXBOW_BLOCK_SIZE) 1 = Inr s2 \<and>
    js_disk s2 = write_list (zip (wrap_range lo hi h (n + m + 3))
      (put_le 4 20 (wrap_at lo hi h (n + 1)) (mem mbuf) #
       buf_blocks mem dbuf n @ buf_blocks mem (mbuf + OXBOW_BLOCK_SIZE) m @
       [set_jsb_start (log_tail (js_log s df)) (js_sb s),
        commit_header (jsb_magic (js_sb s)) (jdb_transaction_id (mem mbuf)) sec nsec stk])) (js_disk s) \<and>
    log_inv (js_log s2 df) \<and>
    log_live (js_log s2 df) = log_live (js_log s df) @ wrap_range lo hi h (n + m + 3) \<and>
    js_fetch s2 df = js_fetch s df \<and> js_seqn s2 = jdb_transaction_id (mem mbuf) \<and>
    js_log s2 df = update_log_state (update_log_state (js_log s df) (n + 1)) (m + 2) \<and>
    js_ckpt s2 = js_ckpt s @ [\<lparr>ce_df = df, ce_start = h, ce_size = (n + m + 3) * OXBOW_BLOCK_SIZE,
      ce_tx = copy_desc_and_meta_to_tx_meta mem mbuf (put_le 4 20 (wrap_at lo hi h (n + 1)) (mem mbuf)), ce_ready = False\<rparr>]"
proof -
  let ?l = "js_log s df"
  let ?upd = "update_log_state ?l (n + 1)"
  note i = log_invD [OF inv]
  have n1: "n + 1 \<le> n_free_blks ?l" using n(3) by simp
  note l1 = update_log_state_inv [OF inv n1]
  have hb: "lo \<le> h" "h \<le> hi" using log_head_bounds [OF inv] j by simp_all
  have head: "log_head ?upd = wrap_at lo hi h (n + 1)"
    using advance_ptr_eq [OF inv log_head_bounds [OF inv], of "n + 1"] n1 i(5) j
    by (simp add: update_log_state_def)
  obtain s1 s' p where sp: "persist_data mem s df 0 dbuf (n * OXBOW_BLOCK_SIZE) = Inr s1"
    "commit_prepare mem s1 df mbuf (Suc m * OXBOW_BLOCK_SIZE) (n * OXBOW_BLOCK_SIZE) 1 = Inr (s', p)"
    "js_disk s' = write_list (zip (wrap_range lo hi (wrap_at lo hi h (n + 1)) m) (buf_blocks mem (mbuf + OXBOW_BLOCK_SIZE) m) @
      [(wrap_at lo hi h (n + 1 + m), set_jsb_start (log_tail ?l) (js_sb s)),
       (h, put_le 4 20 (wrap_at lo hi h (n + 1)) (mem mbuf))])
      (write_list (zip (wrap_range lo hi (Suc h) n) (buf_blocks mem dbuf n)) (js_disk s))"
    "js_sb s' = js_sb s" "js_seqn s' = js_seqn s" "js_ckpt s' = js_ckpt s"
    "js_log s' df = update_log_state ?upd (m + 2)"
    "pc_df p = df" "pc_txid p = jdb_transaction_id (mem mbuf)" "pc_commit_baddr p = wrap_at lo hi h (n + 1 + m + 1)"
    "pc_entry p = \<lparr>ce_df = df, ce_start = h, ce_size = (n + m + 3) * OXBOW_BLOCK_SIZE,
      ce_tx = copy_desc_and_meta_to_tx_meta mem mbuf (put_le 4 20 (wrap_at lo hi h (n + 1)) (mem mbuf)), ce_ready = False\<rparr>"
    using commit_one_chunk [OF inv first j h f n dbuf mbuf, of mem] by (elim exE conjE) (rule that)
  obtain s2 where s2: "commit_finish stk sec nsec s' p = Inr s2"
    "js_disk s2 = (js_disk s')(pc_commit_baddr p := commit_header (jsb_magic (js_sb s)) (pc_txid p) sec nsec stk)"
    "js_log s2 = js_log s'" "js_fetch s2 df = js_fetch s df" "js_seqn s2 = pc_txid p"
    "js_ckpt s2 = js_ckpt s @ [pc_entry p]"
    using turn sp(4-6,8,9) f
    by (simp add: commit_finish_def Let_def reset_fetch_ctx_def ckpt_list_enqueue_def)
  have cap: "n + m + 3 \<le> area_size lo hi" using n(3) i(5) j by (simp add: log_cap_def)
  have disk: "js_disk s2 = write_list (zip (wrap_range lo hi h (n + m + 3))
      (put_le 4 20 (wrap_at lo hi h (n + 1)) (mem mbuf) #
       buf_blocks mem dbuf n @ buf_blocks mem (mbuf + OXBOW_BLOCK_SIZE) m @
       [set_jsb_start (log_tail ?l) (js_sb s),
        commit_header (jsb_magic (js_sb s)) (jdb_transaction_id (mem mbuf)) sec nsec stk])) (js_disk s)"
    using tx_image_order [OF hb _ _ cap, of "buf_blocks mem dbuf n" "buf_blocks mem (mbuf + OXBOW_BLOCK_SIZE) m"]
    by (simp add: s2(2) sp(3,9,10))
  have total: "n + m + 3 = n + 1 + (m + 2)" by simp
  note l2 = update_log_state_inv [OF l1(1), of "m + 2"]
  have "log_live (js_log s2 df) = log_live ?l @ wrap_range lo hi h (n + 1) @
      wrap_range lo hi (wrap_at lo hi h (n + 1)) (m + 2)"
    using l2(2) l1(2,3) n(3) head j s2(3) sp(7) by simp
  also have "\<dots> = log_live ?l @ wrap_range lo hi h (n + m + 3)"
    using wrap_range_append [of lo hi h "n + 1" "m + 2"] by (simp only: total)
  finally have live: "log_live (js_log s2 df) = log_live ?l @ wrap_range lo hi h (n + m + 3)" .
  have "log_inv (js_log s2 df)" using l2(1) l1(3) n(3) s2(3) sp(7) by simp
  then show ?thesis
    using sp(1,2,7,9,11) s2(1,3-6) disk live
    by (intro exI [of _ s1] exI [of _ s2]) (simp add: persist_meta_and_commit_def)
qed

section \<open>Properties\<close>

text \<open>C2.  Layout of a committed transaction.  When a transaction of one data chunk of \<open>n\<close>
  blocks and \<open>m\<close> metadata blocks fits the free space and starts before the last block of the
  log, \<^verbatim>\<open>persist_data\<close> and \<^verbatim>\<open>persist_meta_and_commit\<close> succeed; the disk then
  has, in the circular run that starts at the old head, the descriptor block (with the address
  of the metadata), the data, the metadata, a superblock snapshot with the log tail, and the
  commit block, and is unchanged elsewhere; the log has taken exactly these blocks, the fetch
  context is reset, and the transaction is last in the checkpoint list.\<close>

theorem commit_layout:
  assumes inv: "log_inv (js_log s df)" and first: "0 < log_first (js_log s df)"
    and j: "lo = log_first (js_log s df)" "hi = log_last (js_log s df)" "h = log_head (js_log s df)"
    and h: "h < hi"
    and f: "js_fetch s df = \<lparr>req_cnt = 0, desc_blk_baddr = 0, total_log_size = 0\<rparr>"
    and n: "0 < n" "n \<le> 8192" "n + m + 3 \<le> n_free_blks (js_log s df)"
    and dbuf: "dbuf \<noteq> 0" "dbuf + n * OXBOW_BLOCK_SIZE < 2 ^ 64"
    and mbuf: "mbuf \<noteq> 0" "mbuf + Suc m * OXBOW_BLOCK_SIZE < 2 ^ 64"
    and turn: "js_seqn s = 0 \<or> jdb_transaction_id (mem mbuf) = add32 (js_seqn s) 1"
  shows "\<exists>s1 s2. persist_data mem s df 0 dbuf (n * OXBOW_BLOCK_SIZE) = Inr s1 \<and>
    persist_meta_and_commit mem stk sec nsec s1 df mbuf (Suc m * OXBOW_BLOCK_SIZE) (n * OXBOW_BLOCK_SIZE) 1 = Inr s2 \<and>
    js_disk s2 = write_list (zip (wrap_range lo hi h (n + m + 3))
      (put_le 4 20 (wrap_at lo hi h (n + 1)) (mem mbuf) #
       buf_blocks mem dbuf n @ buf_blocks mem (mbuf + OXBOW_BLOCK_SIZE) m @
       [set_jsb_start (log_tail (js_log s df)) (js_sb s),
        commit_header (jsb_magic (js_sb s)) (jdb_transaction_id (mem mbuf)) sec nsec stk])) (js_disk s) \<and>
    log_inv (js_log s2 df) \<and>
    log_live (js_log s2 df) = log_live (js_log s df) @ wrap_range lo hi h (n + m + 3) \<and>
    js_fetch s2 df = js_fetch s df \<and> js_seqn s2 = jdb_transaction_id (mem mbuf) \<and>
    (\<exists>ce. js_ckpt s2 = js_ckpt s @ [ce] \<and> ce_df ce = df \<and> ce_start ce = h \<and>
       ce_size ce = (n + m + 3) * OXBOW_BLOCK_SIZE)"
  using commit_one_tx [where mem = mem and mbuf = mbuf and m = m, OF assms, of stk sec nsec] by (elim exE conjE) (intro exI conjI, assumption+, simp_all)

definition mem_example :: "nat \<Rightarrow> block" where
  "mem_example a = put_le 4 4 7 (\<lambda>i. word_of_nat a)"

definition jstate_example :: jstate where
  "jstate_example =
     \<lparr>js_sb = (\<lambda>i. 0),
      js_log = (\<lambda>i. \<lparr>df_id = i, log_first = 10, log_last = 19, log_head = 16, log_tail = 16, n_free_blks = 10\<rparr>),
      js_fetch = (\<lambda>i. \<lparr>req_cnt = 0, desc_blk_baddr = 0, total_log_size = 0\<rparr>),
      js_seqn = 6, js_ckpt = [], js_disk = (\<lambda>a. (\<lambda>i. 0))\<rparr>"

lemma log_inv_example: "log_inv (js_log jstate_example 0)"
  by (simp add: jstate_example_def log_inv_def log_cap_def log_used_def area_size_def wrap_at_def)

theorem commit_layout_witness:
  "\<exists>s1 s2. persist_data mem_example jstate_example 0 0 4096 (2 * OXBOW_BLOCK_SIZE) = Inr s1 \<and>
    persist_meta_and_commit mem_example (\<lambda>i. 0) 1 2 s1 0 65536 (Suc 1 * OXBOW_BLOCK_SIZE)
      (2 * OXBOW_BLOCK_SIZE) 1 = Inr s2 \<and>
    log_live (js_log s2 0) = [16, 17, 18, 19, 10, 11] \<and> js_seqn s2 = 7"
proof -
  note ex = jstate_example_def
  have run: "wrap_range 10 19 16 6 = [16, 17, 18, 19, 10, 11]"
    by (simp add: wrap_range_def wrap_at_def area_size_def upt_rec)
  have live: "log_live (js_log jstate_example 0) = []"
    by (simp add: ex log_live_def log_used_def log_cap_def area_size_def wrap_range_def)
  have txid: "jdb_transaction_id (mem_example 65536) = 7" by (simp add: mem_example_def)
  have hyps: "0 < log_first (js_log jstate_example 0)" "10 = log_first (js_log jstate_example 0)"
    "19 = log_last (js_log jstate_example 0)" "16 = log_head (js_log jstate_example 0)" "16 < (19 :: nat)"
    "js_fetch jstate_example 0 = \<lparr>req_cnt = 0, desc_blk_baddr = 0, total_log_size = 0\<rparr>"
    "0 < (2 :: nat)" "2 \<le> (8192 :: nat)" "2 + 1 + 3 \<le> n_free_blks (js_log jstate_example 0)"
    "4096 \<noteq> (0 :: nat)" "4096 + 2 * OXBOW_BLOCK_SIZE < 2 ^ 64"
    "65536 \<noteq> (0 :: nat)" "65536 + Suc 1 * OXBOW_BLOCK_SIZE < 2 ^ 64"
    "js_seqn jstate_example = 0 \<or> jdb_transaction_id (mem_example 65536) = add32 (js_seqn jstate_example) 1"
    by (simp_all add: ex OXBOW_BLOCK_SIZE_def txid add32_def u32_def)
  show ?thesis
    using commit_layout [where mem = mem_example and mbuf = 65536 and m = 1, OF log_inv_example hyps, of "\<lambda>i. 0" 1 2]
    by (elim exE conjE) (intro exI conjI, assumption+, simp_all add: live run txid)
qed

text \<open>C4.  Commit order.  In every interleaving of data requests, first and second parts of
  commits, checkpoints, and resets by a daemon that reconnects, the transactions of the checkpoint
  list that were committed since the last reset have consecutive ids, and the last one is the last
  committed.  After an id that has wrapped to 0, which the code takes for no transaction, any id can
  follow.\<close>

theorem commits_in_order:
  assumes "(jstep mem)\<^sup>*\<^sup>* sp (s, ps, old)" "seqn_inv sp"
  shows "ids_consecutive (new_ids old s) \<and> (new_ids old s \<noteq> [] \<longrightarrow> last (new_ids old s) = js_seqn s)"
proof -
  have "seqn_inv (s, ps, old)"
    using assms by (induction rule: rtranclp_induct) (auto intro: jstep_seqn_inv)
  then show ?thesis by (simp add: seqn_inv_def)
qed

definition pending_example :: "nat \<Rightarrow> pending_commit" where
  "pending_example txid =
     \<lparr>pc_df = txid mod 2, pc_txid = txid, pc_tail = 16, pc_commit_baddr = 10 + txid,
      pc_entry = \<lparr>ce_df = txid mod 2, ce_start = 16, ce_size = 4096,
        ce_tx = \<lparr>tm_tx_id = txid, tm_desc_blk = (\<lambda>i. 0), tm_meta = []\<rparr>, ce_ready = False\<rparr>\<rparr>"

theorem commits_in_order_witness:
  "\<exists>s. (jstep mem_example)\<^sup>*\<^sup>* (jstate_example, [pending_example 8, pending_example 7, pending_example 3], 0) (s, [], 2) \<and>
     ckpt_ids s = [7, 8, 3] \<and> ids_consecutive (new_ids 2 s) \<and> js_seqn s = 3"
proof -
  let ?z = "\<lambda>i :: nat. 0 :: 8 word" and ?ps = "[pending_example 8, pending_example 7, pending_example 3]"
  note ex = commit_finish_def pending_example_def Let_def add32_def ckpt_list_enqueue_def ckpt_ids_def
  obtain s1 where s1: "commit_finish ?z 0 0 jstate_example (pending_example 7) = Inr s1" "js_seqn s1 = 7" "ckpt_ids s1 = [7]"
    by (simp add: ex jstate_example_def)
  obtain s2 where s2: "commit_finish ?z 0 0 s1 (pending_example 8) = Inr s2" "ckpt_ids s2 = [7, 8]"
    using s1 by (simp add: ex)
  have s3: "js_seqn (reset_jnr_ctx s2) = 0" "ckpt_ids (reset_jnr_ctx s2) = [7, 8]" "length (ckpt_ids s2) = 2"
    using s2(2) by (simp_all add: reset_jnr_ctx_def ckpt_ids_def)
  obtain s4 where s4: "commit_finish ?z 0 0 (reset_jnr_ctx s2) (pending_example 3) = Inr s4" "ckpt_ids s4 = [7, 8, 3]" "js_seqn s4 = 3"
    using s3 by (simp add: ex)
  have "jstep mem_example (jstate_example, ?ps, 0) (s1, remove1 (pending_example 7) ?ps, 0)"
    using s1(1) by (intro jstep.finish) auto
  moreover have "jstep mem_example (s1, [pending_example 8, pending_example 3], 0) (s2, remove1 (pending_example 8) [pending_example 8, pending_example 3], 0)"
    using s2(1) by (intro jstep.finish) auto
  moreover have "jstep mem_example (s2, [pending_example 3], 0) (reset_jnr_ctx s2, [pending_example 3], 2)"
    using jstep.reset [of mem_example s2 "[pending_example 3]" 0] s3(3) by (simp add: ckpt_ids_def)
  moreover have "jstep mem_example (reset_jnr_ctx s2, [pending_example 3], 2) (s4, remove1 (pending_example 3) [pending_example 3], 2)"
    using s4(1) by (intro jstep.finish) auto
  ultimately have run: "(jstep mem_example)\<^sup>*\<^sup>* (jstate_example, ?ps, 0) (s4, [], 2)"
    by (simp add: pending_example_def)
  have "seqn_inv (jstate_example, ?ps, 0)"
    by (simp add: seqn_inv_def jstate_example_def pending_example_def new_ids_def ckpt_ids_def)
  then show ?thesis using commits_in_order [OF run] run s4(2,3) by auto
qed

text \<open>While no transaction has committed since the start (\<open>js_seqn = 0\<close>) the turn is not
  checked: transaction 2 can overtake transaction 1, which then never gets its turn.\<close>

lemma first_commit_overtakes:
  assumes "js_seqn s = 0" "pc_txid p = 2" "pc_txid q = 1"
  shows "\<exists>s'. commit_finish stk sec nsec s p = Inr s' \<and> commit_finish stk sec nsec s' q = Inl Blocked"
  using assms by (simp add: commit_finish_def Let_def add32_def u32_def)

text \<open>C6.  Lost first chunk.  When a transaction starts at the last block of the log, its
  first data chunk is neither written nor counted although \<^verbatim>\<open>persist_data\<close> returns
  success, and the commit of the transaction then waits forever.\<close>

theorem persist_data_lost_at_end:
  assumes inv: "log_inv (js_log s df)" and first: "0 < log_first (js_log s df)"
    and h: "log_head (js_log s df) = log_last (js_log s df)"
    and f: "js_fetch s df = \<lparr>req_cnt = 0, desc_blk_baddr = 0, total_log_size = 0\<rparr>"
    and n: "0 < n" "n \<le> 8192" "n \<le> log_cap (js_log s df)"
    and buf: "buf \<noteq> 0" "buf + n * OXBOW_BLOCK_SIZE < 2 ^ 64" and md: "md \<noteq> 0" "mbuf \<noteq> 0"
  shows "\<exists>s1. persist_data mem s df 0 buf (n * OXBOW_BLOCK_SIZE) = Inr s1 \<and> js_disk s1 = js_disk s \<and>
    persist_meta_and_commit mem stk sec nsec s1 df mbuf md (n * OXBOW_BLOCK_SIZE) 1 = Inl Blocked"
  using persist_data_at_end [OF inv first h _ n buf, of mem] f md
  by (simp add: persist_meta_and_commit_def commit_prepare_def commit_account_data_def Let_def)

theorem persist_data_lost_at_end_witness:
  "\<exists>s1. persist_data mem_example (jstate_example\<lparr>js_log := (\<lambda>i. log_example\<lparr>log_head := 19, n_free_blks := 6\<rparr>)\<rparr>)
       0 0 4096 (1 * OXBOW_BLOCK_SIZE) = Inr s1 \<and>
    persist_meta_and_commit mem_example (\<lambda>i. 0) 0 0 s1 0 65536 4096 (1 * OXBOW_BLOCK_SIZE) 1 = Inl Blocked"
proof -
  let ?s = "jstate_example\<lparr>js_log := (\<lambda>i. log_example\<lparr>log_head := 19, n_free_blks := 6\<rparr>)\<rparr>"
  have inv: "log_inv (js_log ?s 0)"
    by (simp add: log_inv_def log_example_def log_cap_def log_used_def area_size_def wrap_at_def)
  have hyps: "0 < log_first (js_log ?s 0)" "log_head (js_log ?s 0) = log_last (js_log ?s 0)"
    "js_fetch ?s 0 = \<lparr>req_cnt = 0, desc_blk_baddr = 0, total_log_size = 0\<rparr>"
    "0 < (1 :: nat)" "1 \<le> (8192 :: nat)" "1 \<le> log_cap (js_log ?s 0)"
    "4096 \<noteq> (0 :: nat)" "4096 + 1 * OXBOW_BLOCK_SIZE < 2 ^ 64" "4096 \<noteq> (0 :: nat)" "65536 \<noteq> (0 :: nat)"
    by (simp_all add: jstate_example_def log_example_def log_cap_def area_size_def OXBOW_BLOCK_SIZE_def)
  show ?thesis
    using persist_data_lost_at_end [OF inv hyps, of mem_example "\<lambda>i. 0" 0 0]
    by (elim exE conjE) (intro exI conjI)
qed

end
