(* ===== verification/Ox_Checkpoint.thy ===== *)
theory Ox_Checkpoint
  imports Ox_Ckpt_Replay Ox_Commit
begin

text \<open>
  The whole coalescing checkpoint (\<^verbatim>\<open>do_checkpoint_coalesce\<close> of
  \<^verbatim>\<open>devfs/src/journal.c\<close>): it takes the oldest ready transaction, scans its
  stage trace blocks (pass 1, which also writes the inodes), its descriptor and
  extent tag blocks (pass 2), runs passes 3 to 5 of \<^verbatim>\<open>Ox_Ckpt_Core\<close>, and releases
  the log space.  The specification is the replay of every stage transaction,
  then of the background transaction, in order.
\<close>

section \<open>Stage transactions\<close>

definition check_wrap_around_stage_tx :: "ckpt_env \<Rightarrow> baddr \<Rightarrow> nat \<Rightarrow> bool" where
  "check_wrap_around_stage_tx env start n_blks = check_wrap_around start n_blks (stg_last env)"

definition stage_blk :: "ckpt_env \<Rightarrow> baddr \<Rightarrow> baddr" where
  "stage_blk env a =
     (if check_wrap_around_stage_tx env a 1 then wrapped_baddr (stg_first env) (stg_last env) a else a)"

definition read_stage_desc_blk :: "ckpt_env \<Rightarrow> block disk \<Rightarrow> block \<Rightarrow> block list" where
  "read_stage_desc_blk env d st_blk = map (\<lambda>a. d (stage_blk env a)) (stb_tx_list st_blk)"

definition read_etag_blocks :: "ckpt_env \<Rightarrow> 'b disk \<Rightarrow> nat \<Rightarrow> baddr \<Rightarrow> 'b list" where
  "read_etag_blocks env d nr_etag_blks etag_blk_start =
     (if check_wrap_around_stage_tx env etag_blk_start nr_etag_blks
      then let n_blks = add64 (sub64 (stg_last env) etag_blk_start) 1
           in map d [etag_blk_start..<etag_blk_start + u32 n_blks] @
              map d [stg_first env..<stg_first env + u32 (sub64 nr_etag_blks n_blks)]
      else map d [etag_blk_start..<etag_blk_start + nr_etag_blks])"

text \<open>The inode block is read, patched and written back.  A copy beyond the block buffer on
  the stack is an error.\<close>

definition inode_off :: "block \<Rightarrow> nat" where
  "inode_off sdb = u32 (sdb_inode_index sdb * sdb_inode_size sdb)"

definition checkpoint_inode :: "block disk \<Rightarrow> block \<Rightarrow> ox_error + block disk" where
  "checkpoint_inode d sdb =
     (if inode_off sdb + sdb_inode_size sdb > OXBOW_BLOCK_SIZE then Inl Invalid_arg
      else Inr (d(sdb_inode_baddr sdb :=
             copy_bytes (sdb_inode_size sdb) (inode_off sdb) (d (sdb_inode_baddr sdb)) 0 sdb)))"

section \<open>Pass 1: stage trace blocks\<close>

text \<open>A tag count beyond the tag array of its block would read past the block: an error.\<close>

definition ckpt_stage_entry ::
  "ckpt_env \<Rightarrow> block disk \<Rightarrow> baddr \<Rightarrow> block \<Rightarrow> ox_error + (block disk \<times> tag_node list)" where
  "ckpt_stage_entry env d stage_start sdb =
     (case checkpoint_inode d sdb of
        Inl e \<Rightarrow> Inl e
      | Inr d1 \<Rightarrow>
          if sdb_nr_tags sdb = 0
          then (if sdb_nr_etag_blks sdb \<noteq> 0 then Inl Assertion else Inr (d1, []))
          else let jebs = (if sdb_nr_etag_blks sdb > 0
                           then read_etag_blocks env d1 (sdb_nr_etag_blks sdb) (add64 stage_start 1) else []);
                   src_start_baddr = add64 (add64 stage_start (sdb_nr_etag_blks sdb)) 1
               in if sdb_nr_tags sdb > STAGE_DESC_BLK_TAG_MAX \<or> list_ex (\<lambda>b. jmh_nr b > JOURNAL_ETAG_MAX) jebs
                  then Inl Invalid_arg
                  else Inr (d1, group_nodes (src_start_baddr, True, sdb_tags sdb @ concat (map jetb_tags jebs))))"

fun ckpt_stage_entries ::
  "ckpt_env \<Rightarrow> block disk \<Rightarrow> (baddr \<times> block) list \<Rightarrow> ox_error + (block disk \<times> tag_node list)" where
  "ckpt_stage_entries env d [] = Inr (d, [])"
| "ckpt_stage_entries env d ((stage_start, sdb) # es) =
     (case ckpt_stage_entry env d stage_start sdb of
        Inl e \<Rightarrow> Inl e
      | Inr (d1, ns) \<Rightarrow>
          (case ckpt_stage_entries env d1 es of
             Inl e \<Rightarrow> Inl e
           | Inr (d2, ns') \<Rightarrow> Inr (d2, ns @ ns')))"

fun ckpt_pass1 :: "ckpt_env \<Rightarrow> block disk \<Rightarrow> block list \<Rightarrow> ox_error + (block disk \<times> tag_node list)" where
  "ckpt_pass1 env d [] = Inr (d, [])"
| "ckpt_pass1 env d (b # bs) =
     (if \<not> is_stage_trace_blk b then ckpt_pass1 env d bs
      else if jmh_nr b > JOURNAL_TRACE_MAX then Inl Invalid_arg
      else case ckpt_stage_entries env d (zip (stb_tx_list b) (read_stage_desc_blk env d b)) of
        Inl e \<Rightarrow> Inl e
      | Inr (d1, ns) \<Rightarrow>
          (case ckpt_pass1 env d1 bs of
             Inl e \<Rightarrow> Inl e
           | Inr (d2, ns') \<Rightarrow> Inr (d2, ns @ ns')))"

section \<open>Pass 2: the background transaction\<close>

fun ckpt_pass2_blocks :: "block list \<Rightarrow> ox_error + etag list" where
  "ckpt_pass2_blocks [] = Inr []"
| "ckpt_pass2_blocks (b # bs) =
     (if is_stage_trace_blk b then ckpt_pass2_blocks bs
      else if \<not> is_etag_blk b then Inl Assertion
      else if jmh_nr b > JOURNAL_ETAG_MAX then Inl Invalid_arg
      else case ckpt_pass2_blocks bs of Inl e \<Rightarrow> Inl e | Inr ts \<Rightarrow> Inr (jetb_tags b @ ts))"

definition ckpt_pass2 :: "baddr \<Rightarrow> block \<Rightarrow> nat \<Rightarrow> block list \<Rightarrow> ox_error + tag_node list" where
  "ckpt_pass2 start jdb n_total_blks meta =
     (if jdb_nr_tags jdb = 0
      then (if jdb_nr_etag_blks jdb \<noteq> 0 then Inl Assertion else Inr [])
      else if add32 n_total_blks 1 = 0 then Inr []
      else if jdb_nr_tags jdb > JOURNAL_DESC_TAG_MAX then Inl Invalid_arg
      else case ckpt_pass2_blocks meta of
             Inl e \<Rightarrow> Inl e
           | Inr ts \<Rightarrow> Inr (group_nodes (add64 start 1, False, jdb_tags jdb @ ts)))"

section \<open>The checkpoint\<close>

definition increase_journal_sb_tx_id :: "nat \<Rightarrow> block \<Rightarrow> block" where
  "increase_journal_sb_tx_id this_tx_id sb = set_jsb_tx_id (add32 this_tx_id 1) sb"

text \<open>\<^verbatim>\<open>sync_journal_sb\<close>: the in-memory superblock takes the tail and goes to disk.\<close>

definition sync_journal_sb :: "baddr \<Rightarrow> journal_log \<Rightarrow> jstate \<Rightarrow> jstate" where
  "sync_journal_sb jsb_baddr j s =
     (let sb = set_jsb_start (log_tail j) (js_sb s)
      in s\<lparr>js_sb := sb, js_disk := (js_disk s)(jsb_baddr := sb)\<rparr>)"

definition ce_env :: "ckpt_env \<Rightarrow> journal_log \<Rightarrow> ckpt_env" where
  "ce_env env j = env\<lparr>jnl_first := log_first j, jnl_last := log_last j\<rparr>"

text \<open>The result of the checkpoint of the entry \<open>ce\<close> of the list, and the checkpoint of the
  first entry.  The I/O dispatch is taken to succeed.\<close>

definition checkpoint_entry ::
  "ckpt_env \<Rightarrow> baddr \<Rightarrow> jstate \<Rightarrow> ckpt_list_entry \<Rightarrow> ox_error + jstate" where
  "checkpoint_entry env0 jsb_baddr s ce =
     (let j = js_log s (ce_df ce);
          env = ce_env env0 j;
          jdb = tm_desc_blk (ce_tx ce);
          n_total_blks = add32 (jdb_nr_etag_blks jdb) (jdb_nr_stage_trace_blks jdb);
          meta = take n_total_blks (tm_meta (ce_tx ce))
      in if length (tm_meta (ce_tx ce)) < n_total_blks then Inl Invalid_arg
         else case ckpt_pass1 env (js_disk s) meta of
           Inl e \<Rightarrow> Inl e
         | Inr (d1, ns1) \<Rightarrow>
             (case ckpt_pass2 (ce_start ce) jdb n_total_blks meta of
                Inl e \<Rightarrow> Inl e
              | Inr ns2 \<Rightarrow>
                  if \<not> (list_ex is_stage_trace_blk meta \<or> ns2 \<noteq> []) then Inl Assertion
                  else case coalesce_tags env d1 (ns1 @ ns2) of
                    Inl e \<Rightarrow> Inl e
                  | Inr d2 \<Rightarrow>
                      (case free_journal_space j (ce_start ce) (ce_size ce) of
                         Inl e \<Rightarrow> Inl e
                       | Inr j' \<Rightarrow>
                           Inr (sync_journal_sb jsb_baddr j'
                             (s\<lparr>js_disk := d2, js_log := (js_log s)(ce_df ce := j'),
                                js_sb := increase_journal_sb_tx_id (tm_tx_id (ce_tx ce)) (js_sb s)\<rparr>)))))"

definition do_checkpoint_coalesce :: "ckpt_env \<Rightarrow> baddr \<Rightarrow> jstate \<Rightarrow> ox_error + jstate" where
  "do_checkpoint_coalesce env jsb_baddr s =
     (case ckpt_list_dequeue (js_ckpt s) of
        None \<Rightarrow> Inr s
      | Some (ce, rest) \<Rightarrow> checkpoint_entry env jsb_baddr (s\<lparr>js_ckpt := rest\<rparr>) ce)"

section \<open>Specification\<close>

text \<open>The stage transactions a metadata area names, with their descriptor blocks; the inode
  a stage transaction writes; the data of each transaction.\<close>

definition stage_entries :: "ckpt_env \<Rightarrow> block disk \<Rightarrow> block list \<Rightarrow> (baddr \<times> block) list" where
  "stage_entries env d meta =
     concat (map (\<lambda>b. zip (stb_tx_list b) (read_stage_desc_blk env d b)) (filter is_stage_trace_blk meta))"

definition inode_patch :: "block disk \<Rightarrow> block \<Rightarrow> block disk" where
  "inode_patch d sdb = d(sdb_inode_baddr sdb :=
     copy_bytes (sdb_inode_size sdb) (inode_off sdb) (d (sdb_inode_baddr sdb)) 0 sdb)"

definition stage_etag_blks :: "ckpt_env \<Rightarrow> block disk \<Rightarrow> baddr \<times> block \<Rightarrow> block list" where
  "stage_etag_blks env d e =
     map d (wrap_range (stg_first env) (stg_last env) (Suc (fst e)) (sdb_nr_etag_blks (snd e)))"

definition stage_group :: "ckpt_env \<Rightarrow> block disk \<Rightarrow> baddr \<times> block \<Rightarrow> tx_group" where
  "stage_group env d e =
     (fst e + sdb_nr_etag_blks (snd e) + 1, True,
      sdb_tags (snd e) @ concat (map jetb_tags (stage_etag_blks env d e)))"

definition jnl_group :: "baddr \<Rightarrow> block \<Rightarrow> block list \<Rightarrow> tx_group" where
  "jnl_group start jdb meta =
     (start + 1, False, jdb_tags jdb @ concat (map jetb_tags (filter (Not \<circ> is_stage_trace_blk) meta)))"

definition tx_groups :: "ckpt_env \<Rightarrow> block disk \<Rightarrow> baddr \<Rightarrow> block \<Rightarrow> block list \<Rightarrow> tx_group list" where
  "tx_groups env d start jdb meta =
     map (stage_group env d) (filter (\<lambda>e. sdb_nr_tags (snd e) \<noteq> 0) (stage_entries env d meta)) @
     (if jdb_nr_tags jdb = 0 then [] else [jnl_group start jdb meta])"

text \<open>What the stage area and a committed transaction look like.\<close>

definition entry_ok :: "ckpt_env \<Rightarrow> block disk \<Rightarrow> baddr \<times> block \<Rightarrow> bool" where
  "entry_ok env d e \<longleftrightarrow>
     stg_first env \<le> fst e \<and> fst e \<le> stg_last env \<and>
     sdb_inode_baddr (snd e) \<notin> log_areas env \<and>
     inode_off (snd e) + sdb_inode_size (snd e) \<le> OXBOW_BLOCK_SIZE \<and>
     sdb_nr_tags (snd e) \<le> STAGE_DESC_BLK_TAG_MAX \<and>
     sdb_nr_etag_blks (snd e) \<le> area_size (stg_first env) (stg_last env) \<and>
     (sdb_nr_tags (snd e) = 0 \<longrightarrow> sdb_nr_etag_blks (snd e) = 0) \<and>
     (\<forall>b\<in>set (stage_etag_blks env d e). jmh_nr b \<le> JOURNAL_ETAG_MAX)"

definition meta_ok :: "block \<Rightarrow> block list \<Rightarrow> bool" where
  "meta_ok jdb meta \<longleftrightarrow>
     length meta = jdb_nr_etag_blks jdb + jdb_nr_stage_trace_blks jdb \<and> length meta < 2 ^ 32 - 1 \<and>
     jdb_nr_tags jdb \<le> JOURNAL_DESC_TAG_MAX \<and>
     (jdb_nr_tags jdb = 0 \<longrightarrow> jdb_nr_etag_blks jdb = 0 \<and> meta \<noteq> [] \<and> list_all is_stage_trace_blk meta) \<and>
     (\<forall>b\<in>set meta. if is_stage_trace_blk b then jmh_nr b \<le> JOURNAL_TRACE_MAX
                   else is_etag_blk b \<and> jmh_nr b \<le> JOURNAL_ETAG_MAX)"

text \<open>The disk after the checkpoint: the inodes of the stage transactions are patched, then
  every tag of every transaction is replayed.\<close>

definition checkpointed :: "ckpt_env \<Rightarrow> block disk \<Rightarrow> baddr \<Rightarrow> block \<Rightarrow> block list \<Rightarrow> block disk" where
  "checkpointed env d start jdb meta =
     replay env (tx_groups env d start jdb meta)
       (foldl inode_patch d (map snd (stage_entries env d meta)))"

text \<open>The log after the release of its \<open>n\<close> oldest blocks.\<close>

definition log_released :: "journal_log \<Rightarrow> nat \<Rightarrow> journal_log" where
  "log_released j n = j\<lparr>log_tail := advance_ptr j (log_tail j) n, n_free_blks := add64 (n_free_blks j) n\<rparr>"

section \<open>Lemmas\<close>

lemma read_etag_blocks_eq:
  assumes env: "env_ok env" and s: "stg_first env \<le> s" "s \<le> Suc (stg_last env)"
    and n: "0 < n" "n \<le> area_size (stg_first env) (stg_last env)"
  shows "read_etag_blocks env d n s = map d (wrap_range (stg_first env) (stg_last env) s n)"
proof -
  have e: "stg_first env \<le> stg_last env" "stg_last env < 2 ^ 63" "area_size (stg_first env) (stg_last env) < 2 ^ 32"
    using env [unfolded env_ok_def, rule_format, of True] by (simp_all add: area_lo_def area_hi_def)
  have w: "check_wrap_around_stage_tx env s n \<longleftrightarrow> Suc (stg_last env) < s + n"
    using e s n by (auto simp: check_wrap_around_stage_tx_def check_wrap_around_def c_arith)
  show ?thesis
  proof (cases "Suc (stg_last env) < s + n")
    case True
    let ?k = "Suc (stg_last env) - s"
    have k: "add64 (sub64 (stg_last env) s) 1 = ?k"
    proof (cases "s = Suc (stg_last env)")
      case True
      then have "stg_last env + 2 ^ 64 - Suc (stg_last env) = 2 ^ 64 - 1" by simp
      then show ?thesis using True e(2) by (simp add: add64_def sub64_def u64_def)
    next
      case False
      then show ?thesis using s e(2) by (simp add: c_arith Suc_diff_le)
    qed
    have kn: "?k \<le> n" "sub64 n ?k = n - ?k" "u32 ?k = ?k" "u32 (n - ?k) = n - ?k"
      using True s e n by (simp_all add: c_arith u32_def)
    have "s + ?k = stg_last env + 1" "?k = stg_last env + 1 - s" "s \<le> stg_last env + 1" using s by simp_all
    then have "wrap_range (stg_first env) (stg_last env) s n = [s..<s + ?k] @ [stg_first env..<stg_first env + (n - ?k)]"
      using wrap_range_wrapping [OF e(1) s(1) _ _ kn(1) n(2)] by metis
    then show ?thesis
      using True unfolding read_etag_blocks_def w Let_def k kn(2-4) by (simp only: if_True map_append)
  next
    case False
    then show ?thesis
      using wrap_range_straight [OF s(1), of n "stg_last env"] by (simp add: read_etag_blocks_def w)
  qed
qed

lemma entry_ok_stage_blk: "entry_ok env d e \<Longrightarrow> env_ok env \<Longrightarrow> stage_blk env (fst e) = fst e"
  by (auto simp: entry_ok_def stage_blk_def check_wrap_around_stage_tx_def check_wrap_around_def
      env_ok_def area_hi_def c_arith dest: spec [of _ True])

lemma inode_patch_other: "a \<noteq> sdb_inode_baddr sdb \<Longrightarrow> inode_patch d sdb a = d a"
  by (simp add: inode_patch_def)

text \<open>The extent tag blocks of a stage transaction, read after its inode is patched.\<close>

lemma stage_jebs:
  assumes env: "env_ok env" and e: "entry_ok env d0 (a, sdb)" and d: "\<forall>x\<in>log_areas env. d x = d0 x"
  shows "(if sdb_nr_etag_blks sdb > 0
      then read_etag_blocks env (inode_patch d sdb) (sdb_nr_etag_blks sdb) (add64 a 1) else []) =
      stage_etag_blks env d0 (a, sdb)"
    and "add64 (add64 a (sdb_nr_etag_blks sdb)) 1 = a + sdb_nr_etag_blks sdb + 1"
proof -
  let ?n = "sdb_nr_etag_blks sdb"
  have b: "stg_first env \<le> a" "a \<le> stg_last env" "?n \<le> area_size (stg_first env) (stg_last env)"
    using e by (simp_all add: entry_ok_def)
  have l: "stg_first env \<le> stg_last env" "stg_last env < 2 ^ 63" "area_size (stg_first env) (stg_last env) < 2 ^ 32"
    using env [unfolded env_ok_def, rule_format, of True] by (simp_all add: area_lo_def area_hi_def)
  show "add64 (add64 a ?n) 1 = a + ?n + 1" using b l by (simp add: c_arith)
  have arith: "add64 a 1 = Suc a" using b l by (simp add: c_arith)
  have "inode_patch d sdb x = d0 x" if "x \<in> log_areas env" for x
    using that e d by (auto simp: entry_ok_def inode_patch_def)
  then have "inode_patch d sdb x = d0 x" if "x \<in> set (wrap_range (stg_first env) (stg_last env) (Suc a) ?n)" for x
    using subsetD [OF set_wrap_range_subset [OF l(1)] that] by (simp add: log_areas_def)
  then show "(if ?n > 0 then read_etag_blocks env (inode_patch d sdb) ?n (add64 a 1) else []) =
      stage_etag_blks env d0 (a, sdb)"
    using read_etag_blocks_eq [OF env, of "Suc a" ?n "inode_patch d sdb"] b arith
    by (auto simp: stage_etag_blks_def wrap_range_def)
qed

lemma entry_ok_checkpoint_inode:
  "entry_ok env d0 (a, sdb) \<Longrightarrow> checkpoint_inode d sdb = Inr (inode_patch d sdb)"
  by (simp add: checkpoint_inode_def entry_ok_def inode_patch_def)

lemma entry_ok_counts:
  "entry_ok env d0 (a, sdb) \<Longrightarrow> \<not> (sdb_nr_tags sdb > STAGE_DESC_BLK_TAG_MAX \<or>
     list_ex (\<lambda>b. jmh_nr b > JOURNAL_ETAG_MAX) (stage_etag_blks env d0 (a, sdb)))"
  by (auto simp: entry_ok_def list_ex_iff not_less)

lemma ckpt_stage_entry_ok:
  assumes env: "env_ok env" and e: "entry_ok env d0 (a, sdb)" and d: "\<forall>x\<in>log_areas env. d x = d0 x"
  shows "ckpt_stage_entry env d a sdb = Inr (inode_patch d sdb,
    if sdb_nr_tags sdb = 0 then [] else group_nodes (stage_group env d0 (a, sdb)))"
proof (cases "sdb_nr_tags sdb = 0")
  case True
  then show ?thesis
    using e by (simp add: ckpt_stage_entry_def entry_ok_checkpoint_inode [OF e] entry_ok_def)
next
  case False
  then show ?thesis
    using entry_ok_counts [OF e]
    unfolding ckpt_stage_entry_def entry_ok_checkpoint_inode [OF e] sum.case Let_def stage_jebs [OF env e d]
    by (simp add: stage_group_def)
qed

lemma ckpt_stage_entries_ok:
  assumes env: "env_ok env" and es: "\<forall>e\<in>set es. entry_ok env d0 e" and d: "\<forall>x\<in>log_areas env. d x = d0 x"
  shows "ckpt_stage_entries env d es = Inr (foldl inode_patch d (map snd es),
    concat (map group_nodes (map (stage_group env d0) (filter (\<lambda>e. sdb_nr_tags (snd e) \<noteq> 0) es))))"
  using es d
proof (induction es arbitrary: d)
  case (Cons e es)
  obtain a sdb where [simp]: "e = (a, sdb)" by fastforce
  have "\<forall>x\<in>log_areas env. inode_patch d sdb x = d0 x"
    using Cons.prems by (auto simp: entry_ok_def inode_patch_def)
  then show ?case using Cons ckpt_stage_entry_ok [OF env, of d0 a sdb d] by simp
qed simp

lemma foldl_inode_patch_logs:
  assumes "\<forall>e\<in>set es. entry_ok env d0 e" "x \<in> log_areas env"
  shows "foldl inode_patch d (map snd es) x = d x"
  using assms by (induction es arbitrary: d) (auto simp: entry_ok_def inode_patch_def)

lemma read_stage_desc_blk_cong:
  assumes env: "env_ok env" and d: "\<forall>x\<in>log_areas env. d x = d0 x"
    and es: "\<forall>e\<in>set (zip (stb_tx_list b) (read_stage_desc_blk env d0 b)). entry_ok env d0 e"
  shows "read_stage_desc_blk env d b = read_stage_desc_blk env d0 b"
proof -
  have "d (stage_blk env a) = d0 (stage_blk env a)" if "a \<in> set (stb_tx_list b)" for a
  proof -
    have "(a, d0 (stage_blk env a)) \<in> set (zip (stb_tx_list b) (read_stage_desc_blk env d0 b))"
      using that by (force simp: read_stage_desc_blk_def set_zip in_set_conv_nth)
    then have e: "entry_ok env d0 (a, d0 (stage_blk env a))" using es by blast
    then have "a \<in> log_areas env" by (simp add: entry_ok_def log_areas_def)
    then show ?thesis using d entry_ok_stage_blk [OF e env] by simp
  qed
  then show ?thesis by (simp add: read_stage_desc_blk_def)
qed

lemma ckpt_pass1_ok:
  assumes env: "env_ok env" and es: "\<forall>e\<in>set (stage_entries env d0 meta). entry_ok env d0 e"
    and m: "\<forall>b\<in>set meta. is_stage_trace_blk b \<longrightarrow> jmh_nr b \<le> JOURNAL_TRACE_MAX"
    and d: "\<forall>x\<in>log_areas env. d x = d0 x"
  shows "ckpt_pass1 env d meta = Inr (foldl inode_patch d (map snd (stage_entries env d0 meta)),
    concat (map group_nodes (map (stage_group env d0)
      (filter (\<lambda>e. sdb_nr_tags (snd e) \<noteq> 0) (stage_entries env d0 meta)))))"
  using es m d
proof (induction meta arbitrary: d)
  case (Cons b bs)
  let ?es = "zip (stb_tx_list b) (read_stage_desc_blk env d0 b)"
  show ?case
  proof (cases "is_stage_trace_blk b")
    case True
    then have es: "\<forall>e\<in>set ?es. entry_ok env d0 e" "\<forall>e\<in>set (stage_entries env d0 bs). entry_ok env d0 e"
      using Cons.prems(1) by (auto simp: stage_entries_def)
    have "\<forall>x\<in>log_areas env. foldl inode_patch d (map snd ?es) x = d0 x"
      using foldl_inode_patch_logs [OF es(1)] Cons.prems(3) by simp
    then show ?thesis
      using True Cons.prems(2) Cons.IH [OF es(2)] ckpt_stage_entries_ok [OF env es(1) Cons.prems(3)]
        read_stage_desc_blk_cong [OF env Cons.prems(3) es(1)]
      by (simp add: stage_entries_def not_less)
  next
    case False
    then show ?thesis using Cons by (simp add: stage_entries_def)
  qed
qed (simp add: stage_entries_def)

lemma ckpt_pass2_blocks_ok:
  assumes "\<forall>b\<in>set meta. if is_stage_trace_blk b then jmh_nr b \<le> JOURNAL_TRACE_MAX
                   else is_etag_blk b \<and> jmh_nr b \<le> JOURNAL_ETAG_MAX"
  shows "ckpt_pass2_blocks meta = Inr (concat (map jetb_tags (filter (Not \<circ> is_stage_trace_blk) meta)))"
  using assms by (induction meta) (auto split: if_splits)


lemma free_journal_space_released:
  assumes "log_inv j" "start = log_tail j" "sz = n * OXBOW_BLOCK_SIZE" "n \<le> log_used j"
  shows "free_journal_space j start sz = Inr (log_released j n)"
proof -
  have "u32 n = n" using assms(4) log_invD [OF assms(1)] by (intro u32_id) (simp add: log_used_def)
  then show ?thesis by (simp add: free_journal_space_def log_released_def assms(2,3))
qed

lemma checkpoint_entry_eq:
  assumes j: "j = js_log s (ce_df ce)" "env = ce_env env0 j"
    and jdb: "jdb = tm_desc_blk (ce_tx ce)" "meta = tm_meta (ce_tx ce)" "meta_ok jdb meta"
    and es: "\<forall>e\<in>set (stage_entries env (js_disk s) meta). entry_ok env (js_disk s) e"
    and gs: "groups_ok env (tx_groups env (js_disk s) (ce_start ce) jdb meta)"
    and inv: "log_inv j" "ce_start ce = log_tail j" "ce_size ce = n * OXBOW_BLOCK_SIZE" "n \<le> log_used j"
  shows "checkpoint_entry env0 jsb s ce = Inr (sync_journal_sb jsb (log_released j n)
      (s\<lparr>js_disk := checkpointed env (js_disk s) (ce_start ce) jdb meta, js_log := (js_log s)(ce_df ce := (log_released j n)),
         js_sb := increase_journal_sb_tx_id (tm_tx_id (ce_tx ce)) (js_sb s)\<rparr>))"
proof -
  have env: "env_ok env" using gs by (simp add: groups_ok_def)
  let ?d1 = "foldl inode_patch (js_disk s) (map snd (stage_entries env (js_disk s) meta))"
  let ?g1 = "map (stage_group env (js_disk s)) (filter (\<lambda>e. sdb_nr_tags (snd e) \<noteq> 0) (stage_entries env (js_disk s) meta))"
  let ?g2 = "if jdb_nr_tags jdb = 0 then [] else [jnl_group (ce_start ce) jdb meta]"
  have m: "\<forall>b\<in>set meta. if is_stage_trace_blk b then jmh_nr b \<le> JOURNAL_TRACE_MAX
      else is_etag_blk b \<and> jmh_nr b \<le> JOURNAL_ETAG_MAX"
    and len: "length meta = jdb_nr_etag_blks jdb + jdb_nr_stage_trace_blks jdb" "length meta < 2 ^ 32 - 1"
    and tags: "jdb_nr_tags jdb \<le> JOURNAL_DESC_TAG_MAX"
    "jdb_nr_tags jdb = 0 \<longrightarrow> jdb_nr_etag_blks jdb = 0 \<and> meta \<noteq> [] \<and> list_all is_stage_trace_blk meta"
    using jdb(3) unfolding meta_ok_def by blast+
  have total: "add32 (jdb_nr_etag_blks jdb) (jdb_nr_stage_trace_blks jdb) = length meta"
    "add32 (length meta) 1 \<noteq> 0" using len by (simp_all add: c_arith)
  have p1: "ckpt_pass1 env (js_disk s) meta = Inr (?d1, concat (map group_nodes ?g1))"
    using m by (intro ckpt_pass1_ok [OF env es]) (auto split: if_splits)
  have start: "add64 (ce_start ce) 1 = ce_start ce + 1"
    using log_invD [OF inv(1)] inv(2) by (simp add: c_arith)
  have p2: "ckpt_pass2 (ce_start ce) jdb (length meta) meta = Inr (concat (map group_nodes ?g2))"
    using tags total(2) ckpt_pass2_blocks_ok [OF m] start by (auto simp: ckpt_pass2_def jnl_group_def)
  have ne: "list_ex is_stage_trace_blk meta \<or> concat (map group_nodes ?g2) \<noteq> []"
    using tags(2) by (cases meta) (auto simp: group_nodes_def jnl_group_def jdb_tags_def get_etags_def)
  have g: "tx_groups env (js_disk s) (ce_start ce) jdb meta = ?g1 @ ?g2" by (simp add: tx_groups_def)
  have p5: "coalesce_tags env ?d1 (concat (map group_nodes ?g1) @ concat (map group_nodes ?g2)) =
      Inr (checkpointed env (js_disk s) (ce_start ce) jdb meta)"
    using coalesce_tags_replay [OF gs, of ?d1] unfolding checkpointed_def g
    by (simp only: map_append concat_append)
  note f = free_journal_space_released [OF inv]
  show ?thesis
    unfolding checkpoint_entry_def Let_def jdb(1,2) [symmetric] j [symmetric] total(1)
    by (simp only: take_all [OF order_refl] order_refl less_irrefl if_False p1 sum.case prod.case p2 ne not_True_eq_False p5 f)
qed

lemma checkpoint_entry_ok:
  assumes j: "j = js_log s (ce_df ce)" "env = ce_env env0 j"
    and jdb: "jdb = tm_desc_blk (ce_tx ce)" "meta = tm_meta (ce_tx ce)" "meta_ok jdb meta"
    and es: "\<forall>e\<in>set (stage_entries env (js_disk s) meta). entry_ok env (js_disk s) e"
    and gs: "groups_ok env (tx_groups env (js_disk s) (ce_start ce) jdb meta)"
    and inv: "log_inv j" "ce_start ce = log_tail j" "ce_size ce = n * OXBOW_BLOCK_SIZE" "n \<le> log_used j"
  shows "\<exists>s'. checkpoint_entry env0 jsb s ce = Inr s' \<and>
    js_sb s' = set_jsb_start (log_tail (js_log s' (ce_df ce))) (set_jsb_tx_id (add32 (tm_tx_id (ce_tx ce)) 1) (js_sb s)) \<and>
    js_disk s' = (checkpointed env (js_disk s) (ce_start ce) jdb meta)(jsb := js_sb s') \<and>
    log_inv (js_log s' (ce_df ce)) \<and> log_live (js_log s' (ce_df ce)) = drop n (log_live j) \<and>
    (\<forall>df. df \<noteq> ce_df ce \<longrightarrow> js_log s' df = js_log s df) \<and>
    js_ckpt s' = js_ckpt s \<and> js_seqn s' = js_seqn s \<and> js_fetch s' = js_fetch s"
  using checkpoint_entry_eq [OF assms, of jsb] free_journal_space_inv(1,2) [OF inv(1,4) log_released_def]
  by (simp add: sync_journal_sb_def increase_journal_sb_tx_id_def Let_def)

section \<open>Properties\<close>

text \<open>C1.  The coalescing checkpoint.  For a ready transaction at the tail of its log, with
  well-formed metadata, \<^verbatim>\<open>do_checkpoint_coalesce\<close> succeeds.  The disk is then what the
  plain replay of all tags in order gives (the inodes of the stage transactions, the data of every
  stage transaction, then of the background transaction), apart from the superblock, which has
  the next transaction id and the new tail; the transaction's blocks are free, the other log and
  the rest of the checkpoint list are as before.\<close>

theorem do_checkpoint_coalesce_replays:
  assumes q: "js_ckpt s = ce # rest" "ce_ready ce"
    and j: "j = js_log s (ce_df ce)" "env = ce_env env0 j"
    and jdb: "jdb = tm_desc_blk (ce_tx ce)" "meta = tm_meta (ce_tx ce)" "meta_ok jdb meta"
    and es: "\<forall>e\<in>set (stage_entries env (js_disk s) meta). entry_ok env (js_disk s) e"
    and gs: "groups_ok env (tx_groups env (js_disk s) (ce_start ce) jdb meta)"
    and inv: "log_inv j" "ce_start ce = log_tail j" "ce_size ce = n * OXBOW_BLOCK_SIZE" "n \<le> log_used j"
  shows "\<exists>s'. do_checkpoint_coalesce env0 jsb s = Inr s' \<and>
    js_sb s' = set_jsb_start (log_tail (js_log s' (ce_df ce))) (set_jsb_tx_id (add32 (tm_tx_id (ce_tx ce)) 1) (js_sb s)) \<and>
    js_disk s' = (checkpointed env (js_disk s) (ce_start ce) jdb meta)(jsb := js_sb s') \<and>
    log_inv (js_log s' (ce_df ce)) \<and> log_live (js_log s' (ce_df ce)) = drop n (log_live j) \<and>
    (\<forall>df. df \<noteq> ce_df ce \<longrightarrow> js_log s' df = js_log s df) \<and> js_ckpt s' = rest"
  using checkpoint_entry_ok [of j "s\<lparr>js_ckpt := rest\<rparr>" ce env env0 jdb meta n jsb] assms
  by (auto simp: do_checkpoint_coalesce_def ckpt_list_dequeue_def)

definition zero_blk :: block where
  "zero_blk = (\<lambda>i. 0)"

lemma get_le_zero [simp]: "get_le n off zero_blk = 0"
  by (induction n arbitrary: off) (auto simp: zero_blk_def)

definition sdb_example :: block where
  "sdb_example = put_etag 300 0 (200, 2) (put_le 4 276 1 (put_le 8 284 50 (put_le 4 292 1 (put_le 4 296 128 zero_blk))))"

definition stb_example :: block where
  "stb_example = put_le 8 8 100 (put_le 4 4 1 (put_le 4 0 5 zero_blk))"

definition jdb_example :: block where
  "jdb_example = put_etag 24 0 (201, 1) (put_le 4 16 1 (put_le 4 12 1 (put_le 4 4 7 zero_blk)))"

definition ce_example :: ckpt_list_entry where
  "ce_example = \<lparr>ce_df = 0, ce_start = 10, ce_size = 5 * OXBOW_BLOCK_SIZE,
     ce_tx = \<lparr>tm_tx_id = 7, tm_desc_blk = jdb_example, tm_meta = [stb_example]\<rparr>, ce_ready = True\<rparr>"

definition ckpt_example :: jstate where
  "ckpt_example = \<lparr>js_sb = zero_blk,
     js_log = (\<lambda>i. \<lparr>df_id = i, log_first = 10, log_last = 19, log_head = 15, log_tail = 10, n_free_blks = 5\<rparr>),
     js_fetch = (\<lambda>i. \<lparr>req_cnt = 0, desc_blk_baddr = 0, total_log_size = 0\<rparr>), js_seqn = 7,
     js_ckpt = [ce_example], js_disk = (\<lambda>a. if a = 100 then sdb_example else (\<lambda>i. word_of_nat a))\<rparr>"

definition env_example :: ckpt_env where
  "env_example = \<lparr>stg_first = 100, stg_last = 119, jnl_first = 10, jnl_last = 19, max_buf = 1048576\<rparr>"

lemma sdb_example_fields:
  "sdb_nr_tags sdb_example = 1" "sdb_nr_etag_blks sdb_example = 0" "sdb_inode_baddr sdb_example = 50"
  "inode_off sdb_example = 128" "sdb_inode_size sdb_example = 128" "sdb_tags sdb_example = [(200, 2)]"
  by (simp_all add: sdb_example_def put_etag_def sizeof_etag_def inode_off_def u32_def sdb_tags_def
      get_etags_def get_etag_def sizeof_journal_stage_header_def)

lemma stb_example_fields:
  "jmh_nr stb_example = 1" "is_stage_trace_blk stb_example" "stb_tx_list stb_example = [100]"
  by (simp_all add: stb_example_def is_stage_trace_blk_def STAGE_TRACE_BLK_def stb_tx_list_def stb_tx_def
      sizeof_journal_meta_header_def)

lemma jdb_example_fields:
  "jdb_nr_tags jdb_example = 1" "jdb_nr_etag_blks jdb_example = 0" "jdb_nr_stage_trace_blks jdb_example = 1"
  "jdb_tags jdb_example = [(201, 1)]"
  by (simp_all add: jdb_example_def put_etag_def sizeof_etag_def jdb_tags_def get_etags_def get_etag_def
      sizeof_journal_descriptor_header_def)

lemma groups_example:
  "stage_entries env_example (js_disk ckpt_example) [stb_example] = [(100, sdb_example)]"
  "tx_groups env_example (js_disk ckpt_example) 10 jdb_example [stb_example] =
     [(101, True, [(200, 2)]), (11, False, [(201, 1)])]"
proof -
  show es: "stage_entries env_example (js_disk ckpt_example) [stb_example] = [(100, sdb_example)]"
    by (simp add: stage_entries_def read_stage_desc_blk_def stb_example_fields stage_blk_def
        check_wrap_around_stage_tx_def check_wrap_around_def env_example_def ckpt_example_def add64_def sub64_def u64_def)
  show "tx_groups env_example (js_disk ckpt_example) 10 jdb_example [stb_example] =
     [(101, True, [(200, 2)]), (11, False, [(201, 1)])]"
    by (simp add: tx_groups_def es stage_group_def stage_etag_blks_def jnl_group_def sdb_example_fields
        jdb_example_fields stb_example_fields wrap_range_def)
qed

lemma ckpt_example_ok:
  "meta_ok jdb_example [stb_example]" "entry_ok env_example (js_disk ckpt_example) (100, sdb_example)"
  "groups_ok env_example [(101, True, [(200, 2)]), (11, False, [(201, 1)])]" "log_inv (js_log ckpt_example 0)"
  "5 \<le> log_used (js_log ckpt_example 0)"
proof -
  show "meta_ok jdb_example [stb_example]"
    by (simp add: meta_ok_def jdb_example_fields stb_example_fields JOURNAL_DESC_TAG_MAX_def JOURNAL_TRACE_MAX_def
        sizeof_journal_descriptor_header_def sizeof_etag_def sizeof_journal_meta_header_def)
  show "entry_ok env_example (js_disk ckpt_example) (100, sdb_example)"
    by (simp add: entry_ok_def sdb_example_fields env_example_def log_areas_def OXBOW_BLOCK_SIZE_def
        STAGE_DESC_BLK_TAG_MAX_def sizeof_journal_stage_header_def sizeof_etag_def stage_etag_blks_def wrap_range_def)
  show "groups_ok env_example [(101, True, [(200, 2)]), (11, False, [(201, 1)])]"
    by (simp add: groups_ok_def env_ok_def group_ok_def tag_blocks_def env_example_def area_lo_def area_hi_def
        area_size_def INVALID_def log_areas_def) auto
  show "log_inv (js_log ckpt_example 0)" "5 \<le> log_used (js_log ckpt_example 0)"
    by (simp_all add: ckpt_example_def log_inv_def log_used_def log_cap_def area_size_def wrap_at_def)
qed

lemma checkpointed_example:
  "checkpointed env_example (js_disk ckpt_example) 10 jdb_example [stb_example] 200 = (\<lambda>i. 101)"
  "checkpointed env_example (js_disk ckpt_example) 10 jdb_example [stb_example] 201 = (\<lambda>i. 11)"
  "checkpointed env_example (js_disk ckpt_example) 10 jdb_example [stb_example] 202 = (\<lambda>i. 202)"
  unfolding checkpointed_def groups_example
  by (simp_all add: replay_def group_pairs_def tag_blocks_def upt_rec wrap_range_def
      wrap_at_def env_example_def area_lo_def area_hi_def area_size_def write_list_def inode_patch_def
      sdb_example_fields ckpt_example_def)

lemma ckpt_example_entry:
  "js_ckpt ckpt_example = ce_example # []" "ce_ready ce_example" "js_log ckpt_example 0 = js_log ckpt_example (ce_df ce_example)"
  "env_example = ce_env env_example (js_log ckpt_example 0)"
  "jdb_example = tm_desc_blk (ce_tx ce_example)" "[stb_example] = tm_meta (ce_tx ce_example)"
  "\<forall>e\<in>set (stage_entries env_example (js_disk ckpt_example) [stb_example]). entry_ok env_example (js_disk ckpt_example) e"
  "groups_ok env_example (tx_groups env_example (js_disk ckpt_example) (ce_start ce_example) jdb_example [stb_example])"
  "ce_start ce_example = log_tail (js_log ckpt_example 0)" "ce_size ce_example = 5 * OXBOW_BLOCK_SIZE" "ce_start ce_example = 10"
proof -
  show "\<forall>e\<in>set (stage_entries env_example (js_disk ckpt_example) [stb_example]). entry_ok env_example (js_disk ckpt_example) e"
    by (simp add: groups_example(1) ckpt_example_ok(2))
  show start: "ce_start ce_example = 10" by (simp add: ce_example_def)
  show "groups_ok env_example (tx_groups env_example (js_disk ckpt_example) (ce_start ce_example) jdb_example [stb_example])"
    unfolding start groups_example(2) by (rule ckpt_example_ok(3))
qed (simp_all add: ckpt_example_def ce_example_def env_example_def ce_env_def)

theorem do_checkpoint_coalesce_replays_witness:
  "\<exists>s'. do_checkpoint_coalesce env_example 5 ckpt_example = Inr s' \<and>
     js_disk s' 200 = (\<lambda>i. 101) \<and> js_disk s' 201 = (\<lambda>i. 11) \<and> js_disk s' 202 = (\<lambda>i. 202) \<and> js_ckpt s' = []"
  using do_checkpoint_coalesce_replays [OF ckpt_example_entry(1-6) ckpt_example_ok(1) ckpt_example_entry(7,8)
      ckpt_example_ok(4) ckpt_example_entry(9,10) ckpt_example_ok(5), of 5]
  by (auto simp: ckpt_example_entry(11) checkpointed_example)

end
