(* ===== verification/Ox_Ckpt_Plain.thy ===== *)
theory Ox_Ckpt_Plain
  imports Ox_Checkpoint
begin

text \<open>
  The checkpoint without coalescing (\<^verbatim>\<open>do_checkpoint\<close>, \<^verbatim>\<open>checkpoint_stage_trace_blk\<close>
  and \<^verbatim>\<open>checkpoint_stage_tx\<close> of \<^verbatim>\<open>devfs/src/journal.c\<close>, in the synchronous
  build), and its equivalence with the coalescing one.  The statistics counters
  are left out; where an assertion reads one, the model reads what it counts.
\<close>

section \<open>Copies\<close>

text \<open>The copies \<open>(dst, src, n)\<close> of a list of tags whose data start at \<open>cur\<close>: a tag whose data
  run past the end of the log area is split.\<close>

fun place_tags :: "baddr \<Rightarrow> baddr \<Rightarrow> baddr \<Rightarrow> etag list \<Rightarrow> (baddr \<times> baddr \<times> nat) list \<times> baddr" where
  "place_tags lo hi cur [] = ([], cur)"
| "place_tags lo hi cur ((dst, cnt) # tags) =
     (if check_wrap_around cur cnt hi
      then let n1 = u32 (add64 (sub64 hi cur) 1);
               n2 = sub32 cnt n1;
               (cs, cur') = place_tags lo hi (add64 lo n2) tags
           in ((dst, cur, n1) # (add64 dst n1, lo, n2) # cs, cur')
      else let (cs, cur') = place_tags lo hi (add64 cur cnt) tags
           in ((dst, cur, cnt) # cs, cur'))"

text \<open>The read requests fill the buffers; the write requests that follow write them.\<close>

definition read_copies :: "'b disk \<Rightarrow> (baddr \<times> baddr \<times> nat) list \<Rightarrow> (baddr \<times> 'b) list" where
  "read_copies d cs = concat (map (\<lambda>(dst, src, n). zip [dst..<dst + n] (map d [src..<src + n])) cs)"

section \<open>Stage transactions\<close>

definition checkpoint_stage_tx :: "ckpt_env \<Rightarrow> block disk \<Rightarrow> block \<Rightarrow> baddr \<Rightarrow> ox_error + block disk" where
  "checkpoint_stage_tx env d sdb stage_start =
     (case checkpoint_inode d sdb of
        Inl e \<Rightarrow> Inl e
      | Inr d1 \<Rightarrow>
          if sdb_nr_tags sdb = 0
          then (if sdb_nr_etag_blks sdb \<noteq> 0 then Inl Assertion else Inr d1)
          else let jebs = (if sdb_nr_etag_blks sdb > 0
                           then read_etag_blocks env d1 (sdb_nr_etag_blks sdb) (add64 stage_start 1) else []);
                   src_start_baddr = add64 (add64 stage_start (sdb_nr_etag_blks sdb)) 1
               in if sdb_nr_tags sdb > STAGE_DESC_BLK_TAG_MAX \<or> list_ex (\<lambda>b. jmh_nr b > JOURNAL_ETAG_MAX) jebs
                  then Inl Invalid_arg
                  else let cs = fst (place_tags (stg_first env) (stg_last env) src_start_baddr
                                       (sdb_tags sdb @ concat (map jetb_tags jebs)))
                       in Inr (write_list (read_copies d1 cs) d1))"

fun checkpoint_stage_txs :: "ckpt_env \<Rightarrow> block disk \<Rightarrow> (baddr \<times> block) list \<Rightarrow> ox_error + block disk" where
  "checkpoint_stage_txs env d [] = Inr d"
| "checkpoint_stage_txs env d ((stage_start, sdb) # es) =
     (case checkpoint_stage_tx env d sdb stage_start of
        Inl e \<Rightarrow> Inl e
      | Inr d1 \<Rightarrow> checkpoint_stage_txs env d1 es)"

definition checkpoint_stage_trace_blk :: "ckpt_env \<Rightarrow> block disk \<Rightarrow> block \<Rightarrow> ox_error + block disk" where
  "checkpoint_stage_trace_blk env d st_blk =
     (if jmh_nr st_blk > JOURNAL_TRACE_MAX then Inl Invalid_arg
      else checkpoint_stage_txs env d (zip (stb_tx_list st_blk) (read_stage_desc_blk env d st_blk)))"

section \<open>The background transaction\<close>

text \<open>The loop state: \<open>pl_pending\<close> is \<^verbatim>\<open>pending_desc_tags\<close>, \<open>pl_writes\<close> the write requests with
  their data, \<open>pl_bufs\<close> is \<^verbatim>\<open>buf_id\<close>, \<open>pl_stbs\<close> the stage trace blocks processed.\<close>

record plain_state =
  pl_disk :: "block disk"
  pl_src :: baddr
  pl_pending :: bool
  pl_writes :: "(baddr \<times> block) list"
  pl_bufs :: nat
  pl_stbs :: nat

definition plain_read :: "ckpt_env \<Rightarrow> etag list \<Rightarrow> plain_state \<Rightarrow> plain_state" where
  "plain_read env tags st =
     (let (cs, cur') = place_tags (jnl_first env) (jnl_last env) (pl_src st) tags
      in st\<lparr>pl_src := cur', pl_writes := pl_writes st @ read_copies (pl_disk st) cs,
            pl_bufs := Suc (pl_bufs st)\<rparr>)"

text \<open>The blocks after the descriptor block.  With no tags, the loop is left as soon as it
  would process a tag block.\<close>

fun plain_loop :: "ckpt_env \<Rightarrow> baddr \<Rightarrow> block \<Rightarrow> plain_state \<Rightarrow> block list \<Rightarrow> ox_error + plain_state" where
  "plain_loop env start jdb st [] = Inr st"
| "plain_loop env start jdb st (b # bs) =
     (if is_stage_trace_blk b
      then (case checkpoint_stage_trace_blk env (pl_disk st) b of
              Inl e \<Rightarrow> Inl e
            | Inr d \<Rightarrow>
                let st1 = st\<lparr>pl_disk := d, pl_stbs := Suc (pl_stbs st)\<rparr>
                in if pl_pending st
                   then (if jdb_nr_tags jdb = 0 then Inr (st1\<lparr>pl_src := add64 start 1\<rparr>)
                         else if jdb_nr_tags jdb > JOURNAL_DESC_TAG_MAX then Inl Invalid_arg
                         else plain_loop env start jdb
                                ((plain_read env (jdb_tags jdb) (st1\<lparr>pl_src := add64 start 1\<rparr>))\<lparr>pl_pending := False\<rparr>) bs)
                   else plain_loop env start jdb st1 bs)
      else if jdb_nr_tags jdb = 0 then Inr st
      else if \<not> is_etag_blk b then Inl Assertion
      else if jmh_nr b > JOURNAL_ETAG_MAX then Inl Invalid_arg
      else plain_loop env start jdb (plain_read env (jetb_tags b) st) bs)"

text \<open>The first iteration looks at the first metadata block, or, when there is none, at the
  memory after the buffer (\<open>beyond\<close>).\<close>

definition plain_first :: "ckpt_env \<Rightarrow> baddr \<Rightarrow> block \<Rightarrow> block list \<Rightarrow> block \<Rightarrow> plain_state \<Rightarrow> ox_error + plain_state" where
  "plain_first env start jdb meta beyond st =
     (if is_stage_trace_blk (hd (meta @ [beyond]))
      then plain_loop env start jdb (st\<lparr>pl_pending := True\<rparr>) meta
      else if jdb_nr_tags jdb = 0 then Inr st
      else if jdb_nr_tags jdb > JOURNAL_DESC_TAG_MAX then Inl Invalid_arg
      else plain_loop env start jdb (plain_read env (jdb_tags jdb) st) meta)"

definition plain_entry ::
  "ckpt_env \<Rightarrow> baddr \<Rightarrow> block \<Rightarrow> jstate \<Rightarrow> ckpt_list_entry \<Rightarrow> ox_error + jstate" where
  "plain_entry env0 jsb_baddr beyond s ce =
     (let j = js_log s (ce_df ce);
          env = ce_env env0 j;
          jdb = tm_desc_blk (ce_tx ce);
          n_data_bufs = (if jdb_nr_tags jdb = 0 then 0 else add32 (jdb_nr_etag_blks jdb) 1);
          n_total_blks = add32 (add32 (jdb_nr_etag_blks jdb) (jdb_nr_stage_trace_blks jdb)) 1;
          meta = take (n_total_blks - 1) (tm_meta (ce_tx ce));
          st = \<lparr>pl_disk = js_disk s, pl_src = add64 (ce_start ce) 1, pl_pending = False, pl_writes = [],
                pl_bufs = 0, pl_stbs = 0\<rparr>
      in if jdb_nr_tags jdb = 0 \<and> jdb_nr_etag_blks jdb \<noteq> 0 then Inl Assertion
         else if length (tm_meta (ce_tx ce)) < n_total_blks - 1 then Inl Invalid_arg
         else case (if n_total_blks = 0 then Inr st else plain_first env (ce_start ce) jdb meta beyond st) of
           Inl e \<Rightarrow> Inl e
         | Inr st1 \<Rightarrow>
             if pl_bufs st1 \<noteq> n_data_bufs then Inl Assertion
             else if pl_stbs st1 = 0 \<and> jdb_nr_tags jdb = 0 then Inl Assertion
             else (case free_journal_space j (ce_start ce) (ce_size ce) of
                     Inl e \<Rightarrow> Inl e
                   | Inr j' \<Rightarrow>
                       Inr (sync_journal_sb jsb_baddr j'
                         (s\<lparr>js_disk := write_list (pl_writes st1) (pl_disk st1),
                            js_log := (js_log s)(ce_df ce := j'),
                            js_sb := increase_journal_sb_tx_id (tm_tx_id (ce_tx ce)) (js_sb s)\<rparr>))))"

text \<open>The dequeued entry is dereferenced before it is compared with \<^verbatim>\<open>NULL\<close>.\<close>

definition do_checkpoint :: "ckpt_env \<Rightarrow> baddr \<Rightarrow> block \<Rightarrow> jstate \<Rightarrow> ox_error + jstate" where
  "do_checkpoint env jsb_baddr beyond s =
     (case ckpt_list_dequeue (js_ckpt s) of
        None \<Rightarrow> Inl Null_deref
      | Some (ce, rest) \<Rightarrow> plain_entry env jsb_baddr beyond (s\<lparr>js_ckpt := rest\<rparr>) ce)"

section \<open>The checkpoint thread\<close>

definition lower_journal_free_percent :: "jstate \<Rightarrow> nat" where
  "lower_journal_free_percent s = min (journal_free_percent (js_log s 0)) (journal_free_percent (js_log s 1))"

text \<open>\<^verbatim>\<open>start_checkpoint\<close>: checkpoints until the lower free percentage reaches the target.\<close>

fun start_checkpoint :: "nat \<Rightarrow> (jstate \<Rightarrow> ox_error + jstate) \<Rightarrow> nat \<Rightarrow> jstate \<Rightarrow> ox_error + jstate" where
  "start_checkpoint fuel ckpt target_perc s =
     (if lower_journal_free_percent s \<ge> target_perc then Inr s
      else case fuel of
        0 \<Rightarrow> Inl Blocked
      | Suc fuel' \<Rightarrow> (case ckpt s of Inl e \<Rightarrow> Inl e | Inr s' \<Rightarrow> start_checkpoint fuel' ckpt target_perc s'))"

section \<open>Lemmas: copies\<close>

lemma copy_writes_zip: "length xs = length ys \<Longrightarrow> copy_writes d (zip xs ys) = zip xs (map d ys)"
  by (induction xs ys rule: list_induct2) auto

lemma read_copies_simps [simp]:
  "read_copies d [] = []"
  "read_copies d ((dst, src, n) # cs) = zip [dst..<dst + n] (map d [src..<src + n]) @ read_copies d cs"
  by (simp_all add: read_copies_def)

lemma tag_blocks_Cons: "tag_blocks ((s, c) # tags) = [s..<s + c] @ tag_blocks tags"
  by (simp add: tag_blocks_def)

text \<open>One tag: its copies, and where its data end.\<close>

lemma place_tag:
  assumes lo: "0 < lo" "lo \<le> hi" "hi < 2 ^ 63" "area_size lo hi < 2 ^ 32"
    and cur: "lo \<le> cur" "cur \<le> Suc hi" and c: "c \<le> area_size lo hi" "s + c < 2 ^ 64"
  shows "\<exists>cs cur'. (\<forall>tags. place_tags lo hi cur ((s, c) # tags) =
      (cs @ fst (place_tags lo hi cur' tags), snd (place_tags lo hi cur' tags))) \<and>
    read_copies d cs = zip [s..<s + c] (map d (wrap_range lo hi cur c)) \<and> lo \<le> cur' \<and> cur' \<le> Suc hi \<and>
    (\<forall>m. wrap_range lo hi cur (c + m) = wrap_range lo hi cur c @ wrap_range lo hi cur' m)"
proof -
  have next_eq: "wrap_range lo hi cur (c + m) = wrap_range lo hi cur c @ wrap_range lo hi cur' m"
    if "lo \<le> cur'" "(cur' - lo) mod area_size lo hi = (cur - lo + c) mod area_size lo hi" for cur' m
  proof -
    let ?A = "area_size lo hi"
    have "wrap_at lo hi cur' i = wrap_at lo hi (wrap_at lo hi cur c) i" for i
    proof -
      have "(cur' - lo + i) mod ?A = ((cur' - lo) mod ?A + i) mod ?A" by (simp only: mod_add_left_eq)
      then show ?thesis by (simp add: wrap_at_def that(2))
    qed
    then show ?thesis by (simp add: wrap_range_append wrap_range_def [of _ _ cur'] wrap_range_def [of _ _ "wrap_at lo hi cur c"])
  qed
  show ?thesis
  proof (cases "Suc hi < cur + c")
    case True
    define n1 where "n1 = Suc hi - cur"
    have w: "check_wrap_around cur c hi" "u32 (add64 (sub64 hi cur) 1) = n1"
      "sub32 c n1 = c - n1" "add64 lo (c - n1) = lo + (c - n1)" "add64 s n1 = s + n1"
    proof -
      have n1: "n1 \<le> c" "n1 < 2 ^ 32" "c < 2 ^ 32" using True cur lo c by (simp_all add: n1_def area_size_def)
      show "check_wrap_around cur c hi" using True cur lo c by (auto simp: check_wrap_around_def c_arith)
      have "add64 (sub64 hi cur) 1 = n1"
      proof (cases "cur = Suc hi")
        case True
        then have "sub64 hi cur = 2 ^ 64 - 1" using lo(3) sub64_wraps [of hi cur] by simp
        then show ?thesis using True by (simp add: n1_def add64_def)
      next
        case False
        then show ?thesis using cur lo by (simp add: n1_def c_arith Suc_diff_le)
      qed
      then show "u32 (add64 (sub64 hi cur) 1) = n1" using n1(2) by (simp add: c_arith)
      show "sub32 c n1 = c - n1" "add64 lo (c - n1) = lo + (c - n1)" "add64 s n1 = s + n1"
        using n1 c lo by (simp_all add: c_arith)
    qed
    have r: "wrap_range lo hi cur c = [cur..<cur + n1] @ [lo..<lo + (c - n1)]"
      using wrap_range_wrapping [of lo hi cur n1 c] lo cur True c(1) by (simp add: n1_def del: upt_Suc)
    have "zip [s..<s + c] (map d (wrap_range lo hi cur c)) =
      zip [s..<s + n1] (map d [cur..<cur + n1]) @ zip [s + n1..<s + n1 + (c - n1)] (map d [lo..<lo + (c - n1)])"
    proof -
      have "[s..<s + c] = [s..<s + n1] @ [s + n1..<s + n1 + (c - n1)]"
        using True cur upt_add_eq_append [of s "s + n1" "c - n1"] by (simp add: n1_def)
      then show ?thesis by (simp add: r)
    qed
    moreover have "(lo + (c - n1) - lo) mod area_size lo hi = (cur - lo + c) mod area_size lo hi"
    proof -
      have "cur - lo + c = (c - n1) + area_size lo hi" using True cur lo by (simp add: n1_def area_size_def)
      then show ?thesis by simp
    qed
    moreover have "lo + (c - n1) \<le> Suc hi" using True cur c(1) lo by (simp add: n1_def area_size_def)
    ultimately show ?thesis
      using w next_eq [of "lo + (c - n1)"]
      by (intro exI [of _ "[(s, cur, n1), (s + n1, lo, c - n1)]"] exI [of _ "lo + (c - n1)"])
        (auto simp: split_beta Let_def)
  next
    case False
    have w: "\<not> check_wrap_around cur c hi" "add64 cur c = cur + c"
      using False lo cur by (auto simp: check_wrap_around_def c_arith)
    show ?thesis
      using w False next_eq [of "cur + c"] wrap_range_straight [of lo cur c hi] cur
      by (intro exI [of _ "[(s, cur, c)]"] exI [of _ "cur + c"]) (auto simp: split_beta)
  qed
qed

lemma place_tags_copies:
  assumes lo: "0 < lo" "lo \<le> hi" "hi < 2 ^ 63" "area_size lo hi < 2 ^ 32"
    and cur: "lo \<le> cur" "cur \<le> Suc hi" and len: "length (tag_blocks tags) \<le> area_size lo hi"
    and tags: "\<forall>(s, c)\<in>set tags. s + c < 2 ^ 64"
  shows "read_copies d (fst (place_tags lo hi cur tags)) =
      copy_writes d (zip (tag_blocks tags) (wrap_range lo hi cur (length (tag_blocks tags)))) \<and>
    lo \<le> snd (place_tags lo hi cur tags) \<and> snd (place_tags lo hi cur tags) \<le> Suc hi \<and>
    (\<forall>m. wrap_range lo hi cur (length (tag_blocks tags) + m) =
       wrap_range lo hi cur (length (tag_blocks tags)) @ wrap_range lo hi (snd (place_tags lo hi cur tags)) m)"
  using cur len tags
proof (induction tags arbitrary: cur)
  case Nil
  then show ?case by (simp add: tag_blocks_def wrap_range_def)
next
  case (Cons t tags)
  obtain s c where [simp]: "t = (s, c)" by fastforce
  obtain cs cur' where p: "\<And>tags. place_tags lo hi cur ((s, c) # tags) =
      (cs @ fst (place_tags lo hi cur' tags), snd (place_tags lo hi cur' tags))"
    "read_copies d cs = zip [s..<s + c] (map d (wrap_range lo hi cur c))" "lo \<le> cur'" "cur' \<le> Suc hi"
    "\<And>m. wrap_range lo hi cur (c + m) = wrap_range lo hi cur c @ wrap_range lo hi cur' m"
    using place_tag [OF lo Cons.prems(1,2), of c s d] Cons.prems(3,4) by (auto simp: tag_blocks_Cons)
  have IH: "read_copies d (fst (place_tags lo hi cur' tags)) =
      copy_writes d (zip (tag_blocks tags) (wrap_range lo hi cur' (length (tag_blocks tags)))) \<and>
    lo \<le> snd (place_tags lo hi cur' tags) \<and> snd (place_tags lo hi cur' tags) \<le> Suc hi \<and>
    (\<forall>m. wrap_range lo hi cur' (length (tag_blocks tags) + m) =
       wrap_range lo hi cur' (length (tag_blocks tags)) @ wrap_range lo hi (snd (place_tags lo hi cur' tags)) m)"
    using Cons.IH [OF p(3,4)] Cons.prems(3,4) by (simp add: tag_blocks_Cons)
  have "read_copies d (cs @ xs) = read_copies d cs @ read_copies d xs" for xs
    by (simp add: read_copies_def)
  then show ?case
    using IH p(1,2,5) by (simp add: tag_blocks_Cons copy_writes_zip add.assoc)
qed

section \<open>Lemmas: stage transactions\<close>

text \<open>What one stage transaction does to the disk; \<open>d0\<close> is the disk its log blocks are on.\<close>

definition stage_step :: "ckpt_env \<Rightarrow> block disk \<Rightarrow> block disk \<Rightarrow> baddr \<times> block \<Rightarrow> block disk" where
  "stage_step env d0 d e =
     (if sdb_nr_tags (snd e) = 0 then inode_patch d (snd e)
      else write_list (copy_writes d0 (group_pairs env (stage_group env d0 e))) (inode_patch d (snd e)))"

definition entry_group_ok :: "ckpt_env \<Rightarrow> block disk \<Rightarrow> baddr \<times> block \<Rightarrow> bool" where
  "entry_group_ok env d0 e \<longleftrightarrow> entry_ok env d0 e \<and>
     (sdb_nr_tags (snd e) \<noteq> 0 \<longrightarrow> group_ok env (stage_group env d0 e))"

lemma group_pairs_sets:
  assumes "env_ok env" "group_ok env grp"
  shows "snd ` set (group_pairs env grp) \<subseteq> log_areas env" "fst ` set (group_pairs env grp) \<inter> log_areas env = {}"
    "fst ` set (group_pairs env grp) \<subseteq> set (tag_blocks (snd (snd grp)))"
proof -
  obtain g st tags where [simp]: "grp = (g, st, tags)" by (cases grp) auto
  have "area_lo env st \<le> area_hi env st" using assms(1) by (simp add: env_ok_def)
  then have "set (wrap_range (area_lo env st) (area_hi env st) g n) \<subseteq> log_areas env" for n
    using set_wrap_range_subset [of "area_lo env st" "area_hi env st" g n]
    by (cases st) (auto simp: log_areas_def area_lo_def area_hi_def)
  then show "snd ` set (group_pairs env grp) \<subseteq> log_areas env"
    by (fastforce simp: group_pairs_def dest: set_zip_rightD)
  show f: "fst ` set (group_pairs env grp) \<subseteq> set (tag_blocks (snd (snd grp)))"
    by (auto simp: group_pairs_def dest: set_zip_leftD)
  show "fst ` set (group_pairs env grp) \<inter> log_areas env = {}"
    using f assms(2) by (auto simp: group_ok_def)
qed

lemma copy_writes_src_cong: "\<forall>a\<in>snd ` set ps. d a = d' a \<Longrightarrow> copy_writes d ps = copy_writes d' ps"
  by (auto simp: copy_writes_def)

lemma group_copies:
  assumes env: "env_ok env" "0 < area_lo env st" and g: "group_ok env (g, st, tags)"
    and d: "\<forall>x\<in>log_areas env. d x = d0 x"
  shows "read_copies d (fst (place_tags (area_lo env st) (area_hi env st) g tags)) =
    copy_writes d0 (group_pairs env (g, st, tags))"
proof -
  have e: "area_lo env st \<le> area_hi env st" "area_hi env st < 2 ^ 63" "area_size (area_lo env st) (area_hi env st) < 2 ^ 32"
    using env(1) by (simp_all add: env_ok_def)
  have t: "\<forall>(s, c)\<in>set tags. s + c < 2 ^ 64" using g by (fastforce simp: group_ok_def INVALID_def)
  have "read_copies d (fst (place_tags (area_lo env st) (area_hi env st) g tags)) =
      copy_writes d (group_pairs env (g, st, tags))"
    using place_tags_copies [OF env(2) e _ _ _ t, of g d] g by (simp add: group_ok_def group_pairs_def)
  also have "\<dots> = copy_writes d0 (group_pairs env (g, st, tags))"
    using group_pairs_sets(1) [OF env(1) g] d by (intro copy_writes_src_cong) blast
  finally show ?thesis .
qed

lemma checkpoint_stage_tx_ok:
  assumes env: "env_ok env" "0 < stg_first env" and e: "entry_group_ok env d0 (a, sdb)"
    and d: "\<forall>x\<in>log_areas env. d x = d0 x"
  shows "checkpoint_stage_tx env d sdb a = Inr (stage_step env d0 d (a, sdb))"
proof (cases "sdb_nr_tags sdb = 0")
  case True
  then show ?thesis
    using e by (simp add: checkpoint_stage_tx_def entry_group_ok_def entry_ok_checkpoint_inode [of env d0 a] entry_ok_def stage_step_def)
next
  case False
  have eo: "entry_ok env d0 (a, sdb)" and g: "group_ok env (stage_group env d0 (a, sdb))"
    using e False by (simp_all add: entry_group_ok_def)
  have "\<forall>x\<in>log_areas env. inode_patch d sdb x = d0 x"
    using eo d by (auto simp: entry_ok_def inode_patch_def)
  then have "read_copies (inode_patch d sdb) (fst (place_tags (stg_first env) (stg_last env) (a + sdb_nr_etag_blks sdb + 1)
      (sdb_tags sdb @ concat (map jetb_tags (stage_etag_blks env d0 (a, sdb)))))) =
      copy_writes d0 (group_pairs env (stage_group env d0 (a, sdb)))"
    using group_copies [OF env(1), of True] env(2) g by (simp add: area_lo_def area_hi_def stage_group_def)
  then show ?thesis
    using False entry_ok_counts [OF eo]
    unfolding checkpoint_stage_tx_def entry_ok_checkpoint_inode [OF eo] sum.case Let_def stage_jebs [OF env(1) eo d]
    by (simp add: stage_step_def)
qed

lemma stage_step_logs:
  assumes "env_ok env" "entry_group_ok env d0 e" "x \<in> log_areas env"
  shows "stage_step env d0 d e x = d x"
proof -
  have "inode_patch d (snd e) x = d x"
    using assms by (auto simp: entry_group_ok_def entry_ok_def inode_patch_def)
  moreover have "x \<notin> fst ` set (copy_writes d0 (group_pairs env (stage_group env d0 e)))" if "sdb_nr_tags (snd e) \<noteq> 0"
    using group_pairs_sets(2) [OF assms(1), of "stage_group env d0 e"] assms(2,3) that
    by (auto simp: entry_group_ok_def copy_writes_def)
  ultimately show ?thesis by (simp add: stage_step_def write_list_other)
qed

lemma foldl_stage_step_logs:
  assumes "env_ok env" "\<forall>e\<in>set es. entry_group_ok env d0 e" "x \<in> log_areas env"
  shows "foldl (stage_step env d0) d es x = d x"
  using assms(2) by (induction es arbitrary: d) (simp_all add: stage_step_logs assms(1,3))

lemma checkpoint_stage_txs_ok:
  assumes env: "env_ok env" "0 < stg_first env" and es: "\<forall>e\<in>set es. entry_group_ok env d0 e"
    and d: "\<forall>x\<in>log_areas env. d x = d0 x"
  shows "checkpoint_stage_txs env d es = Inr (foldl (stage_step env d0) d es)"
  using es d
proof (induction es arbitrary: d)
  case (Cons e es)
  obtain a sdb where [simp]: "e = (a, sdb)" by fastforce
  have "checkpoint_stage_tx env d sdb a = Inr (stage_step env d0 d e)"
    using checkpoint_stage_tx_ok [OF env, of d0 a sdb d] Cons.prems by simp
  then show ?case
    using Cons stage_step_logs [OF env(1), of d0 e] by simp
qed simp

lemma checkpoint_stage_trace_blk_ok:
  assumes env: "env_ok env" "0 < stg_first env"
    and es: "\<forall>e\<in>set (zip (stb_tx_list b) (read_stage_desc_blk env d0 b)). entry_group_ok env d0 e"
    and d: "\<forall>x\<in>log_areas env. d x = d0 x" and b: "jmh_nr b \<le> JOURNAL_TRACE_MAX"
  shows "checkpoint_stage_trace_blk env d b =
    Inr (foldl (stage_step env d0) d (zip (stb_tx_list b) (read_stage_desc_blk env d0 b)))"
proof -
  have "read_stage_desc_blk env d b = read_stage_desc_blk env d0 b"
    using es by (intro read_stage_desc_blk_cong [OF env(1) d]) (simp add: entry_group_ok_def)
  then show ?thesis
    using checkpoint_stage_txs_ok [OF env es d] b by (simp add: checkpoint_stage_trace_blk_def)
qed


text \<open>Inode writes and data writes of the stage transactions commute when no inode block is
  a data block.\<close>

lemma inode_patch_write_list:
  "sdb_inode_baddr sdb \<notin> fst ` set ws \<Longrightarrow> inode_patch (write_list ws d) sdb = write_list ws (inode_patch d sdb)"
proof (induction ws arbitrary: d)
  case (Cons w ws)
  have "inode_patch (d(fst w := snd w)) sdb = (inode_patch d sdb)(fst w := snd w)"
    using Cons.prems by (auto simp: inode_patch_def fun_upd_twist)
  then show ?case using Cons by (simp add: write_list_def)
qed (simp add: write_list_def)

lemma foldl_inode_patch_write_list:
  "\<forall>e\<in>set es. sdb_inode_baddr (snd e) \<notin> fst ` set ws \<Longrightarrow>
   foldl inode_patch (write_list ws d) (map snd es) = write_list ws (foldl inode_patch d (map snd es))"
  by (induction es arbitrary: d) (simp_all add: inode_patch_write_list)

definition inodes_apart :: "ckpt_env \<Rightarrow> block disk \<Rightarrow> (baddr \<times> block) list \<Rightarrow> bool" where
  "inodes_apart env d es \<longleftrightarrow>
     (\<forall>e\<in>set es. \<forall>e'\<in>set es. sdb_nr_tags (snd e') \<noteq> 0 \<longrightarrow>
        sdb_inode_baddr (snd e) \<notin> set (tag_blocks (snd (snd (stage_group env d e')))))"

lemma foldl_stage_step:
  assumes env: "env_ok env" and es: "\<forall>e\<in>set es. entry_group_ok env d0 e" and ap: "inodes_apart env d0 es"
  shows "foldl (stage_step env d0) d es =
    write_list (copy_writes d0 (concat (map (group_pairs env) (map (stage_group env d0)
      (filter (\<lambda>e. sdb_nr_tags (snd e) \<noteq> 0) es))))) (foldl inode_patch d (map snd es))"
  using es ap
proof (induction es arbitrary: d)
  case (Cons e es)
  let ?ws = "copy_writes d0 (group_pairs env (stage_group env d0 e))"
  have IH: "foldl (stage_step env d0) d' es =
    write_list (copy_writes d0 (concat (map (group_pairs env) (map (stage_group env d0)
      (filter (\<lambda>e. sdb_nr_tags (snd e) \<noteq> 0) es))))) (foldl inode_patch d' (map snd es))" for d'
    using Cons by (simp add: inodes_apart_def)
  show ?case
  proof (cases "sdb_nr_tags (snd e) = 0")
    case False
    have g: "group_ok env (stage_group env d0 e)" using Cons.prems(1) False by (simp add: entry_group_ok_def)
    have sub: "fst ` set ?ws \<subseteq> set (tag_blocks (snd (snd (stage_group env d0 e))))"
      using group_pairs_sets(3) [OF env g] by (simp add: copy_writes_def image_image split_beta)
    have "\<forall>e'\<in>set es. sdb_inode_baddr (snd e') \<notin> fst ` set ?ws"
    proof
      fix e' assume "e' \<in> set es"
      then have "sdb_inode_baddr (snd e') \<notin> set (tag_blocks (snd (snd (stage_group env d0 e))))"
        using Cons.prems(2) False by (simp add: inodes_apart_def)
      then show "sdb_inode_baddr (snd e') \<notin> fst ` set ?ws" using sub by blast
    qed
    then show ?thesis
      using False IH by (simp add: stage_step_def [of _ _ d] foldl_inode_patch_write_list write_list_append)
  qed (use IH in \<open>simp add: stage_step_def [of _ _ d]\<close>)
qed (simp add: write_list_def)


section \<open>Lemmas: the background transaction\<close>

definition etag_blk_tags :: "block list \<Rightarrow> etag list" where
  "etag_blk_tags bs = concat (map jetb_tags (filter (Not \<circ> is_stage_trace_blk) bs))"

definition jnl_writes :: "ckpt_env \<Rightarrow> 'b disk \<Rightarrow> baddr \<Rightarrow> etag list \<Rightarrow> (baddr \<times> 'b) list" where
  "jnl_writes env d cur tags =
     copy_writes d (zip (tag_blocks tags) (wrap_range (jnl_first env) (jnl_last env) cur (length (tag_blocks tags))))"

text \<open>The source of the next tag, in or right after the log area.\<close>

definition src_ok :: "ckpt_env \<Rightarrow> baddr \<Rightarrow> bool" where
  "src_ok env cur \<longleftrightarrow> jnl_first env \<le> cur \<and> cur \<le> Suc (jnl_last env)"

lemma plain_read_ok:
  assumes env: "env_ok env" "0 < jnl_first env" and src: "src_ok env (pl_src st)"
    and len: "length (tag_blocks tags) \<le> area_size (jnl_first env) (jnl_last env)"
    and tags: "\<forall>(s, c)\<in>set tags. s + c < 2 ^ 64" and d: "\<forall>x\<in>log_areas env. pl_disk st x = d0 x"
  shows "\<exists>cur'. plain_read env tags st =
      st\<lparr>pl_src := cur', pl_writes := pl_writes st @ jnl_writes env d0 (pl_src st) tags, pl_bufs := Suc (pl_bufs st)\<rparr> \<and>
    src_ok env cur' \<and>
    (\<forall>ts. jnl_writes env d0 (pl_src st) (tags @ ts) = jnl_writes env d0 (pl_src st) tags @ jnl_writes env d0 cur' ts)"
proof -
  let ?lo = "jnl_first env" let ?hi = "jnl_last env" let ?n = "length (tag_blocks tags)"
  have e: "?lo \<le> ?hi" "?hi < 2 ^ 63" "area_size ?lo ?hi < 2 ^ 32"
    using env(1) [unfolded env_ok_def, rule_format, of False] by (simp_all add: area_lo_def area_hi_def)
  obtain cs cur' where p: "place_tags ?lo ?hi (pl_src st) tags = (cs, cur')" by fastforce
  have c: "read_copies (pl_disk st) cs = jnl_writes env (pl_disk st) (pl_src st) tags" "src_ok env cur'"
    "wrap_range ?lo ?hi (pl_src st) (?n + m) = wrap_range ?lo ?hi (pl_src st) ?n @ wrap_range ?lo ?hi cur' m" for m
    using place_tags_copies [OF env(2) e, of "pl_src st" tags "pl_disk st"] src len tags p
    by (simp_all add: src_ok_def jnl_writes_def)
  have "set (wrap_range ?lo ?hi (pl_src st) ?n) \<subseteq> log_areas env"
    using set_wrap_range_subset [OF e(1)] by (fastforce simp: log_areas_def)
  then have "jnl_writes env (pl_disk st) (pl_src st) tags = jnl_writes env d0 (pl_src st) tags"
    unfolding jnl_writes_def using d by (intro copy_writes_src_cong) (fastforce dest: set_zip_rightD)
  then show ?thesis
    using p c by (auto simp: plain_read_def jnl_writes_def)
qed

lemma plain_loop_ok:
  assumes env: "env_ok env" "0 < jnl_first env" "0 < stg_first env" and jdb: "jdb_nr_tags jdb \<noteq> 0"
    and es: "\<forall>e\<in>set (stage_entries env d0 bs). entry_group_ok env d0 e"
    and bs: "\<forall>b\<in>set bs. if is_stage_trace_blk b then jmh_nr b \<le> JOURNAL_TRACE_MAX
                   else is_etag_blk b \<and> jmh_nr b \<le> JOURNAL_ETAG_MAX"
    and tags: "length (tag_blocks (etag_blk_tags bs)) \<le> area_size (jnl_first env) (jnl_last env)"
    "\<forall>(s, c)\<in>set (etag_blk_tags bs). s + c < 2 ^ 64"
    and st: "src_ok env (pl_src st)" "\<forall>x\<in>log_areas env. pl_disk st x = d0 x" "\<not> pl_pending st"
  shows "\<exists>st'. plain_loop env start jdb st bs = Inr st' \<and>
    pl_disk st' = foldl (stage_step env d0) (pl_disk st) (stage_entries env d0 bs) \<and>
    pl_writes st' = pl_writes st @ jnl_writes env d0 (pl_src st) (etag_blk_tags bs) \<and>
    pl_bufs st' = pl_bufs st + length (filter (Not \<circ> is_stage_trace_blk) bs) \<and>
    pl_stbs st' = pl_stbs st + length (filter is_stage_trace_blk bs)"
  using es bs tags st
proof (induction bs arbitrary: st)
  case Nil
  then show ?case by (simp add: stage_entries_def etag_blk_tags_def jnl_writes_def tag_blocks_def)
next
  case (Cons b bs)
  show ?case
  proof (cases "is_stage_trace_blk b")
    case True
    let ?es = "zip (stb_tx_list b) (read_stage_desc_blk env d0 b)"
    let ?d = "foldl (stage_step env d0) (pl_disk st) ?es"
    have es: "\<forall>e\<in>set ?es. entry_group_ok env d0 e" "\<forall>e\<in>set (stage_entries env d0 bs). entry_group_ok env d0 e"
      and ent: "stage_entries env d0 (b # bs) = ?es @ stage_entries env d0 bs"
      and t: "etag_blk_tags (b # bs) = etag_blk_tags bs"
      using Cons.prems(1) True by (auto simp: stage_entries_def etag_blk_tags_def)
    have "\<forall>x\<in>log_areas env. ?d x = d0 x"
      using foldl_stage_step_logs [OF env(1) es(1)] Cons.prems(6) by simp
    then show ?thesis
      using Cons.IH [OF es(2), of "st\<lparr>pl_disk := ?d, pl_stbs := Suc (pl_stbs st)\<rparr>"] Cons.prems True ent t
        checkpoint_stage_trace_blk_ok [OF env(1,3) es(1) Cons.prems(6)]
      by (simp add: Let_def)
  next
    case False
    have t: "etag_blk_tags (b # bs) = jetb_tags b @ etag_blk_tags bs"
      and ent: "stage_entries env d0 (b # bs) = stage_entries env d0 bs"
      using False by (simp_all add: etag_blk_tags_def stage_entries_def)
    obtain cur' where r: "plain_read env (jetb_tags b) st = st\<lparr>pl_src := cur', pl_writes := pl_writes st @
        jnl_writes env d0 (pl_src st) (jetb_tags b), pl_bufs := Suc (pl_bufs st)\<rparr>" "src_ok env cur'"
      "\<And>ts. jnl_writes env d0 (pl_src st) (jetb_tags b @ ts) =
         jnl_writes env d0 (pl_src st) (jetb_tags b) @ jnl_writes env d0 cur' ts"
      using plain_read_ok [OF env(1,2) Cons.prems(5), of "jetb_tags b" d0] Cons.prems(3,4,6) t by auto
    show ?thesis
      using Cons.IH [of "plain_read env (jetb_tags b) st"] Cons.prems False jdb r t ent by auto
  qed
qed

text \<open>What the plain checkpoint needs beyond what the coalescing one needs.\<close>

definition plain_ok :: "ckpt_env \<Rightarrow> block disk \<Rightarrow> block \<Rightarrow> block list \<Rightarrow> bool" where
  "plain_ok env d jdb meta \<longleftrightarrow> 0 < stg_first env \<and> 0 < jnl_first env \<and>
     length (filter is_stage_trace_blk meta) = jdb_nr_stage_trace_blks jdb \<and>
     (jdb_nr_tags jdb = 0 \<longrightarrow> length meta = 1) \<and> inodes_apart env d (stage_entries env d meta)"

lemma checkpointed_split:
  assumes gs: "groups_ok env (tx_groups env d start jdb meta)"
    and es: "\<forall>e\<in>set (stage_entries env d meta). entry_group_ok env d e"
    and ap: "inodes_apart env d (stage_entries env d meta)"
  shows "checkpointed env d start jdb meta =
    write_list (if jdb_nr_tags jdb = 0 then [] else jnl_writes env d (start + 1) (jdb_tags jdb @ etag_blk_tags meta))
      (foldl (stage_step env d) d (stage_entries env d meta))"
proof -
  let ?D = "foldl inode_patch d (map snd (stage_entries env d meta))"
  let ?gs = "tx_groups env d start jdb meta"
  have env: "env_ok env" using gs by (simp add: groups_ok_def)
  have "?D x = d x" if "x \<in> log_areas env" for x
    using foldl_inode_patch_logs [of "stage_entries env d meta" env d x d] es that by (simp add: entry_group_ok_def)
  moreover have "snd ` set (concat (map (group_pairs env) ?gs)) \<subseteq> log_areas env"
    using group_pairs_sets(1) [OF env] gs by (fastforce simp: groups_ok_def)
  ultimately have "copy_writes ?D (concat (map (group_pairs env) ?gs)) = copy_writes d (concat (map (group_pairs env) ?gs))"
    by (intro copy_writes_src_cong) blast
  then show ?thesis
    by (simp add: checkpointed_def replay_def tx_groups_def foldl_stage_step [OF env es ap] write_list_append
        jnl_group_def group_pairs_def jnl_writes_def etag_blk_tags_def area_lo_def area_hi_def)
qed

lemma plain_first_ok:
  assumes env: "env_ok env" and jdb: "meta_ok jdb meta" "plain_ok env d jdb meta" and b: "\<not> is_stage_trace_blk beyond"
    and es: "\<forall>e\<in>set (stage_entries env d meta). entry_group_ok env d e"
    and g: "jdb_nr_tags jdb \<noteq> 0 \<longrightarrow> group_ok env (jnl_group start jdb meta)"
    and st: "pl_disk st = d" "pl_src st = start + 1" "add64 start 1 = start + 1" "pl_writes st = []" "pl_bufs st = 0" "pl_stbs st = 0" "\<not> pl_pending st"
  shows "\<exists>st'. plain_first env start jdb meta beyond st = Inr st' \<and>
    pl_disk st' = foldl (stage_step env d) d (stage_entries env d meta) \<and>
    pl_writes st' = (if jdb_nr_tags jdb = 0 then [] else jnl_writes env d (start + 1) (jdb_tags jdb @ etag_blk_tags meta)) \<and>
    pl_bufs st' = (if jdb_nr_tags jdb = 0 then 0 else Suc (jdb_nr_etag_blks jdb)) \<and>
    (jdb_nr_tags jdb = 0 \<longrightarrow> pl_stbs st' > 0)"
proof -
  have bs: "\<forall>b\<in>set meta. if is_stage_trace_blk b then jmh_nr b \<le> JOURNAL_TRACE_MAX
      else is_etag_blk b \<and> jmh_nr b \<le> JOURNAL_ETAG_MAX"
    and m: "length meta = jdb_nr_etag_blks jdb + jdb_nr_stage_trace_blks jdb" "jdb_nr_tags jdb \<le> JOURNAL_DESC_TAG_MAX"
      "jdb_nr_tags jdb = 0 \<longrightarrow> list_all is_stage_trace_blk meta"
    using jdb(1) unfolding meta_ok_def by blast+
  have p: "0 < stg_first env" "0 < jnl_first env" "length (filter is_stage_trace_blk meta) = jdb_nr_stage_trace_blks jdb"
    "jdb_nr_tags jdb = 0 \<longrightarrow> length meta = 1"
    using jdb(2) by (auto simp: plain_ok_def)
  have d: "\<forall>x\<in>log_areas env. pl_disk st x = d x" by (simp add: st(1))
  show ?thesis
  proof (cases "jdb_nr_tags jdb = 0")
    case True
    then obtain b where b: "meta = [b]" "is_stage_trace_blk b" using p(4) m(3) by (auto simp: length_Suc_conv)
    then show ?thesis
      using True checkpoint_stage_trace_blk_ok [OF env p(1) _ d, of b] es bs st
      by (simp add: plain_first_def stage_entries_def)
  next
    case False
    have tags: "src_ok env (start + 1)" "length (tag_blocks (jdb_tags jdb @ etag_blk_tags meta)) \<le> area_size (jnl_first env) (jnl_last env)"
      "\<forall>(s, c)\<in>set (jdb_tags jdb). s + c < 2 ^ 64" "\<forall>(s, c)\<in>set (etag_blk_tags meta). s + c < 2 ^ 64"
    proof -
      have gk: "group_ok env (start + 1, False, jdb_tags jdb @ etag_blk_tags meta)"
        using g False by (simp add: jnl_group_def etag_blk_tags_def)
      then show "src_ok env (start + 1)"
        "length (tag_blocks (jdb_tags jdb @ etag_blk_tags meta)) \<le> area_size (jnl_first env) (jnl_last env)"
        by (simp_all add: group_ok_def src_ok_def area_lo_def area_hi_def)
      have "\<forall>(s, c)\<in>set (jdb_tags jdb @ etag_blk_tags meta). s + c < 2 ^ 64"
      proof clarify
        fix s c assume "(s, c) \<in> set (jdb_tags jdb @ etag_blk_tags meta)"
        then have "s + c < INVALID" using gk unfolding group_ok_def by blast
        then show "s + c < 2 ^ 64" by (simp add: INVALID_def)
      qed
      then show "\<forall>(s, c)\<in>set (jdb_tags jdb). s + c < 2 ^ 64" "\<forall>(s, c)\<in>set (etag_blk_tags meta). s + c < 2 ^ 64"
        by simp_all
    qed
    have nr: "length (filter (Not \<circ> is_stage_trace_blk) meta) = jdb_nr_etag_blks jdb"
      using sum_length_filter_compl [of is_stage_trace_blk meta] m(1) p(3) by (simp add: comp_def)
    have read: "\<exists>st'. plain_read env (jdb_tags jdb) u = st' \<and> src_ok env (pl_src st') \<and> pl_disk st' = pl_disk u \<and>
        pl_pending st' = pl_pending u \<and> pl_stbs st' = pl_stbs u \<and> pl_bufs st' = Suc (pl_bufs u) \<and>
        pl_writes st' @ jnl_writes env d (pl_src st') ts = pl_writes u @ jnl_writes env d (start + 1) (jdb_tags jdb @ ts)"
      if "pl_src u = start + 1" "\<forall>x\<in>log_areas env. pl_disk u x = d x" for u ts
      using plain_read_ok [OF env p(2), of u "jdb_tags jdb" d] that tags(1-3) by auto
    show ?thesis
    proof (cases "meta \<noteq> [] \<and> is_stage_trace_blk (hd meta)")
      case True
      then obtain x xs where x: "meta = x # xs" "is_stage_trace_blk x" by (cases meta) auto
      let ?es = "zip (stb_tx_list x) (read_stage_desc_blk env d x)"
      let ?d1 = "foldl (stage_step env d) d ?es"
      let ?u = "st\<lparr>pl_pending := True, pl_disk := ?d1, pl_stbs := 1, pl_src := start + 1\<rparr>"
      have e: "\<forall>e\<in>set ?es. entry_group_ok env d e" "\<forall>e\<in>set (stage_entries env d xs). entry_group_ok env d e"
        "stage_entries env d meta = ?es @ stage_entries env d xs" "etag_blk_tags meta = etag_blk_tags xs"
        using es x by (auto simp: stage_entries_def etag_blk_tags_def)
      have d1: "\<forall>y\<in>log_areas env. ?d1 y = d y" using foldl_stage_step_logs [OF env e(1)] by simp
      obtain r where r: "plain_read env (jdb_tags jdb) ?u = r" "src_ok env (pl_src r)" "pl_disk r = ?d1"
        "pl_bufs r = 1" "pl_writes r @ jnl_writes env d (pl_src r) (etag_blk_tags xs) =
          jnl_writes env d (start + 1) (jdb_tags jdb @ etag_blk_tags xs)"
        using read [of ?u "etag_blk_tags xs"] d1 st by auto
      have "plain_first env start jdb meta beyond st = plain_loop env start jdb (r\<lparr>pl_pending := False\<rparr>) xs"
        using x False m(2) bs st r(1) checkpoint_stage_trace_blk_ok [OF env p(1) e(1) d]
        by (simp add: plain_first_def Let_def)
      moreover obtain st' where "plain_loop env start jdb (r\<lparr>pl_pending := False\<rparr>) xs = Inr st'"
        "pl_disk st' = foldl (stage_step env d) ?d1 (stage_entries env d xs)"
        "pl_writes st' = pl_writes r @ jnl_writes env d (pl_src r) (etag_blk_tags xs)"
        "pl_bufs st' = 1 + length (filter (Not \<circ> is_stage_trace_blk) xs)"
        using plain_loop_ok [OF env p(2,1) False e(2), of "r\<lparr>pl_pending := False\<rparr>" start] bs x tags(2,4) e(4) r d1 by auto
      ultimately show ?thesis using False nr x r(5) e(3,4) by simp
    next
      case h: False
      obtain r where r: "plain_read env (jdb_tags jdb) st = r" "src_ok env (pl_src r)" "pl_disk r = d"
        "\<not> pl_pending r" "pl_bufs r = 1" "pl_writes r @ jnl_writes env d (pl_src r) (etag_blk_tags meta) =
          jnl_writes env d (start + 1) (jdb_tags jdb @ etag_blk_tags meta)"
        using read [of st "etag_blk_tags meta"] d st by auto
      have "plain_first env start jdb meta beyond st = plain_loop env start jdb r meta"
        using h False m(2) b r(1) by (cases meta) (auto simp: plain_first_def)
      moreover obtain st' where "plain_loop env start jdb r meta = Inr st'"
        "pl_disk st' = foldl (stage_step env d) d (stage_entries env d meta)"
        "pl_writes st' = pl_writes r @ jnl_writes env d (pl_src r) (etag_blk_tags meta)"
        "pl_bufs st' = 1 + length (filter (Not \<circ> is_stage_trace_blk) meta)"
        using plain_loop_ok [OF env p(2,1) False es, of r start] bs tags(2,4) r by auto
      ultimately show ?thesis using False nr r(6) by simp
    qed
  qed
qed


section \<open>Properties\<close>

text \<open>C17.  Where the plain checkpoint and the coalescing one give the same state: a ready
  transaction at the tail of its log, with well-formed metadata, for which
  \<^item> no log area starts at block 0, and the descriptor block counts the stage trace blocks right;
  \<^item> a transaction without tags has a single metadata block (C18 is the case of several);
  \<^item> the data of no stage transaction go to the inode block of a stage transaction, since the plain
    checkpoint writes data and inodes in turn and the coalescing one all inodes first
    (\<open>plain_ok\<close>);
  \<^item> the memory after the metadata buffer, which \<^verbatim>\<open>do_checkpoint\<close> reads when there is no
    metadata, does not look like a stage trace block.\<close>

theorem do_checkpoint_equiv:
  assumes q: "js_ckpt s = ce # rest" "ce_ready ce"
    and j: "j = js_log s (ce_df ce)" "env = ce_env env0 j"
    and jdb: "jdb = tm_desc_blk (ce_tx ce)" "meta = tm_meta (ce_tx ce)" "meta_ok jdb meta"
      "plain_ok env (js_disk s) jdb meta" "\<not> is_stage_trace_blk beyond"
    and es: "\<forall>e\<in>set (stage_entries env (js_disk s) meta). entry_ok env (js_disk s) e"
    and gs: "groups_ok env (tx_groups env (js_disk s) (ce_start ce) jdb meta)"
    and inv: "log_inv j" "ce_start ce = log_tail j" "ce_size ce = n * OXBOW_BLOCK_SIZE" "n \<le> log_used j"
  shows "do_checkpoint env0 jsb beyond s = do_checkpoint_coalesce env0 jsb s"
proof -
  let ?s = "s\<lparr>js_ckpt := rest\<rparr>"
  let ?st = "\<lparr>pl_disk = js_disk s, pl_src = add64 (ce_start ce) 1, pl_pending = False, pl_writes = [],
    pl_bufs = 0, pl_stbs = 0\<rparr>"
  have env: "env_ok env" using gs by (simp add: groups_ok_def)
  have len: "length meta = jdb_nr_etag_blks jdb + jdb_nr_stage_trace_blks jdb" "length meta < 2 ^ 32 - 1"
    "\<not> (jdb_nr_tags jdb = 0 \<and> jdb_nr_etag_blks jdb \<noteq> 0)"
    using jdb(3) by (auto simp: meta_ok_def)
  have total: "add32 (add32 (jdb_nr_etag_blks jdb) (jdb_nr_stage_trace_blks jdb)) 1 = Suc (length meta)"
    "add32 (jdb_nr_etag_blks jdb) 1 = Suc (jdb_nr_etag_blks jdb)"
    using len by (simp_all add: c_arith)
  have start: "add64 (ce_start ce) 1 = ce_start ce + 1" using log_invD [OF inv(1)] inv(2) by (simp add: c_arith)
  have eg: "\<forall>e\<in>set (stage_entries env (js_disk s) meta). entry_group_ok env (js_disk s) e"
    using es gs by (auto simp: entry_group_ok_def groups_ok_def tx_groups_def)
  have gj: "jdb_nr_tags jdb \<noteq> 0 \<longrightarrow> group_ok env (jnl_group (ce_start ce) jdb meta)"
    using gs by (auto simp: groups_ok_def tx_groups_def)
  obtain st' where st': "plain_first env (ce_start ce) jdb meta beyond ?st = Inr st'"
    "write_list (pl_writes st') (pl_disk st') = checkpointed env (js_disk s) (ce_start ce) jdb meta"
    "pl_bufs st' = (if jdb_nr_tags jdb = 0 then 0 else Suc (jdb_nr_etag_blks jdb))"
    "\<not> (pl_stbs st' = 0 \<and> jdb_nr_tags jdb = 0)"
    using plain_first_ok [OF env jdb(3-5) eg gj, of ?st] start checkpointed_split [OF gs eg] jdb(4)
    by (auto simp: plain_ok_def)
  have s: "js_log ?s (ce_df ce) = j" "js_disk ?s = js_disk s" by (simp_all add: j(1))
  have c: "checkpoint_entry env0 jsb ?s ce = Inr (sync_journal_sb jsb (log_released j n)
      (?s\<lparr>js_disk := checkpointed env (js_disk s) (ce_start ce) jdb meta, js_log := (js_log ?s)(ce_df ce := log_released j n),
         js_sb := increase_journal_sb_tx_id (tm_tx_id (ce_tx ce)) (js_sb ?s)\<rparr>))"
    using checkpoint_entry_eq [OF s(1) [symmetric] j(2) jdb(1-3) _ _ inv, of jsb] es gs by (simp add: s(2))
  have bufs: "\<not> pl_bufs st' \<noteq> (if jdb_nr_tags jdb = 0 then 0 else Suc (jdb_nr_etag_blks jdb))" using st'(3) by simp
  have "plain_entry env0 jsb beyond ?s ce = checkpoint_entry env0 jsb ?s ce"
    unfolding c plain_entry_def Let_def s j(2) [symmetric] jdb(1,2) [symmetric] total diff_Suc_1 if_not_P [OF len(3)]
    by (simp only: take_all [OF order_refl] less_irrefl if_False nat.distinct st'(1) sum.case if_not_P [OF bufs] if_not_P [OF st'(4)]
        free_journal_space_released [OF inv] st'(2))
  then show ?thesis
    using q by (simp add: do_checkpoint_def do_checkpoint_coalesce_def ckpt_list_dequeue_def)
qed

lemma plain_ok_example: "plain_ok env_example (js_disk ckpt_example) jdb_example [stb_example]"
  unfolding plain_ok_def inodes_apart_def groups_example(1)
  by (simp add: stb_example_fields jdb_example_fields stage_group_def stage_etag_blks_def sdb_example_fields
      wrap_range_def tag_blocks_def) (simp add: env_example_def)

theorem do_checkpoint_equiv_witness:
  "do_checkpoint env_example 5 zero_blk ckpt_example = do_checkpoint_coalesce env_example 5 ckpt_example"
proof -
  have z: "\<not> is_stage_trace_blk zero_blk" by (simp add: is_stage_trace_blk_def STAGE_TRACE_BLK_def)
  show ?thesis
    by (rule do_checkpoint_equiv [OF ckpt_example_entry(1-6) ckpt_example_ok(1) plain_ok_example z ckpt_example_entry(7,8)
      ckpt_example_ok(4) ckpt_example_entry(9,10) ckpt_example_ok(5)])
qed

text \<open>C18.  Lost stage transactions.  A transaction without tags and with several stage trace
  blocks: \<^verbatim>\<open>do_checkpoint\<close> replays only the stage transactions of the first stage trace
  block, and frees the log space of the whole transaction.\<close>

theorem do_checkpoint_skips_trace_blocks:
  assumes q: "js_ckpt s = ce # rest" "ce_ready ce"
    and j: "j = js_log s (ce_df ce)" "env = ce_env env0 j" "env_ok env" "0 < stg_first env"
    and jdb: "jdb = tm_desc_blk (ce_tx ce)" "tm_meta (ce_tx ce) = b # bs" "jdb_nr_tags jdb = 0" "jdb_nr_etag_blks jdb = 0"
      "jdb_nr_stage_trace_blks jdb = Suc (length bs)" "Suc (length bs) < 2 ^ 32 - 1"
    and b: "is_stage_trace_blk b" "jmh_nr b \<le> JOURNAL_TRACE_MAX"
    and es: "\<forall>e\<in>set (stage_entries env (js_disk s) [b]). entry_group_ok env (js_disk s) e"
    and inv: "log_inv j" "ce_start ce = log_tail j" "ce_size ce = n * OXBOW_BLOCK_SIZE" "n \<le> log_used j"
  shows "\<exists>s'. do_checkpoint env0 jsb beyond s = Inr s' \<and>
    js_disk s' = (foldl (stage_step env (js_disk s)) (js_disk s) (stage_entries env (js_disk s) [b]))(jsb := js_sb s') \<and>
    log_live (js_log s' (ce_df ce)) = drop n (log_live j) \<and> js_ckpt s' = rest"
proof -
  let ?es = "zip (stb_tx_list b) (read_stage_desc_blk env (js_disk s) b)"
  have e: "stage_entries env (js_disk s) [b] = ?es" using b(1) by (simp add: stage_entries_def)
  have t: "checkpoint_stage_trace_blk env (js_disk s) b = Inr (foldl (stage_step env (js_disk s)) (js_disk s) ?es)"
    using checkpoint_stage_trace_blk_ok [OF j(3,4) _ _ b(2), of "js_disk s" "js_disk s"] es e by simp
  have total: "add32 (add32 (jdb_nr_etag_blks jdb) (jdb_nr_stage_trace_blks jdb)) 1 = Suc (Suc (length bs))"
    using jdb(4-6) by (simp add: c_arith)
  show ?thesis
    using q t total jdb b free_journal_space_released [OF inv] free_journal_space_inv(2) [OF inv(1,4) log_released_def]
      j(2) [folded j(1)] e
    by (simp add: do_checkpoint_def ckpt_list_dequeue_def plain_entry_def Let_def plain_first_def sync_journal_sb_def j(1) [symmetric])
qed


definition stb2_example :: block where
  "stb2_example = put_le 8 8 110 (put_le 4 4 1 (put_le 4 0 5 zero_blk))"

definition jdb2_example :: block where
  "jdb2_example = put_le 4 12 2 (put_le 4 4 7 zero_blk)"

definition lost_example :: jstate where
  "lost_example = ckpt_example\<lparr>
     js_disk := (js_disk ckpt_example)(110 := put_etag 300 0 (300, 1) (put_le 4 276 1 (put_le 8 284 50 (put_le 4 296 128 zero_blk)))),
     js_ckpt := [ce_example\<lparr>ce_tx := \<lparr>tm_tx_id = 7, tm_desc_blk = jdb2_example, tm_meta = [stb_example, stb2_example]\<rparr>\<rparr>]\<rparr>"

lemma lost_example_entries:
  "stage_entries env_example (js_disk lost_example) [stb_example] = [(100, sdb_example)]"
  "entry_group_ok env_example (js_disk lost_example) (100, sdb_example)"
proof -
  show "stage_entries env_example (js_disk lost_example) [stb_example] = [(100, sdb_example)]"
    by (simp add: stage_entries_def read_stage_desc_blk_def stb_example_fields stage_blk_def lost_example_def
        check_wrap_around_stage_tx_def check_wrap_around_def env_example_def ckpt_example_def add64_def sub64_def u64_def)
  have g: "stage_group env_example (js_disk lost_example) (100, sdb_example) = (101, True, [(200, 2)])"
    by (simp add: stage_group_def stage_etag_blks_def sdb_example_fields wrap_range_def)
  have "stage_etag_blks env_example d (100, sdb_example) = []" for d
    by (simp add: stage_etag_blks_def sdb_example_fields wrap_range_def)
  then have "entry_ok env_example (js_disk lost_example) (100, sdb_example)"
    using ckpt_example_ok(2) by (simp add: entry_ok_def)
  then show "entry_group_ok env_example (js_disk lost_example) (100, sdb_example)"
    using ckpt_example_ok(3) g by (simp add: entry_group_ok_def groups_ok_def)
qed

theorem do_checkpoint_skips_trace_blocks_witness:
  "\<exists>s'. do_checkpoint env_example 5 zero_blk lost_example = Inr s' \<and>
     js_disk s' 200 = (\<lambda>i. 101) \<and> js_disk s' 300 = js_disk lost_example 300 \<and> js_ckpt s' = []"
proof -
  let ?ce = "ce_example\<lparr>ce_tx := \<lparr>tm_tx_id = 7, tm_desc_blk = jdb2_example, tm_meta = [stb_example, stb2_example]\<rparr>\<rparr>"
  have h: "js_ckpt lost_example = ?ce # []" "ce_ready ?ce" "js_log ckpt_example 0 = js_log lost_example (ce_df ?ce)"
    "env_example = ce_env env_example (js_log ckpt_example 0)" "env_ok env_example" "0 < stg_first env_example"
    "jdb2_example = tm_desc_blk (ce_tx ?ce)" "tm_meta (ce_tx ?ce) = stb_example # [stb2_example]"
    "jdb_nr_tags jdb2_example = 0" "jdb_nr_etag_blks jdb2_example = 0"
    "jdb_nr_stage_trace_blks jdb2_example = Suc (length [stb2_example])" "Suc (length [stb2_example]) < 2 ^ 32 - 1"
    "is_stage_trace_blk stb_example" "jmh_nr stb_example \<le> JOURNAL_TRACE_MAX"
    "ce_start ?ce = log_tail (js_log ckpt_example 0)" "ce_size ?ce = 5 * OXBOW_BLOCK_SIZE"
    using ckpt_example_ok(3)
    by (simp_all add: lost_example_def ce_example_def ckpt_example_def env_example_def ce_env_def jdb2_example_def
        stb_example_fields JOURNAL_TRACE_MAX_def sizeof_journal_meta_header_def groups_ok_def)
  have es: "\<forall>e\<in>set (stage_entries env_example (js_disk lost_example) [stb_example]). entry_group_ok env_example (js_disk lost_example) e"
    by (simp add: lost_example_entries)
  have step: "foldl (stage_step env_example (js_disk lost_example)) (js_disk lost_example)
      (stage_entries env_example (js_disk lost_example) [stb_example]) a =
      (if a = 200 then (\<lambda>i. 101) else js_disk lost_example 300)" if "a = 200 \<or> a = 300" for a
    using that unfolding lost_example_entries(1)
    by (auto simp: stage_step_def sdb_example_fields stage_group_def stage_etag_blks_def wrap_range_def group_pairs_def
        tag_blocks_def upt_rec wrap_at_def area_lo_def area_hi_def area_size_def write_list_def inode_patch_def
        env_example_def lost_example_def ckpt_example_def)
  show ?thesis
    using do_checkpoint_skips_trace_blocks [OF h(1-14) es ckpt_example_ok(4) h(15,16) ckpt_example_ok(5), of 5 zero_blk]
    by (auto simp: step)
qed

end
