(* ===== verification/Ox_Ring.thy ===== *)
theory Ox_Ring
  imports Ox_Fifo Ox_Prelude
begin

unbundle bit_operations_syntax

text \<open>
  The lock-free ring buffer of \<^verbatim>\<open>devfs/src/common/ring_buffer_mpmc.c\<close>, which
  carries read requests from the request threads to the NVMe threads.  The
  sequential operations are an interpretation of the queue interface; the
  interleaved ones are a step relation with one step per access to shared
  memory, and the theorem at the end is that every position is dequeued once
  and gives the element enqueued there.
\<close>

section \<open>The ring\<close>

record 'a ring_buffer_mpmc =
  rb_capacity :: nat
  rb_mask :: nat
  rb_seq :: "nat \<Rightarrow> nat"
  rb_value :: "nat \<Rightarrow> 'a"
  rb_enq :: nat
  rb_deq :: nat

definition is_power_of_two_size :: "nat \<Rightarrow> bool" where
  "is_power_of_two_size v = (v > 1 \<and> v AND (v - 1) = 0)"

text \<open>\<^verbatim>\<open>EINVAL\<close> is \<open>Invalid_arg\<close>, \<^verbatim>\<open>EAGAIN\<close> is \<open>Blocked\<close>.  The value of an unused slot is
  \<^verbatim>\<open>NULL\<close>.\<close>

definition ring_buffer_mpmc_create :: "'a \<Rightarrow> nat \<Rightarrow> ox_error + 'a ring_buffer_mpmc" where
  "ring_buffer_mpmc_create null capacity =
     (if \<not> is_power_of_two_size capacity then Inl Invalid_arg
      else Inr \<lparr>rb_capacity = capacity, rb_mask = capacity - 1, rb_seq = (\<lambda>i. i), rb_value = (\<lambda>i. null),
                rb_enq = 0, rb_deq = 0\<rparr>)"

definition rb_slot :: "'a ring_buffer_mpmc \<Rightarrow> nat \<Rightarrow> nat" where
  "rb_slot rb pos = pos AND rb_mask rb"

text \<open>The signed difference of two counters.\<close>

definition sdiff :: "nat \<Rightarrow> nat \<Rightarrow> int" where
  "sdiff a b = signed_take_bit 63 (int a - int b)"

section \<open>Sequential operations\<close>

text \<open>Without another thread the compare-and-swap succeeds, and the retry case (the slot ahead
  of the position) would loop forever: it is \<open>Assertion\<close>.\<close>

definition ring_buffer_mpmc_try_enqueue :: "'a ring_buffer_mpmc \<Rightarrow> 'a \<Rightarrow> ox_error + 'a ring_buffer_mpmc" where
  "ring_buffer_mpmc_try_enqueue rb elem =
     (let pos = rb_enq rb;
          i = rb_slot rb pos;
          diff = sdiff (rb_seq rb i) pos
      in if diff = 0
         then Inr (rb\<lparr>rb_enq := add64 pos 1, rb_value := (rb_value rb)(i := elem),
                      rb_seq := (rb_seq rb)(i := add64 pos 1)\<rparr>)
         else if diff < 0 then Inl Blocked
         else Inl Assertion)"

definition ring_buffer_mpmc_try_dequeue :: "'a ring_buffer_mpmc \<Rightarrow> ox_error + ('a \<times> 'a ring_buffer_mpmc)" where
  "ring_buffer_mpmc_try_dequeue rb =
     (let pos = rb_deq rb;
          i = rb_slot rb pos;
          diff = sdiff (rb_seq rb i) (add64 pos 1)
      in if diff = 0
         then Inr (rb_value rb i, rb\<lparr>rb_deq := add64 pos 1,
                      rb_seq := (rb_seq rb)(i := add64 pos (rb_capacity rb))\<rparr>)
         else if diff < 0 then Inl Blocked
         else Inl Assertion)"

definition ring_buffer_mpmc_count :: "'a ring_buffer_mpmc \<Rightarrow> nat" where
  "ring_buffer_mpmc_count rb = sub64 (rb_enq rb) (rb_deq rb)"

definition ring_buffer_mpmc_space :: "'a ring_buffer_mpmc \<Rightarrow> nat" where
  "ring_buffer_mpmc_space rb = sub64 (sub64 (rb_capacity rb) 1) (ring_buffer_mpmc_count rb)"

section \<open>Interleaved operations\<close>

text \<open>Where a thread is: \<open>EPos\<close> has loaded the position, \<open>ESeq\<close> the sequence number of the slot,
  \<open>EWon\<close> has advanced the position, \<open>EStored\<close> has stored the value; the same for a consumer.\<close>

datatype 'a ring_pc =
    Idle
  | EPos 'a nat | ESeq 'a nat nat | EWon 'a nat | EStored 'a nat
  | DPos nat | DSeq nat nat | DWon nat | DRead nat 'a

text \<open>The ring, the threads, and two logs: the elements in the order of the positions they
  were given, and the positions and values that dequeues returned.\<close>

record 'a ring_sys =
  rs_ring :: "'a ring_buffer_mpmc"
  rs_pc :: "nat \<Rightarrow> 'a ring_pc"
  rs_in :: "'a list"
  rs_out :: "(nat \<times> 'a) list"

definition set_pc :: "'a ring_sys \<Rightarrow> nat \<Rightarrow> 'a ring_pc \<Rightarrow> 'a ring_sys" where
  "set_pc s t pc = s\<lparr>rs_pc := (rs_pc s)(t := pc)\<rparr>"

definition store_seq :: "'a ring_sys \<Rightarrow> nat \<Rightarrow> nat \<Rightarrow> 'a ring_sys" where
  "store_seq s i v = s\<lparr>rs_ring := (rs_ring s)\<lparr>rb_seq := (rb_seq (rs_ring s))(i := v)\<rparr>\<rparr>"

inductive ring_step :: "'a ring_sys \<Rightarrow> 'a ring_sys \<Rightarrow> bool" where
  enq_load: "rs_pc s t = Idle \<Longrightarrow> ring_step s (set_pc s t (EPos e (rb_enq (rs_ring s))))"
| enq_seq: "rs_pc s t = EPos e pos \<Longrightarrow>
    ring_step s (set_pc s t (ESeq e pos (rb_seq (rs_ring s) (rb_slot (rs_ring s) pos))))"
| enq_cas: "rs_pc s t = ESeq e pos sq \<Longrightarrow> sdiff sq pos = 0 \<Longrightarrow> rb_enq (rs_ring s) = pos \<Longrightarrow>
    ring_step s (set_pc (s\<lparr>rs_ring := (rs_ring s)\<lparr>rb_enq := add64 pos 1\<rparr>, rs_in := rs_in s @ [e]\<rparr>) t (EWon e pos))"
| enq_retry: "rs_pc s t = ESeq e pos sq \<Longrightarrow> sdiff sq pos \<ge> 0 \<Longrightarrow>
    ring_step s (set_pc s t (EPos e (rb_enq (rs_ring s))))"
| enq_full: "rs_pc s t = ESeq e pos sq \<Longrightarrow> sdiff sq pos < 0 \<Longrightarrow> ring_step s (set_pc s t Idle)"
| enq_store: "rs_pc s t = EWon e pos \<Longrightarrow>
    ring_step s (set_pc (s\<lparr>rs_ring := (rs_ring s)
      \<lparr>rb_value := (rb_value (rs_ring s))(rb_slot (rs_ring s) pos := e)\<rparr>\<rparr>) t (EStored e pos))"
| enq_publish: "rs_pc s t = EStored e pos \<Longrightarrow>
    ring_step s (set_pc (store_seq s (rb_slot (rs_ring s) pos) (add64 pos 1)) t Idle)"
| deq_load: "rs_pc s t = Idle \<Longrightarrow> ring_step s (set_pc s t (DPos (rb_deq (rs_ring s))))"
| deq_seq: "rs_pc s t = DPos pos \<Longrightarrow>
    ring_step s (set_pc s t (DSeq pos (rb_seq (rs_ring s) (rb_slot (rs_ring s) pos))))"
| deq_cas: "rs_pc s t = DSeq pos sq \<Longrightarrow> sdiff sq (add64 pos 1) = 0 \<Longrightarrow> rb_deq (rs_ring s) = pos \<Longrightarrow>
    ring_step s (set_pc (s\<lparr>rs_ring := (rs_ring s)\<lparr>rb_deq := add64 pos 1\<rparr>\<rparr>) t (DWon pos))"
| deq_retry: "rs_pc s t = DSeq pos sq \<Longrightarrow> sdiff sq (add64 pos 1) \<ge> 0 \<Longrightarrow>
    ring_step s (set_pc s t (DPos (rb_deq (rs_ring s))))"
| deq_empty: "rs_pc s t = DSeq pos sq \<Longrightarrow> sdiff sq (add64 pos 1) < 0 \<Longrightarrow> ring_step s (set_pc s t Idle)"
| deq_read: "rs_pc s t = DWon pos \<Longrightarrow>
    ring_step s (set_pc s t (DRead pos (rb_value (rs_ring s) (rb_slot (rs_ring s) pos))))"
| deq_release: "rs_pc s t = DRead pos v \<Longrightarrow>
    ring_step s (set_pc ((store_seq s (rb_slot (rs_ring s) pos) (add64 pos (rb_capacity (rs_ring s))))
      \<lparr>rs_out := rs_out s @ [(pos, v)]\<rparr>) t Idle)"

definition ring_init :: "'a ring_buffer_mpmc \<Rightarrow> 'a ring_sys" where
  "ring_init rb = \<lparr>rs_ring = rb, rs_pc = (\<lambda>t. Idle), rs_in = [], rs_out = []\<rparr>"

text \<open>A run in which the positions stay below \<open>2 ^ 63\<close>.\<close>

definition ring_run :: "'a ring_sys \<Rightarrow> 'a ring_sys \<Rightarrow> bool" where
  "ring_run s s' \<longleftrightarrow> ring_step s s' \<and> rb_enq (rs_ring s) + rb_capacity (rs_ring s) + 1 < 2 ^ 63"

section \<open>Invariant\<close>

text \<open>The position a producer or a consumer has won.\<close>

fun e_pos :: "'a ring_pc \<Rightarrow> (nat \<times> 'a) option" where
  "e_pos (EWon e p) = Some (p, e)"
| "e_pos (EStored e p) = Some (p, e)"
| "e_pos _ = None"

fun d_pos :: "'a ring_pc \<Rightarrow> nat option" where
  "d_pos (DWon p) = Some p"
| "d_pos (DRead p v) = Some p"
| "d_pos _ = None"

definition ring_wf :: "'a ring_buffer_mpmc \<Rightarrow> bool" where
  "ring_wf rb \<longleftrightarrow> is_power_of_two_size (rb_capacity rb) \<and> rb_mask rb = rb_capacity rb - 1"

text \<open>The counters: at most \<open>rb_capacity\<close> positions are in use.\<close>

definition pos_inv :: "'a ring_sys \<Rightarrow> bool" where
  "pos_inv s \<longleftrightarrow> (let rb = rs_ring s in ring_wf rb \<and> rb_deq rb \<le> rb_enq rb \<and>
     rb_enq rb \<le> rb_deq rb + rb_capacity rb \<and> length (rs_in s) = rb_enq rb)"

text \<open>The slot of position \<open>q\<close>, one of the next \<open>rb_capacity\<close> positions to be given out: free for
  \<open>q\<close>, or still used for the position one round before, being written, full, or being read.\<close>

definition e_owned :: "'a ring_sys \<Rightarrow> nat set" where
  "e_owned s = {p. \<exists>t e. e_pos (rs_pc s t) = Some (p, e)}"

definition d_owned :: "'a ring_sys \<Rightarrow> nat set" where
  "d_owned s = {p. \<exists>t. d_pos (rs_pc s t) = Some p}"

definition slot_inv :: "'a ring_sys \<Rightarrow> nat \<Rightarrow> bool" where
  "slot_inv s q \<longleftrightarrow> (let rb = rs_ring s; i = rb_slot rb q; c = rb_capacity rb in
     rb_seq rb i = q \<and> q < rb_deq rb + c \<and> (\<forall>p\<in>d_owned s. p + c \<noteq> q) \<or>
     (c \<le> q \<and> (rb_seq rb i = q - c \<and> rb_deq rb + c \<le> q \<and> q - c \<in> e_owned s \<or>
       rb_seq rb i = q - c + 1 \<and> rb_value rb i = rs_in s ! (q - c) \<and>
       (rb_deq rb + c \<le> q \<or> q - c \<in> d_owned s))))"

definition slots_inv :: "'a ring_sys \<Rightarrow> bool" where
  "slots_inv s \<longleftrightarrow> (\<forall>q. rb_enq (rs_ring s) \<le> q \<longrightarrow> q < rb_enq (rs_ring s) + rb_capacity (rs_ring s) \<longrightarrow> slot_inv s q)"

fun pc_inv :: "'a ring_buffer_mpmc \<Rightarrow> 'a list \<Rightarrow> 'a ring_pc \<Rightarrow> bool" where
  "pc_inv rb ins Idle \<longleftrightarrow> True"
| "pc_inv rb ins (EPos e p) \<longleftrightarrow> p \<le> rb_enq rb"
| "pc_inv rb ins (ESeq e p q) \<longleftrightarrow> p \<le> rb_enq rb \<and> q \<le> rb_seq rb (rb_slot rb p)"
| "pc_inv rb ins (EWon e p) \<longleftrightarrow> p < rb_enq rb \<and> rb_enq rb \<le> p + rb_capacity rb \<and> rb_deq rb \<le> p \<and>
     rb_seq rb (rb_slot rb p) = p \<and> ins ! p = e"
| "pc_inv rb ins (EStored e p) \<longleftrightarrow> p < rb_enq rb \<and> rb_enq rb \<le> p + rb_capacity rb \<and> rb_deq rb \<le> p \<and>
     rb_seq rb (rb_slot rb p) = p \<and> ins ! p = e \<and> rb_value rb (rb_slot rb p) = e"
| "pc_inv rb ins (DPos p) \<longleftrightarrow> p \<le> rb_deq rb"
| "pc_inv rb ins (DSeq p q) \<longleftrightarrow> p \<le> rb_deq rb \<and> q \<le> rb_seq rb (rb_slot rb p)"
| "pc_inv rb ins (DWon p) \<longleftrightarrow> p < rb_deq rb \<and> rb_enq rb \<le> p + rb_capacity rb \<and>
     rb_seq rb (rb_slot rb p) = p + 1 \<and> rb_value rb (rb_slot rb p) = ins ! p"
| "pc_inv rb ins (DRead p v) \<longleftrightarrow> p < rb_deq rb \<and> rb_enq rb \<le> p + rb_capacity rb \<and>
     rb_seq rb (rb_slot rb p) = p + 1 \<and> v = ins ! p"

text \<open>A position is won once, and returned once.\<close>

definition owner_inv :: "'a ring_sys \<Rightarrow> bool" where
  "owner_inv s \<longleftrightarrow>
     (\<forall>t t' p e e'. e_pos (rs_pc s t) = Some (p, e) \<longrightarrow> e_pos (rs_pc s t') = Some (p, e') \<longrightarrow> t = t') \<and>
     (\<forall>t t' p. d_pos (rs_pc s t) = Some p \<longrightarrow> d_pos (rs_pc s t') = Some p \<longrightarrow> t = t') \<and>
     (\<forall>t p. d_pos (rs_pc s t) = Some p \<longrightarrow> p \<notin> fst ` set (rs_out s)) \<and>
     distinct (map fst (rs_out s)) \<and>
     (\<forall>(p, v)\<in>set (rs_out s). p < rb_deq (rs_ring s) \<and> v = rs_in s ! p)"

definition ring_inv :: "'a ring_sys \<Rightarrow> bool" where
  "ring_inv s \<longleftrightarrow> pos_inv s \<and> slots_inv s \<and> (\<forall>t. pc_inv (rs_ring s) (rs_in s) (rs_pc s t)) \<and> owner_inv s"

section \<open>Lemmas\<close>

lemma sdiff_small: "a < 2 ^ 63 \<Longrightarrow> b < 2 ^ 63 \<Longrightarrow> sdiff a b = int a - int b"
  unfolding sdiff_def by (rule signed_take_bit_int_eq_self) auto

lemma power_of_two: "is_power_of_two_size v \<Longrightarrow> \<exists>k. v = 2 ^ k"
proof (induction v rule: less_induct)
  case (less v)
  have v: "v > 1" "v AND (v - 1) = 0" using less.prems by (simp_all add: is_power_of_two_size_def)
  have r: "v AND (v - 1) = of_bool (odd v \<and> odd (v - 1)) + 2 * ((v div 2) AND ((v - 1) div 2))"
    by (rule and_rec)
  show ?case
  proof (cases "even v")
    case False
    then have "(v - 1) div 2 = v div 2" "v div 2 > 0" using v(1) by presburger+
    then show ?thesis using r v(2) by simp
  next
    case True
    then have h: "(v - 1) div 2 = v div 2 - 1" "v = 2 * (v div 2)" using v(1) by presburger+
    show ?thesis
    proof (cases "v div 2 = 1")
      case True
      then show ?thesis using h(2) by (intro exI [of _ 1]) simp
    next
      case False
      then have "is_power_of_two_size (v div 2)" using r h v by (auto simp: is_power_of_two_size_def)
      then obtain k where "v div 2 = 2 ^ k" using less.IH [of "v div 2"] v(1) by auto
      then show ?thesis using h(2) by (intro exI [of _ "Suc k"]) simp
    qed
  qed
qed

lemma rb_slot_mod:
  assumes "ring_wf rb"
  shows "rb_slot rb p = p mod rb_capacity rb"
proof -
  obtain k where "rb_capacity rb = 2 ^ k" using assms power_of_two by (auto simp: ring_wf_def)
  then show ?thesis
    using assms by (simp add: ring_wf_def rb_slot_def take_bit_eq_mod flip: take_bit_eq_mask) (metis One_nat_def mask_eq_exp_minus_1 take_bit_eq_mask take_bit_eq_mod)
qed

lemma ring_wf_cap: "ring_wf rb \<Longrightarrow> 1 < rb_capacity rb"
  by (simp add: ring_wf_def is_power_of_two_size_def)

text \<open>Two positions less than a round apart have different slots.\<close>

lemma mod_window: "a mod c = b mod c \<Longrightarrow> m \<le> a \<Longrightarrow> a < m + c \<Longrightarrow> m \<le> b \<Longrightarrow> b < m + c \<Longrightarrow> a = (b :: nat)"
proof (induction a b rule: linorder_wlog)
  case (le a b)
  then have "c dvd b - a" using mod_eq_dvd_iff_nat [of a b c] by simp
  moreover have "b - a < c" using le by simp
  ultimately show ?case using le(1) by (auto dest: dvd_imp_le)
qed simp

lemma mod_rep:
  assumes "0 < (c :: nat)"
  shows "\<exists>q. m \<le> q \<and> q < m + c \<and> q mod c = p mod c"
proof -
  let ?r = "(p mod c + (c - m mod c)) mod c"
  have "m = m div c * c + m mod c" by (rule div_mult_mod_eq [symmetric])
  then have "m + (p mod c + (c - m mod c)) = p mod c + (m div c * c + c)"
    using mod_less_divisor [OF assms, of m] by linarith
  then have "m + (p mod c + (c - m mod c)) = p mod c + (m div c + 1) * c" by simp
  then have "(m + ?r) mod c = (p mod c + (m div c + 1) * c) mod c" by (simp only: mod_add_right_eq)
  also have "\<dots> = p mod c" by (simp only: mod_mult_self1 mod_mod_trivial)
  finally show ?thesis using assms by (intro exI [of _ "m + ?r"]) simp
qed

lemma slot_other:
  assumes "ring_wf rb" "p < n" "n \<le> p + rb_capacity rb" "p' < n" "n \<le> p' + rb_capacity rb" "p \<noteq> p'"
  shows "rb_slot rb p' \<noteq> rb_slot rb p"
proof -
  let ?c = "rb_capacity rb"
  have "n - ?c \<le> p" "p < n - ?c + ?c" "n - ?c \<le> p'" "p' < n - ?c + ?c" using assms by arith+
  then show ?thesis using mod_window [of p ?c p' "n - ?c"] assms by (auto simp: rb_slot_mod)
qed

lemma slot_window:
  assumes "ring_wf rb" "p < n" "n \<le> p + rb_capacity rb" "n \<le> q" "q < n + rb_capacity rb" "q \<noteq> p + rb_capacity rb"
  shows "rb_slot rb q \<noteq> rb_slot rb p"
  using mod_window [of q "rb_capacity rb" "p + rb_capacity rb" n] assms by (auto simp: rb_slot_mod)

lemma slot_round: "ring_wf rb \<Longrightarrow> rb_slot rb (p + rb_capacity rb) = rb_slot rb p"
  by (simp add: rb_slot_mod)

lemma rb_slot_update [simp]:
  "rb_slot (rb\<lparr>rb_enq := x\<rparr>) = rb_slot rb" "rb_slot (rb\<lparr>rb_deq := x\<rparr>) = rb_slot rb"
  "rb_slot (rb\<lparr>rb_seq := f\<rparr>) = rb_slot rb" "rb_slot (rb\<lparr>rb_value := g\<rparr>) = rb_slot rb"
  by (simp_all add: rb_slot_def fun_eq_iff)

lemma ring_wf_update [simp]:
  "ring_wf (rb\<lparr>rb_enq := x\<rparr>) = ring_wf rb" "ring_wf (rb\<lparr>rb_deq := x\<rparr>) = ring_wf rb"
  "ring_wf (rb\<lparr>rb_seq := f\<rparr>) = ring_wf rb" "ring_wf (rb\<lparr>rb_value := g\<rparr>) = ring_wf rb"
  by (simp_all add: ring_wf_def)

text \<open>Steps that change neither the ring nor what threads have won.\<close>

lemma quiet_step:
  assumes inv: "ring_inv s" and old: "e_pos (rs_pc s t) = None" "d_pos (rs_pc s t) = None"
    and new: "e_pos pc = None" "d_pos pc = None" and ok: "pc_inv (rs_ring s) (rs_in s) pc"
  shows "ring_inv (set_pc s t pc)"
proof -
  have own: "e_pos (rs_pc (set_pc s t pc) t') = e_pos (rs_pc s t')" "d_pos (rs_pc (set_pc s t pc) t') = d_pos (rs_pc s t')" for t'
    using old new by (auto simp: set_pc_def)
  have r: "rs_ring (set_pc s t pc) = rs_ring s" "rs_in (set_pc s t pc) = rs_in s" "rs_out (set_pc s t pc) = rs_out s"
    by (simp_all add: set_pc_def)
  have "slot_inv (set_pc s t pc) q = slot_inv s q" for q
    unfolding slot_inv_def e_owned_def d_owned_def Let_def r own ..
  moreover have "pc_inv (rs_ring s) (rs_in s) (rs_pc (set_pc s t pc) t')" for t'
    using ok inv by (cases "t' = t") (simp_all add: ring_inv_def set_pc_def)
  moreover have "owner_inv (set_pc s t pc) = owner_inv s"
    unfolding owner_inv_def r own ..
  moreover have "pos_inv (set_pc s t pc)" using inv by (simp add: ring_inv_def pos_inv_def r)
  ultimately show ?thesis using inv by (simp add: ring_inv_def slots_inv_def r)
qed

lemma ring_invD:
  assumes "ring_inv s"
  shows "ring_wf (rs_ring s)" "rb_deq (rs_ring s) \<le> rb_enq (rs_ring s)"
    "rb_enq (rs_ring s) \<le> rb_deq (rs_ring s) + rb_capacity (rs_ring s)" "length (rs_in s) = rb_enq (rs_ring s)"
    "pc_inv (rs_ring s) (rs_in s) (rs_pc s t)" "1 < rb_capacity (rs_ring s)"
    "rb_enq (rs_ring s) \<le> q \<Longrightarrow> q < rb_enq (rs_ring s) + rb_capacity (rs_ring s) \<Longrightarrow> slot_inv s q" "owner_inv s"
  using assms ring_wf_cap [of "rs_ring s"] by (auto simp: ring_inv_def pos_inv_def slots_inv_def Let_def)

text \<open>The sequence numbers of all slots.\<close>

lemma seq_bound:
  assumes "ring_inv s"
  shows "rb_seq (rs_ring s) (rb_slot (rs_ring s) p) < rb_enq (rs_ring s) + rb_capacity (rs_ring s)"
proof -
  let ?rb = "rs_ring s"
  obtain q where q: "rb_enq ?rb \<le> q" "q < rb_enq ?rb + rb_capacity ?rb" "q mod rb_capacity ?rb = p mod rb_capacity ?rb"
    using mod_rep ring_invD(6) [OF assms] by (metis gr_implies_not0 not_gr_zero)
  then have "slot_inv s q" "rb_slot ?rb p = rb_slot ?rb q"
    using ring_invD(1,7) [OF assms] by (simp_all add: rb_slot_mod)
  then show ?thesis using q ring_invD(6) [OF assms] by (auto simp: slot_inv_def Let_def)
qed


text \<open>The steps that advance a position or hand over a slot.\<close>

lemma own_update:
  assumes "rs_pc s' = (rs_pc s)(t := pc)"
  shows "e_pos (rs_pc s t) = None \<Longrightarrow> e_pos pc = Some (p, e) \<Longrightarrow> e_owned s' = insert p (e_owned s)"
    and "d_pos (rs_pc s t) = None \<Longrightarrow> d_pos pc = Some p \<Longrightarrow> d_owned s' = insert p (d_owned s)"
    and "e_pos (rs_pc s t) = e_pos pc \<Longrightarrow> e_owned s' = e_owned s"
    and "d_pos (rs_pc s t) = d_pos pc \<Longrightarrow> d_owned s' = d_owned s"
    and "owner_inv s \<Longrightarrow> e_pos (rs_pc s t) = Some (p, e) \<Longrightarrow> e_pos pc = None \<Longrightarrow> e_owned s' = e_owned s - {p}"
    and "owner_inv s \<Longrightarrow> d_pos (rs_pc s t) = Some p \<Longrightarrow> d_pos pc = None \<Longrightarrow> d_owned s' = d_owned s - {p}"
proof -
  have upd: "e_owned s' = {p. \<exists>e. e_pos pc = Some (p, e)} \<union> {p. \<exists>t' e. t' \<noteq> t \<and> e_pos (rs_pc s t') = Some (p, e)}"
    "d_owned s' = {p. d_pos pc = Some p} \<union> {p. \<exists>t'. t' \<noteq> t \<and> d_pos (rs_pc s t') = Some p}"
    using assms by (auto simp: e_owned_def d_owned_def split: if_splits)
  have old: "e_owned s = {p. \<exists>e. e_pos (rs_pc s t) = Some (p, e)} \<union> {p. \<exists>t' e. t' \<noteq> t \<and> e_pos (rs_pc s t') = Some (p, e)}"
    "d_owned s = {p. d_pos (rs_pc s t) = Some p} \<union> {p. \<exists>t'. t' \<noteq> t \<and> d_pos (rs_pc s t') = Some p}"
    unfolding e_owned_def d_owned_def by (rule set_eqI; simp; metis)+
  show "e_pos (rs_pc s t) = None \<Longrightarrow> e_pos pc = Some (p, e) \<Longrightarrow> e_owned s' = insert p (e_owned s)"
    "d_pos (rs_pc s t) = None \<Longrightarrow> d_pos pc = Some p \<Longrightarrow> d_owned s' = insert p (d_owned s)"
    "e_pos (rs_pc s t) = e_pos pc \<Longrightarrow> e_owned s' = e_owned s"
    "d_pos (rs_pc s t) = d_pos pc \<Longrightarrow> d_owned s' = d_owned s"
    unfolding upd old by auto
  show "e_owned s' = e_owned s - {p}" if "owner_inv s" "e_pos (rs_pc s t) = Some (p, e)" "e_pos pc = None"
    unfolding upd old using that by (auto simp: owner_inv_def)
  show "d_owned s' = d_owned s - {p}" if "owner_inv s" "d_pos (rs_pc s t) = Some p" "d_pos pc = None"
    unfolding upd old using that by (auto simp: owner_inv_def)
qed

lemma owner_step:
  assumes own: "owner_inv s" and pc: "rs_pc s' = (rs_pc s)(t := pc)"
    and e: "\<And>p x t' y. e_pos pc = Some (p, x) \<Longrightarrow> t' \<noteq> t \<Longrightarrow> e_pos (rs_pc s t') \<noteq> Some (p, y)"
    and d: "\<And>p t'. d_pos pc = Some p \<Longrightarrow> t' \<noteq> t \<Longrightarrow> d_pos (rs_pc s t') \<noteq> Some p"
    and out: "\<And>p. d_pos pc = Some p \<Longrightarrow> p \<notin> fst ` set (rs_out s')"
    and out': "\<And>t' p. t' \<noteq> t \<Longrightarrow> d_pos (rs_pc s t') = Some p \<Longrightarrow> p \<notin> fst ` set (rs_out s')"
    and res: "distinct (map fst (rs_out s'))" "\<forall>(p, v)\<in>set (rs_out s'). p < rb_deq (rs_ring s') \<and> v = rs_in s' ! p"
  shows "owner_inv s'"
proof -
  have o: "e_pos (rs_pc s t1) = Some (p, x) \<Longrightarrow> e_pos (rs_pc s t2) = Some (p, y) \<Longrightarrow> t1 = t2"
    "d_pos (rs_pc s t1) = Some p \<Longrightarrow> d_pos (rs_pc s t2) = Some p \<Longrightarrow> t1 = t2" for t1 t2 p x y
    using own by (auto simp: owner_inv_def)
  have "t1 = t2" if "e_pos (rs_pc s' t1) = Some (p, x)" "e_pos (rs_pc s' t2) = Some (p, y)" for t1 t2 p x y
    using that e [of p] o(1) [of t1 p x t2 y] by (cases "t1 = t"; cases "t2 = t") (auto simp: pc)
  moreover have "t1 = t2" if "d_pos (rs_pc s' t1) = Some p" "d_pos (rs_pc s' t2) = Some p" for t1 t2 p
    using that d [of p] o(2) [of t1 p t2] by (cases "t1 = t"; cases "t2 = t") (auto simp: pc)
  moreover have "p \<notin> fst ` set (rs_out s')" if "d_pos (rs_pc s' t1) = Some p" for t1 p
    using that out [of p] out' [of t1 p] by (auto simp: pc split: if_splits)
  ultimately show ?thesis using res unfolding owner_inv_def by blast
qed

lemma owner_invD:
  assumes "owner_inv s"
  shows "e_pos (rs_pc s t) = Some (p, x) \<Longrightarrow> t' \<noteq> t \<Longrightarrow> e_pos (rs_pc s t') \<noteq> Some (p, y)"
    "d_pos (rs_pc s t) = Some p \<Longrightarrow> t' \<noteq> t \<Longrightarrow> d_pos (rs_pc s t') \<noteq> Some p"
    "d_pos (rs_pc s t) = Some p \<Longrightarrow> p \<notin> fst ` set (rs_out s)" "distinct (map fst (rs_out s))"
    "\<forall>(p, v)\<in>set (rs_out s). p < rb_deq (rs_ring s) \<and> v = rs_in s ! p"
proof -
  note o = assms [unfolded owner_inv_def]
  show "e_pos (rs_pc s t) = Some (p, x) \<Longrightarrow> t' \<noteq> t \<Longrightarrow> e_pos (rs_pc s t') \<noteq> Some (p, y)"
    using conjunct1 [OF o] by metis
  show "d_pos (rs_pc s t) = Some p \<Longrightarrow> t' \<noteq> t \<Longrightarrow> d_pos (rs_pc s t') \<noteq> Some p"
    using conjunct1 [OF conjunct2 [OF o]] by metis
qed (use assms in \<open>simp_all add: owner_inv_def\<close>)

text \<open>A change of the slot of a position that is in use does not touch the other threads.\<close>

lemma pc_inv_frame:
  assumes wf: "ring_wf rb" and pos: "pos < rb_enq rb" "rb_enq rb \<le> pos + rb_capacity rb" "rb_deq rb \<le> rb_enq rb"
    and rb': "rb_enq rb' = rb_enq rb" "rb_deq rb' = rb_deq rb" "rb_capacity rb' = rb_capacity rb" "rb_slot rb' = rb_slot rb"
      "\<And>j. j \<noteq> rb_slot rb pos \<Longrightarrow> rb_seq rb' j = rb_seq rb j \<and> rb_value rb' j = rb_value rb j"
      "rb_seq rb (rb_slot rb pos) \<le> rb_seq rb' (rb_slot rb pos)"
    and pc: "pc_inv rb ins pc" "\<And>y. e_pos pc \<noteq> Some (pos, y)" "d_pos pc \<noteq> Some pos"
  shows "pc_inv rb' ins pc"
proof -
  have seq: "rb_seq rb (rb_slot rb p) \<le> rb_seq rb' (rb_slot rb p)" for p
    using rb'(5,6) by (cases "rb_slot rb p = rb_slot rb pos") simp_all
  have other: "rb_seq rb' (rb_slot rb p) = rb_seq rb (rb_slot rb p)" "rb_value rb' (rb_slot rb p) = rb_value rb (rb_slot rb p)"
    if "p < rb_enq rb" "rb_enq rb \<le> p + rb_capacity rb" "p \<noteq> pos" for p
    using rb'(5) slot_other [OF wf pos(1,2) that(1,2)] that(3) by auto
  have ne: "p \<noteq> pos" if "e_pos pc = Some (p, y)" for p y using pc(2) that by auto
  show ?thesis
    using pc(1,3) ne pos(3) other seq rb'(1-4) by (cases pc) (auto intro: order_trans)
qed

lemma enq_cas_inv:
  assumes inv: "ring_inv s" and pc: "rs_pc s t = ESeq e pos sq" and sq: "sdiff sq pos = 0" "rb_enq (rs_ring s) = pos"
    and bnd: "rb_enq (rs_ring s) + rb_capacity (rs_ring s) + 1 < 2 ^ 63"
    and s': "s' = set_pc (s\<lparr>rs_ring := (rs_ring s)\<lparr>rb_enq := add64 pos 1\<rparr>, rs_in := rs_in s @ [e]\<rparr>) t (EWon e pos)"
  shows "ring_inv s'"
proof -
  let ?rb = "rs_ring s" let ?c = "rb_capacity (rs_ring s)"
  note i = ring_invD [OF inv]
  have p: "sq \<le> rb_seq ?rb (rb_slot ?rb pos)" using i(5) [of t] pc by simp
  have "sq < 2 ^ 63" using p seq_bound [OF inv, of pos] bnd by simp
  then have "sq = pos" using sq bnd by (simp add: sdiff_small)
  moreover have sl: "slot_inv s pos" using i(7) [of pos] i(6) sq(2) by simp
  ultimately have free: "rb_seq ?rb (rb_slot ?rb pos) = pos" "pos < rb_deq ?rb + ?c"
    "\<forall>p\<in>d_owned s. p + ?c \<noteq> pos"
    using p i(6) by (auto simp: slot_inv_def Let_def)
  have a: "add64 pos 1 = Suc pos" using bnd sq(2) by (simp add: c_arith)
  have pcs: "pc_inv ?rb (rs_in s) (rs_pc s t')" for t' using i(5) .
  have pc': "rs_pc s' = (rs_pc s)(t := EWon e pos)" by (simp add: s' set_pc_def)
  have own: "e_owned s' = insert pos (e_owned s)" "d_owned s' = d_owned s"
    using own_update [OF pc'] pc by simp_all
  have r: "rs_ring s' = ?rb\<lparr>rb_enq := Suc pos\<rparr>" "rs_in s' = rs_in s @ [e]" "rs_out s' = rs_out s"
    by (simp_all add: s' set_pc_def a [simplified])
  have "slot_inv s' q" if q: "Suc pos \<le> q" "q < Suc pos + ?c" for q
  proof (cases "q = pos + ?c")
    case True
    then show ?thesis
      unfolding slot_inv_def Let_def r own using i(2,6) sq(2) free slot_round [OF i(1), of pos] by auto
  next
    case False
    then have "slot_inv s q" "q - ?c < pos \<or> q < ?c" using i(7) [of q] q sq(2) by auto
    then show ?thesis
      unfolding slot_inv_def Let_def r own using i(4) sq(2) pc by (auto simp: nth_append)
  qed
  moreover have "pc_inv (rs_ring s') (rs_in s') (rs_pc s' t')" for t'
  proof (cases "t' = t")
    case True
    then show ?thesis unfolding r pc' using free(1) i(2,4,6) sq(2) by (simp add: nth_append)
  next
    case False
    have ne: "rb_seq ?rb (rb_slot ?rb p) = p + ?c" if "p + ?c = pos" for p
      using free(1) that slot_round [OF i(1), of p] by auto
    have *: "Suc pos \<le> p + ?c" if "pos \<le> p + ?c" "rb_seq ?rb (rb_slot ?rb p) \<le> p + 1" for p
      using ne [of p] that i(6) by (cases "p + ?c = pos") auto
    show ?thesis
      unfolding r pc' using pcs [of t'] False * i(2,4) sq(2)
      by (cases "rs_pc s t'") (auto simp: nth_append)
  qed
  moreover have "owner_inv s'"
  proof -
    have lt: "p < pos" if "e_pos (rs_pc s t') = Some (p, e')" for t' p e'
      using pcs [of t'] that sq(2) by (cases "rs_pc s t'") auto
    note o = owner_invD [OF i(8)]
    have ne: "e_pos (rs_pc s t') \<noteq> Some (pos, y)" for t' y using lt [of t' pos y] by auto
    have "v = (rs_in s @ [e]) ! p" if "(p, v) \<in> set (rs_out s)" for p v
      using o(5) that i(2,4) sq(2) by (auto simp: nth_append)
    then show ?thesis
      using o(3-5) ne by (intro owner_step [OF i(8) pc']) (auto simp: r)
  qed
  moreover have "pos_inv s'" unfolding pos_inv_def Let_def r using i(1-4) free sq(2) by simp
  ultimately show ?thesis unfolding ring_inv_def slots_inv_def r by simp
qed


lemma enq_store_inv:
  assumes inv: "ring_inv s" and pc: "rs_pc s t = EWon e pos"
    and s': "s' = set_pc (s\<lparr>rs_ring := (rs_ring s)
      \<lparr>rb_value := (rb_value (rs_ring s))(rb_slot (rs_ring s) pos := e)\<rparr>\<rparr>) t (EStored e pos)"
  shows "ring_inv s'"
proof -
  let ?rb = "rs_ring s" let ?c = "rb_capacity (rs_ring s)"
  note i = ring_invD [OF inv]
  have p: "pos < rb_enq ?rb" "rb_enq ?rb \<le> pos + ?c" "rb_deq ?rb \<le> pos" "rb_seq ?rb (rb_slot ?rb pos) = pos" "rs_in s ! pos = e"
    using i(5) [of t] pc by simp_all
  have pc': "rs_pc s' = (rs_pc s)(t := EStored e pos)" by (simp add: s' set_pc_def)
  have disj: "d_pos (rs_pc s t') \<noteq> Some pos" for t' using i(5) [of t'] p(3) by (cases "rs_pc s t'") auto
  have own: "e_owned s' = e_owned s" "d_owned s' = d_owned s" using own_update [OF pc'] pc by simp_all
  have r: "rs_ring s' = ?rb\<lparr>rb_value := (rb_value ?rb)(rb_slot ?rb pos := e)\<rparr>" "rs_in s' = rs_in s" "rs_out s' = rs_out s"
    by (simp_all add: s' set_pc_def)
  have "slot_inv s' q" if q: "rb_enq ?rb \<le> q" "q < rb_enq ?rb + ?c" for q
  proof (cases "q = pos + ?c")
    case True
    then show ?thesis
      using i(7) [OF q] p slot_round [OF i(1), of pos] unfolding slot_inv_def Let_def r own by auto
  next
    case False
    then show ?thesis
      using i(7) [OF q] slot_window [OF i(1) p(1,2) q] unfolding slot_inv_def Let_def r own by simp
  qed
  moreover have "pc_inv (rs_ring s') (rs_in s') (rs_pc s' t')" for t'
  proof (cases "t' = t")
    case True
    then show ?thesis unfolding r pc' using p by simp
  next
    case False
    then show ?thesis
      unfolding r pc' using p owner_invD(1) [OF i(8), of t pos e t'] pc disj [of t']
      by (simp, intro pc_inv_frame [OF i(1) p(1,2) i(2) _ _ _ _ _ _ i(5)]) simp_all
  qed
  moreover have "owner_inv s'"
    using owner_invD [OF i(8)] owner_invD(1) [OF i(8), of t pos e] pc by (intro owner_step [OF i(8) pc']) (auto simp: r)
  moreover have "pos_inv s'" unfolding pos_inv_def Let_def r using i(1-4) by simp
  ultimately show ?thesis unfolding ring_inv_def slots_inv_def r by simp
qed

lemma enq_publish_inv:
  assumes inv: "ring_inv s" and pc: "rs_pc s t = EStored e pos"
    and bnd: "rb_enq (rs_ring s) + rb_capacity (rs_ring s) + 1 < 2 ^ 63"
    and s': "s' = set_pc (store_seq s (rb_slot (rs_ring s) pos) (add64 pos 1)) t Idle"
  shows "ring_inv s'"
proof -
  let ?rb = "rs_ring s" let ?c = "rb_capacity (rs_ring s)"
  note i = ring_invD [OF inv]
  have p: "pos < rb_enq ?rb" "rb_enq ?rb \<le> pos + ?c" "rb_deq ?rb \<le> pos" "rb_seq ?rb (rb_slot ?rb pos) = pos" "rs_in s ! pos = e"
    "rb_value ?rb (rb_slot ?rb pos) = e"
    using i(5) [of t] pc by simp_all
  have a: "add64 pos 1 = Suc pos" using bnd p(1) by (simp add: c_arith)
  have pc': "rs_pc s' = (rs_pc s)(t := Idle)" by (simp add: s' set_pc_def store_seq_def)
  have disj: "d_pos (rs_pc s t') \<noteq> Some pos" for t' using i(5) [of t'] p(3) by (cases "rs_pc s t'") auto
  have own: "e_owned s' = e_owned s - {pos}" "d_owned s' = d_owned s"
    using own_update(4,5) [OF pc'] pc i(8) by simp_all
  have r: "rs_ring s' = ?rb\<lparr>rb_seq := (rb_seq ?rb)(rb_slot ?rb pos := Suc pos)\<rparr>" "rs_in s' = rs_in s" "rs_out s' = rs_out s"
    unfolding s' a by (simp_all add: set_pc_def store_seq_def)
  have "slot_inv s' q" if q: "rb_enq ?rb \<le> q" "q < rb_enq ?rb + ?c" for q
  proof (cases "q = pos + ?c")
    case True
    then show ?thesis
      using p slot_round [OF i(1), of pos] unfolding slot_inv_def Let_def r own by auto
  next
    case False
    then show ?thesis
      using i(7) [OF q] slot_window [OF i(1) p(1,2) q] unfolding slot_inv_def Let_def r own by auto
  qed
  moreover have "pc_inv (rs_ring s') (rs_in s') (rs_pc s' t')" for t'
  proof (cases "t' = t")
    case False
    then show ?thesis
      unfolding r pc' using p owner_invD(1) [OF i(8), of t pos e t'] pc disj [of t']
      by (simp, intro pc_inv_frame [OF i(1) p(1,2) i(2) _ _ _ _ _ _ i(5)]) simp_all
  qed (simp add: pc')
  moreover have "owner_inv s'"
    using owner_invD [OF i(8)] by (intro owner_step [OF i(8) pc']) (auto simp: r)
  moreover have "pos_inv s'" unfolding pos_inv_def Let_def r using i(1-4) by simp
  ultimately show ?thesis unfolding ring_inv_def slots_inv_def r by simp
qed


lemma deq_cas_inv:
  assumes inv: "ring_inv s" and pc: "rs_pc s t = DSeq pos sq" and sq: "sdiff sq (add64 pos 1) = 0" "rb_deq (rs_ring s) = pos"
    and bnd: "rb_enq (rs_ring s) + rb_capacity (rs_ring s) + 1 < 2 ^ 63"
    and s': "s' = set_pc (s\<lparr>rs_ring := (rs_ring s)\<lparr>rb_deq := add64 pos 1\<rparr>\<rparr>) t (DWon pos)"
  shows "ring_inv s'"
proof -
  let ?rb = "rs_ring s" let ?c = "rb_capacity (rs_ring s)"
  note i = ring_invD [OF inv]
  have a: "add64 pos 1 = Suc pos" using bnd i(2) sq(2) by (simp add: c_arith)
  have p: "sq \<le> rb_seq ?rb (rb_slot ?rb pos)" using i(5) [of t] pc by simp
  have "sq < 2 ^ 63" using p seq_bound [OF inv, of pos] bnd by simp
  then have sq': "sq = Suc pos" using sq bnd i(2) unfolding a by (simp add: sdiff_small)
  have lt: "pos < rb_enq ?rb"
  proof (rule ccontr)
    assume "\<not> pos < rb_enq ?rb"
    then have "slot_inv s pos" "pos = rb_enq ?rb" using i(7) [of pos] i(2,6) sq(2) by simp_all
    then show False using p sq' i(6) by (auto simp: slot_inv_def Let_def)
  qed
  have "slot_inv s (pos + ?c)" using i(7) [of "pos + ?c"] i(3) lt sq(2) by simp
  then have full: "rb_seq ?rb (rb_slot ?rb pos) = Suc pos" "rb_value ?rb (rb_slot ?rb pos) = rs_in s ! pos"
    using p sq' sq(2) slot_round [OF i(1), of pos] by (auto simp: slot_inv_def Let_def)
  have pc': "rs_pc s' = (rs_pc s)(t := DWon pos)" by (simp add: s' set_pc_def)
  have own: "e_owned s' = e_owned s" "d_owned s' = insert pos (d_owned s)"
    using own_update(2,3) [OF pc'] pc by simp_all
  have r: "rs_ring s' = ?rb\<lparr>rb_deq := Suc pos\<rparr>" "rs_in s' = rs_in s" "rs_out s' = rs_out s"
    unfolding s' a by (simp_all add: set_pc_def)
  have "slot_inv s' q" if q: "rb_enq ?rb \<le> q" "q < rb_enq ?rb + ?c" for q
  proof (cases "q = pos + ?c")
    case True
    then show ?thesis
      using full slot_round [OF i(1), of pos] unfolding slot_inv_def Let_def r own by auto
  next
    case False
    then show ?thesis
      using i(7) [OF q] sq(2) unfolding slot_inv_def Let_def r own by auto
  qed
  moreover have "pc_inv (rs_ring s') (rs_in s') (rs_pc s' t')" for t'
  proof (cases "t' = t")
    case True
    then show ?thesis unfolding r pc' using full i(3) sq(2) by simp
  next
    case False
    have "p \<noteq> pos" if "rb_seq ?rb (rb_slot ?rb p) = p" for p using that full by auto
    then show ?thesis
      unfolding r pc' using i(5) [of t'] False sq(2) by (cases "rs_pc s t'") (auto simp: Suc_le_eq le_less)
  qed
  moreover have "owner_inv s'"
  proof -
    have lt: "p < pos" if "d_pos (rs_pc s t') = Some p" for t' p
      using i(5) [of t'] that sq(2) by (cases "rs_pc s t'") auto
    note o = owner_invD [OF i(8)]
    have ne: "d_pos (rs_pc s t') \<noteq> Some pos" for t' using lt [of t' pos] by auto
    have "pos \<notin> fst ` set (rs_out s)" using o(5) sq(2) by auto
    then show ?thesis
      using o(3-5) ne sq(2) by (intro owner_step [OF i(8) pc']) (auto simp: r less_Suc_eq)
  qed
  moreover have "pos_inv s'" unfolding pos_inv_def Let_def r using i(1-4) lt sq(2) by simp
  ultimately show ?thesis unfolding ring_inv_def slots_inv_def r by simp
qed

lemma deq_read_inv:
  assumes inv: "ring_inv s" and pc: "rs_pc s t = DWon pos"
    and s': "s' = set_pc s t (DRead pos (rb_value (rs_ring s) (rb_slot (rs_ring s) pos)))"
  shows "ring_inv s'"
proof -
  note i = ring_invD [OF inv]
  let ?v = "rb_value (rs_ring s) (rb_slot (rs_ring s) pos)"
  have pc': "rs_pc s' = (rs_pc s)(t := DRead pos ?v)" by (simp add: s' set_pc_def)
  have own: "e_owned s' = e_owned s" "d_owned s' = d_owned s" using own_update(3,4) [OF pc'] pc by simp_all
  have r: "rs_ring s' = rs_ring s" "rs_in s' = rs_in s" "rs_out s' = rs_out s" by (simp_all add: s' set_pc_def)
  have "slot_inv s' q = slot_inv s q" for q unfolding slot_inv_def Let_def r own ..
  moreover have "pc_inv (rs_ring s) (rs_in s) (rs_pc s' t')" for t'
    unfolding pc' using i(5) [of t'] i(5) [of t] pc by simp
  moreover have "owner_inv s'"
    using owner_invD [OF i(8)] owner_invD(2,3) [OF i(8), of t pos] pc by (intro owner_step [OF i(8) pc']) (auto simp: r)
  moreover have "pos_inv s'" unfolding pos_inv_def Let_def r using i(1-4) by simp
  ultimately show ?thesis using inv unfolding ring_inv_def slots_inv_def r by simp
qed

lemma deq_release_inv:
  assumes inv: "ring_inv s" and pc: "rs_pc s t = DRead pos v"
    and bnd: "rb_enq (rs_ring s) + rb_capacity (rs_ring s) + 1 < 2 ^ 63"
    and s': "s' = set_pc ((store_seq s (rb_slot (rs_ring s) pos) (add64 pos (rb_capacity (rs_ring s))))
      \<lparr>rs_out := rs_out s @ [(pos, v)]\<rparr>) t Idle"
  shows "ring_inv s'"
proof -
  let ?rb = "rs_ring s" let ?c = "rb_capacity (rs_ring s)"
  note i = ring_invD [OF inv]
  have p: "pos < rb_deq ?rb" "rb_enq ?rb \<le> pos + ?c" "rb_seq ?rb (rb_slot ?rb pos) = pos + 1" "v = rs_in s ! pos"
    using i(5) [of t] pc by simp_all
  have lt: "pos < rb_enq ?rb" using p(1) i(2) by simp
  have a: "add64 pos ?c = pos + ?c" using bnd lt by (simp add: c_arith)
  have pc': "rs_pc s' = (rs_pc s)(t := Idle)" by (simp add: s' set_pc_def store_seq_def)
  have disj: "e_pos (rs_pc s t') \<noteq> Some (pos, y)" for t' y using i(5) [of t'] p(1) by (cases "rs_pc s t'") auto
  have own: "e_owned s' = e_owned s" "d_owned s' = d_owned s - {pos}"
    using own_update(3,6) [OF pc'] pc i(8) by simp_all
  have r: "rs_ring s' = ?rb\<lparr>rb_seq := (rb_seq ?rb)(rb_slot ?rb pos := pos + ?c)\<rparr>" "rs_in s' = rs_in s"
    "rs_out s' = rs_out s @ [(pos, v)]"
    unfolding s' a by (simp_all add: set_pc_def store_seq_def)
  have "slot_inv s' q" if q: "rb_enq ?rb \<le> q" "q < rb_enq ?rb + ?c" for q
  proof (cases "q = pos + ?c")
    case True
    then show ?thesis
      using p(1) slot_round [OF i(1), of pos] unfolding slot_inv_def Let_def r own by auto
  next
    case False
    then show ?thesis
      using i(7) [OF q] slot_window [OF i(1) lt p(2) q] unfolding slot_inv_def Let_def r own by auto
  qed
  moreover have "pc_inv (rs_ring s') (rs_in s') (rs_pc s' t')" for t'
  proof (cases "t' = t")
    case False
    then show ?thesis
      unfolding r pc' using p owner_invD(2) [OF i(8), of t pos t'] pc disj [of t'] i(6)
      by (simp, intro pc_inv_frame [OF i(1) lt p(2) i(2) _ _ _ _ _ _ i(5)]) simp_all
  qed (simp add: pc')
  moreover have "owner_inv s'"
    using owner_invD [OF i(8)] owner_invD(2,3) [OF i(8), of t pos] p pc by (intro owner_step [OF i(8) pc']) (auto simp: r)
  moreover have "pos_inv s'" unfolding pos_inv_def Let_def r using i(1-4) by simp
  ultimately show ?thesis unfolding ring_inv_def slots_inv_def r by simp
qed


lemma ring_step_inv:
  assumes "ring_run s s'" "ring_inv s"
  shows "ring_inv s'"
proof -
  have bnd: "rb_enq (rs_ring s) + rb_capacity (rs_ring s) + 1 < 2 ^ 63" and "ring_step s s'"
    using assms(1) by (simp_all add: ring_run_def)
  note i = ring_invD(5) [OF assms(2)]
  from \<open>ring_step s s'\<close> show ?thesis
  proof cases
    case (enq_load t e)
    then show ?thesis using assms(2) by (auto intro!: quiet_step)
  next
    case (enq_seq t e pos)
    then show ?thesis using assms(2) i [of t] by (auto intro!: quiet_step)
  next
    case (enq_cas t e pos sq)
    show ?thesis by (rule enq_cas_inv [OF assms(2) enq_cas(2-4) bnd enq_cas(1)])
  next
    case (enq_retry t e pos sq)
    then show ?thesis using assms(2) by (auto intro!: quiet_step)
  next
    case (enq_full t e pos sq)
    then show ?thesis using assms(2) by (auto intro!: quiet_step)
  next
    case (enq_store t e pos)
    show ?thesis by (rule enq_store_inv [OF assms(2) enq_store(2,1)])
  next
    case (enq_publish t e pos)
    show ?thesis by (rule enq_publish_inv [OF assms(2) enq_publish(2) bnd enq_publish(1)])
  next
    case (deq_load t)
    then show ?thesis using assms(2) by (auto intro!: quiet_step)
  next
    case (deq_seq t pos)
    then show ?thesis using assms(2) i [of t] by (auto intro!: quiet_step)
  next
    case (deq_cas t pos sq)
    show ?thesis by (rule deq_cas_inv [OF assms(2) deq_cas(2-4) bnd deq_cas(1)])
  next
    case (deq_retry t pos sq)
    then show ?thesis using assms(2) by (auto intro!: quiet_step)
  next
    case (deq_empty t pos sq)
    then show ?thesis using assms(2) by (auto intro!: quiet_step)
  next
    case (deq_read t pos)
    show ?thesis by (rule deq_read_inv [OF assms(2) deq_read(2,1)])
  next
    case (deq_release t pos v)
    show ?thesis by (rule deq_release_inv [OF assms(2) deq_release(2) bnd deq_release(1)])
  qed
qed

lemma ring_init_inv:
  assumes "ring_buffer_mpmc_create null capacity = Inr rb"
  shows "ring_inv (ring_init rb)"
proof -
  have rb: "is_power_of_two_size capacity" "rb = \<lparr>rb_capacity = capacity, rb_mask = capacity - 1, rb_seq = (\<lambda>i. i),
      rb_value = (\<lambda>i. null), rb_enq = 0, rb_deq = 0\<rparr>"
    using assms by (auto simp: ring_buffer_mpmc_create_def split: if_splits)
  have wf: "ring_wf rb" using rb by (simp add: ring_wf_def)
  have "slot_inv (ring_init rb) q" if "q < capacity" for q
    using that rb_slot_mod [OF wf, of q] by (simp add: slot_inv_def Let_def ring_init_def rb(2) d_owned_def)
  then show ?thesis
    using wf by (simp add: ring_inv_def pos_inv_def slots_inv_def owner_inv_def ring_init_def rb(2))
qed

text \<open>A thread that runs alone takes the steps of the sequential operation.\<close>

lemma enqueue_run:
  assumes idle: "rs_pc s t = Idle" and bnd: "rb_enq (rs_ring s) + rb_capacity (rs_ring s) + 2 < 2 ^ 63"
    and enq: "ring_buffer_mpmc_try_enqueue (rs_ring s) e = Inr rb'"
  shows "ring_run\<^sup>*\<^sup>* s (s\<lparr>rs_in := rs_in s @ [e], rs_ring := rb'\<rparr>)"
proof -
  let ?rb = "rs_ring s" let ?p = "rb_enq (rs_ring s)" let ?i = "rb_slot (rs_ring s) (rb_enq (rs_ring s))"
  have d: "sdiff (rb_seq ?rb ?i) ?p = 0" and rb': "rb' = ?rb\<lparr>rb_enq := add64 ?p 1, rb_value := (rb_value ?rb)(?i := e),
      rb_seq := (rb_seq ?rb)(?i := add64 ?p 1)\<rparr>"
    using enq by (auto simp: ring_buffer_mpmc_try_enqueue_def Let_def split: if_splits)
  have a: "add64 ?p 1 = ?p + 1" using bnd by (simp add: c_arith)
  define s1 where "s1 = set_pc s t (EPos e ?p)"
  define s2 where "s2 = set_pc s t (ESeq e ?p (rb_seq ?rb ?i))"
  define s3 where "s3 = set_pc (s\<lparr>rs_ring := ?rb\<lparr>rb_enq := add64 ?p 1\<rparr>, rs_in := rs_in s @ [e]\<rparr>) t (EWon e ?p)"
  define s4 where "s4 = set_pc (s\<lparr>rs_in := rs_in s @ [e],
    rs_ring := ?rb\<lparr>rb_enq := add64 ?p 1, rb_value := (rb_value ?rb)(?i := e)\<rparr>\<rparr>) t (EStored e ?p)"
  have "ring_run s s1" using bnd ring_step.enq_load [OF idle] by (simp add: ring_run_def s1_def)
  moreover have "ring_run s1 s2"
    using bnd ring_step.enq_seq [of s1 t e ?p] by (simp add: ring_run_def s1_def s2_def set_pc_def)
  moreover have "ring_run s2 s3"
    using bnd ring_step.enq_cas [of s2 t e ?p] d by (simp add: ring_run_def s2_def s3_def set_pc_def)
  moreover have "ring_run s3 s4"
    using bnd ring_step.enq_store [of s3 t e ?p] a by (simp add: ring_run_def s3_def s4_def set_pc_def)
  moreover have "ring_run s4 (s\<lparr>rs_in := rs_in s @ [e], rs_ring := rb'\<rparr>)"
    using bnd ring_step.enq_publish [of s4 t e ?p] a idle
    by (simp add: ring_run_def s4_def set_pc_def store_seq_def rb' fun_upd_idem)
  ultimately show ?thesis by (meson converse_rtranclp_into_rtranclp rtranclp.rtrancl_refl)
qed

lemma dequeue_run:
  assumes idle: "rs_pc s t = Idle" and bnd: "rb_enq (rs_ring s) + rb_capacity (rs_ring s) + 1 < 2 ^ 63"
    and deq: "ring_buffer_mpmc_try_dequeue (rs_ring s) = Inr (v, rb')"
  shows "ring_run\<^sup>*\<^sup>* s (s\<lparr>rs_ring := rb', rs_out := rs_out s @ [(rb_deq (rs_ring s), v)]\<rparr>)"
proof -
  let ?rb = "rs_ring s" let ?p = "rb_deq (rs_ring s)" let ?i = "rb_slot (rs_ring s) (rb_deq (rs_ring s))"
  have d: "sdiff (rb_seq ?rb ?i) (add64 ?p 1) = 0" "v = rb_value ?rb ?i" and rb': "rb' = ?rb\<lparr>rb_deq := add64 ?p 1,
      rb_seq := (rb_seq ?rb)(?i := add64 ?p (rb_capacity ?rb))\<rparr>"
    using deq by (auto simp: ring_buffer_mpmc_try_dequeue_def Let_def split: if_splits)
  define s1 where "s1 = set_pc s t (DPos ?p)"
  define s2 where "s2 = set_pc s t (DSeq ?p (rb_seq ?rb ?i))"
  define s3 where "s3 = set_pc (s\<lparr>rs_ring := ?rb\<lparr>rb_deq := add64 ?p 1\<rparr>\<rparr>) t (DWon ?p)"
  define s4 where "s4 = set_pc (s\<lparr>rs_ring := ?rb\<lparr>rb_deq := add64 ?p 1\<rparr>\<rparr>) t (DRead ?p v)"
  have "ring_run s s1" using bnd ring_step.deq_load [OF idle] by (simp add: ring_run_def s1_def)
  moreover have "ring_run s1 s2"
    using bnd ring_step.deq_seq [of s1 t ?p] by (simp add: ring_run_def s1_def s2_def set_pc_def)
  moreover have "ring_run s2 s3"
    using bnd ring_step.deq_cas [of s2 t ?p] d by (simp add: ring_run_def s2_def s3_def set_pc_def)
  moreover have "ring_run s3 s4"
    using bnd ring_step.deq_read [of s3 t ?p] d by (simp add: ring_run_def s3_def s4_def set_pc_def)
  moreover have "ring_run s4 (s\<lparr>rs_ring := rb', rs_out := rs_out s @ [(?p, v)]\<rparr>)"
    using bnd ring_step.deq_release [of s4 t ?p v] idle
    by (simp add: ring_run_def s4_def set_pc_def store_seq_def rb' fun_upd_idem)
  ultimately show ?thesis by (meson converse_rtranclp_into_rtranclp rtranclp.rtrancl_refl)
qed

section \<open>The ring as a queue\<close>

text \<open>A quiescent ring that holds \<open>xs\<close>, and the two operations at the type of the queue
  interface.\<close>

definition ring_repr :: "'a ring_buffer_mpmc \<Rightarrow> 'a list \<Rightarrow> bool" where
  "ring_repr rb xs \<longleftrightarrow> ring_wf rb \<and> rb_enq rb = rb_deq rb + length xs \<and> length xs \<le> rb_capacity rb \<and>
     rb_enq rb + rb_capacity rb < 2 ^ 63 \<and>
     (\<forall>j < length xs. rb_seq rb (rb_slot rb (rb_deq rb + j)) = rb_deq rb + j + 1 \<and>
        rb_value rb (rb_slot rb (rb_deq rb + j)) = xs ! j) \<and>
     (\<forall>j. length xs \<le> j \<longrightarrow> j < rb_capacity rb \<longrightarrow> rb_seq rb (rb_slot rb (rb_deq rb + j)) = rb_deq rb + j)"

definition ring_can :: "'a ring_buffer_mpmc \<Rightarrow> 'a \<Rightarrow> bool" where
  "ring_can rb x \<longleftrightarrow> ring_buffer_mpmc_count rb < rb_capacity rb \<and> rb_enq rb + rb_capacity rb + 1 < 2 ^ 63"

definition ring_put :: "'a ring_buffer_mpmc \<Rightarrow> 'a \<Rightarrow> 'a ring_buffer_mpmc" where
  "ring_put rb x = (case ring_buffer_mpmc_try_enqueue rb x of Inr rb' \<Rightarrow> rb' | Inl e \<Rightarrow> rb)"

definition ring_get :: "'a ring_buffer_mpmc \<Rightarrow> ('a \<times> 'a ring_buffer_mpmc) option" where
  "ring_get rb = (case ring_buffer_mpmc_try_dequeue rb of Inr r \<Rightarrow> Some r | Inl e \<Rightarrow> None)"

lemma ring_reprD:
  assumes "ring_repr rb xs"
  shows "ring_wf rb" "rb_enq rb = rb_deq rb + length xs" "length xs \<le> rb_capacity rb"
    "rb_enq rb + rb_capacity rb < 2 ^ 63" "1 < rb_capacity rb"
    "j < length xs \<Longrightarrow> rb_seq rb (rb_slot rb (rb_deq rb + j)) = rb_deq rb + j + 1"
    "j < length xs \<Longrightarrow> rb_value rb (rb_slot rb (rb_deq rb + j)) = xs ! j"
    "length xs \<le> j \<Longrightarrow> j < rb_capacity rb \<Longrightarrow> rb_seq rb (rb_slot rb (rb_deq rb + j)) = rb_deq rb + j"
  using assms ring_wf_cap by (auto simp: ring_repr_def)

lemma slot_near:
  "ring_wf rb \<Longrightarrow> i < rb_capacity rb \<Longrightarrow> j < rb_capacity rb \<Longrightarrow>
   rb_slot rb (n + i) = rb_slot rb (n + j) \<longleftrightarrow> i = j"
  using mod_window [of "n + i" "rb_capacity rb" "n + j" n] by (auto simp: rb_slot_mod)

lemma ring_count_repr: "ring_repr rb xs \<Longrightarrow> ring_buffer_mpmc_count rb = length xs"
  using ring_reprD(2-4) [of rb xs] by (simp add: ring_buffer_mpmc_count_def c_arith)

lemma try_enqueue_repr:
  assumes r: "ring_repr rb xs"
  shows "length xs < rb_capacity rb \<Longrightarrow> rb_enq rb + rb_capacity rb + 1 < 2 ^ 63 \<Longrightarrow>
           \<exists>rb'. ring_buffer_mpmc_try_enqueue rb x = Inr rb' \<and> ring_repr rb' (xs @ [x]) \<and>
                 rb_capacity rb' = rb_capacity rb \<and> rb_enq rb' = rb_enq rb + 1"
    and "length xs = rb_capacity rb \<Longrightarrow> ring_buffer_mpmc_try_enqueue rb x = Inl Blocked"
proof -
  note d = ring_reprD [OF r]
  let ?p = "rb_enq rb" and ?c = "rb_capacity rb"
  {
    assume l: "length xs < ?c" and b: "?p + ?c + 1 < 2 ^ 63"
    have q: "rb_seq rb (rb_slot rb ?p) = ?p" using d(8) [of "length xs"] l d(2) by simp
    then have z: "sdiff (rb_seq rb (rb_slot rb ?p)) ?p = 0" using d(4) by (simp add: sdiff_small)
    let ?rb = "rb\<lparr>rb_enq := ?p + 1, rb_value := (rb_value rb)(rb_slot rb ?p := x),
      rb_seq := (rb_seq rb)(rb_slot rb ?p := ?p + 1)\<rparr>"
    have e: "ring_buffer_mpmc_try_enqueue rb x = Inr ?rb"
      using z b by (simp add: ring_buffer_mpmc_try_enqueue_def Let_def c_arith)
    have s: "rb_slot rb (rb_deq rb + j) = rb_slot rb ?p \<longleftrightarrow> j = length xs" if "j < ?c" for j
      using slot_near [OF d(1) that l, of "rb_deq rb"] d(2) by simp
    have "ring_repr ?rb (xs @ [x])"
      unfolding ring_repr_def
      using d l b s by (auto simp: nth_append less_Suc_eq)
    then show "\<exists>rb'. ring_buffer_mpmc_try_enqueue rb x = Inr rb' \<and> ring_repr rb' (xs @ [x]) \<and>
                 rb_capacity rb' = rb_capacity rb \<and> rb_enq rb' = rb_enq rb + 1"
      using e by simp
  next
    assume l: "length xs = ?c"
    have "rb_slot rb ?p = rb_slot rb (rb_deq rb)" using slot_round [OF d(1)] d(2) l by simp
    then have "rb_seq rb (rb_slot rb ?p) = rb_deq rb + 1" using d(6) [of 0] l d(5) by simp
    then have "sdiff (rb_seq rb (rb_slot rb ?p)) ?p < 0" using d(2,4,5) l by (simp add: sdiff_small)
    then show "ring_buffer_mpmc_try_enqueue rb x = Inl Blocked"
      by (simp add: ring_buffer_mpmc_try_enqueue_def Let_def)
  }
qed

lemma try_dequeue_repr:
  assumes r: "ring_repr rb xs"
  shows "xs = [] \<Longrightarrow> ring_buffer_mpmc_try_dequeue rb = Inl Blocked"
    and "xs = x # ys \<Longrightarrow> \<exists>rb'. ring_buffer_mpmc_try_dequeue rb = Inr (x, rb') \<and> ring_repr rb' ys"
proof -
  note d = ring_reprD [OF r]
  let ?p = "rb_deq rb" and ?c = "rb_capacity rb"
  have a: "add64 ?p 1 = ?p + 1" "add64 ?p ?c = ?p + ?c" using d(2,4) by (simp_all add: c_arith)
  {
    assume "xs = []"
    then have "rb_seq rb (rb_slot rb ?p) = ?p" using d(8) [of 0] d(5) by simp
    then have "sdiff (rb_seq rb (rb_slot rb ?p)) (?p + 1) < 0" using d(2,4,5) by (simp add: sdiff_small)
    then show "ring_buffer_mpmc_try_dequeue rb = Inl Blocked"
      using a by (simp add: ring_buffer_mpmc_try_dequeue_def Let_def)
  next
    assume xs: "xs = x # ys"
    have q: "rb_seq rb (rb_slot rb ?p) = ?p + 1" "rb_value rb (rb_slot rb ?p) = x"
      using d(6,7) [of 0] xs by simp_all
    then have z: "sdiff (rb_seq rb (rb_slot rb ?p)) (?p + 1) = 0" using d(2,4,5) by (simp add: sdiff_small)
    let ?rb = "rb\<lparr>rb_deq := ?p + 1, rb_seq := (rb_seq rb)(rb_slot rb ?p := ?p + ?c)\<rparr>"
    have e: "ring_buffer_mpmc_try_dequeue rb = Inr (x, ?rb)"
      using z a q by (simp add: ring_buffer_mpmc_try_dequeue_def Let_def)
    have s: "rb_slot rb (?p + 1 + j) = rb_slot rb ?p \<longleftrightarrow> Suc j = ?c" if "j < ?c" for j
    proof (cases "Suc j = ?c")
      case True
      then have n: "?p + 1 + j = ?p + ?c" by simp
      show ?thesis unfolding n using True slot_round [OF d(1), of ?p] by blast
    next
      case False
      then show ?thesis using slot_near [OF d(1), of "Suc j" 0 ?p] that d(5) by simp
    qed
    have "ring_repr ?rb ys"
      unfolding ring_repr_def using d(1-5) xs s d(6-8) [of "Suc j" for j] by auto
    then show "\<exists>rb'. ring_buffer_mpmc_try_dequeue rb = Inr (x, rb') \<and> ring_repr rb' ys" using e by simp
  }
qed

interpretation ringq: fifo_queue ring_repr ring_can ring_put ring_get
proof unfold_locales
  fix rb :: "'a ring_buffer_mpmc" and xs x
  assume r: "ring_repr rb xs" and c: "ring_can rb x"
  then show "ring_repr (ring_put rb x) (xs @ [x])"
    using try_enqueue_repr(1) [OF r, of x] ring_count_repr [OF r] by (auto simp: ring_can_def ring_put_def)
next
  fix rb :: "'a ring_buffer_mpmc" assume "ring_repr rb []"
  then show "ring_get rb = None" using try_dequeue_repr(1) by (fastforce simp: ring_get_def)
next
  fix rb :: "'a ring_buffer_mpmc" and x xs assume "ring_repr rb (x # xs)"
  then show "\<exists>rb'. ring_get rb = Some (x, rb') \<and> ring_repr rb' xs"
    using try_dequeue_repr(2) by (fastforce simp: ring_get_def)
qed

lemma create_repr:
  assumes "ring_buffer_mpmc_create null capacity = Inr rb" "2 * capacity + 1 < 2 ^ 63"
  shows "ring_repr rb []" "rb_capacity rb = capacity" "rb_enq rb = 0"
proof -
  have rb: "is_power_of_two_size capacity" "rb = \<lparr>rb_capacity = capacity, rb_mask = capacity - 1, rb_seq = (\<lambda>i. i),
      rb_value = (\<lambda>i. null), rb_enq = 0, rb_deq = 0\<rparr>"
    using assms by (auto simp: ring_buffer_mpmc_create_def split: if_splits)
  have wf: "ring_wf rb" using rb by (simp add: ring_wf_def)
  have "rb_slot rb j = j" if "j < capacity" for j using rb_slot_mod [OF wf] that rb(2) by simp
  then show "ring_repr rb []" using wf assms(2) rb(2) by (simp add: ring_repr_def)
  show "rb_capacity rb = capacity" "rb_enq rb = 0" using rb(2) by simp_all
qed

lemma ring_can_all:
  "ring_repr rb xs \<Longrightarrow> length xs + length ys \<le> rb_capacity rb \<Longrightarrow>
   rb_enq rb + length ys + rb_capacity rb < 2 ^ 63 \<Longrightarrow>
   can_all ring_can ring_put rb ys \<and> rb_capacity (put_all ring_put rb ys) = rb_capacity rb \<and>
   ring_repr (put_all ring_put rb ys) (xs @ ys)"
proof (induction ys arbitrary: rb xs)
  case (Cons y ys)
  obtain rb' where rb': "ring_buffer_mpmc_try_enqueue rb y = Inr rb'" "ring_repr rb' (xs @ [y])"
      "rb_capacity rb' = rb_capacity rb" "rb_enq rb' = rb_enq rb + 1"
    using try_enqueue_repr(1) [OF Cons.prems(1), of y] Cons.prems by auto
  have "ring_can rb y" using ring_count_repr [OF Cons.prems(1)] Cons.prems by (simp add: ring_can_def)
  moreover have "ring_put rb y = rb'" using rb'(1) by (simp add: ring_put_def)
  ultimately show ?case using Cons.IH [OF rb'(2)] Cons.prems rb'(3,4) by simp
qed simp

section \<open>Properties\<close>

text \<open>C15.  The ring buffer under concurrent producers and consumers.  In every interleaving of
  any number of threads (with fewer than \<open>2 ^ 63\<close> operations), no position is dequeued twice,
  every dequeue returns the element that was enqueued at its position, and at most
  \<open>capacity\<close> positions are in use.\<close>

theorem ring_fifo:
  assumes "ring_buffer_mpmc_create null capacity = Inr rb" "ring_run\<^sup>*\<^sup>* (ring_init rb) s"
  shows "distinct (map fst (rs_out s)) \<and> (\<forall>i < length (rs_out s). snd (rs_out s ! i) = rs_in s ! fst (rs_out s ! i)) \<and>
    (\<forall>i < length (rs_out s). fst (rs_out s ! i) < rb_deq (rs_ring s)) \<and> rb_deq (rs_ring s) \<le> length (rs_in s) \<and>
    length (rs_in s) \<le> rb_deq (rs_ring s) + rb_capacity (rs_ring s)"
proof -
  have inv: "ring_inv s"
    using assms(2) by (induction rule: rtranclp_induct) (auto intro: ring_init_inv [OF assms(1)] ring_step_inv)
  have "rs_out s ! i \<in> set (rs_out s)" if "i < length (rs_out s)" for i using that by simp
  then show ?thesis
    using owner_invD(4,5) [OF ring_invD(8) [OF inv]] ring_invD(2-4) [OF inv] by (auto simp: case_prod_beta)
qed

theorem ring_fifo_witness:
  "\<exists>s. ring_run\<^sup>*\<^sup>* (ring_init \<lparr>rb_capacity = 2, rb_mask = 1, rb_seq = (\<lambda>i. i), rb_value = (\<lambda>i. 0 :: nat), rb_enq = 0, rb_deq = 0\<rparr>) s \<and>
     rs_out s = [(0, 42)] \<and> distinct (map fst (rs_out s)) \<and> rb_deq (rs_ring s) \<le> length (rs_in s)"
proof -
  let ?rb = "\<lparr>rb_capacity = 2, rb_mask = 1, rb_seq = (\<lambda>i. i), rb_value = (\<lambda>i. 0 :: nat), rb_enq = 0, rb_deq = 0\<rparr>"
  let ?rb1 = "?rb\<lparr>rb_enq := 1, rb_value := (rb_value ?rb)(0 := 42), rb_seq := (rb_seq ?rb)(0 := 1)\<rparr>"
  let ?rb2 = "?rb1\<lparr>rb_deq := 1, rb_seq := (rb_seq ?rb1)(0 := 2)\<rparr>"
  let ?s1 = "(ring_init ?rb)\<lparr>rs_ring := ?rb1, rs_in := [42]\<rparr>"
  have c: "ring_buffer_mpmc_create 0 2 = Inr ?rb"
    by (simp add: ring_buffer_mpmc_create_def is_power_of_two_size_def)
  have two: "(rb_seq ?rb1)(0 := Suc (Suc 0)) = (rb_seq ?rb1)(0 := 2)" by (simp add: numeral_2_eq_2)
  have "ring_run\<^sup>*\<^sup>* (ring_init ?rb) ?s1"
    using enqueue_run [of "ring_init ?rb" 0 42 ?rb1]
    by (simp add: ring_init_def ring_buffer_mpmc_try_enqueue_def rb_slot_def sdiff_def add64_def)
  moreover have "ring_run\<^sup>*\<^sup>* ?s1 (?s1\<lparr>rs_ring := ?rb2, rs_out := [(0, 42)]\<rparr>)"
    using dequeue_run [of ?s1 1 42 ?rb2] two
    by (simp add: ring_init_def ring_buffer_mpmc_try_dequeue_def rb_slot_def sdiff_def add64_def)
  ultimately have r: "ring_run\<^sup>*\<^sup>* (ring_init ?rb) (?s1\<lparr>rs_ring := ?rb2, rs_out := [(0, 42)]\<rparr>)" by (rule rtranclp_trans)
  show ?thesis using ring_fifo [OF c r] r by (intro exI [of _ "?s1\<lparr>rs_ring := ?rb2, rs_out := [(0, 42)]\<rparr>"]) simp
qed

text \<open>C16.  The ring used by one thread: the elements put into a fresh ring, as many as it has
  slots, come out in the same order and then the ring is empty; a full ring refuses
  another element, and \<^verbatim>\<open>ring_buffer_mpmc_space\<close> then reports \<open>2 ^ 64 - 1\<close> free slots.\<close>

theorem ring_round_trip:
  assumes "ring_buffer_mpmc_create null capacity = Inr rb" "2 * capacity + 1 < 2 ^ 63" "length xs \<le> capacity"
  shows "(\<exists>rb'. take_n ring_get (length xs) (put_all ring_put rb xs) = (xs, rb') \<and>
            ring_buffer_mpmc_try_dequeue rb' = Inl Blocked) \<and>
    ring_buffer_mpmc_count (put_all ring_put rb xs) = length xs \<and>
    (length xs < capacity \<longrightarrow> ring_buffer_mpmc_space (put_all ring_put rb xs) = capacity - 1 - length xs) \<and>
    (length xs = capacity \<longrightarrow> ring_buffer_mpmc_try_enqueue (put_all ring_put rb xs) x = Inl Blocked \<and>
       ring_buffer_mpmc_space (put_all ring_put rb xs) = 2 ^ 64 - 1)"
proof -
  note c = create_repr [OF assms(1,2)]
  let ?r = "put_all ring_put rb xs"
  have f: "can_all ring_can ring_put rb xs" "rb_capacity ?r = capacity" "ring_repr ?r xs"
    using ring_can_all [OF c(1), of xs] c(2,3) assms(2,3) by auto
  obtain rb' where rb': "take_n ring_get (length xs) ?r = (xs, rb')" "ring_repr rb' []"
    using ringq.take_all [OF f(3)] by blast
  have n: "ring_buffer_mpmc_count ?r = length xs" by (rule ring_count_repr [OF f(3)])
  have cap: "1 < capacity" using ring_reprD(5) [OF f(3)] f(2) by simp
  have "ring_buffer_mpmc_space ?r = sub64 (capacity - 1) (length xs)"
    using f(2) n cap assms(2) by (simp add: ring_buffer_mpmc_space_def c_arith)
  moreover have "sub64 (capacity - 1) (length xs) = capacity - 1 - length xs" if "length xs < capacity"
    using that assms(2) by (simp add: c_arith)
  moreover have "sub64 (capacity - 1) (length xs) = 2 ^ 64 - 1" if "length xs = capacity"
    using that assms(2) cap by (simp add: sub64_wraps)
  ultimately show ?thesis
    using rb'(1) try_dequeue_repr(1) [OF rb'(2)] n try_enqueue_repr(2) [OF f(3)] f(2) by auto
qed

theorem ring_round_trip_witness:
  "ring_buffer_mpmc_create (0 :: nat) 2 = Inr \<lparr>rb_capacity = 2, rb_mask = 1, rb_seq = (\<lambda>i. i), rb_value = (\<lambda>i. 0), rb_enq = 0, rb_deq = 0\<rparr> \<and>
   ring_buffer_mpmc_space (put_all ring_put
     \<lparr>rb_capacity = 2, rb_mask = 1, rb_seq = (\<lambda>i. i), rb_value = (\<lambda>i. 0 :: nat), rb_enq = 0, rb_deq = 0\<rparr> [7, 8]) = 2 ^ 64 - 1"
proof -
  let ?rb = "\<lparr>rb_capacity = 2, rb_mask = 1, rb_seq = (\<lambda>i. i), rb_value = (\<lambda>i. 0 :: nat), rb_enq = 0, rb_deq = 0\<rparr>"
  have c: "ring_buffer_mpmc_create 0 2 = Inr ?rb" by (simp add: ring_buffer_mpmc_create_def is_power_of_two_size_def)
  show ?thesis using ring_round_trip [OF c, of "[7, 8]"] c by simp
qed

end
