(* ===== verification/Ox_Bitmap.thy ===== *)
theory Ox_Bitmap
  imports Ox_Prelude
begin

unbundle bit_operations_syntax

text \<open>
  The bitmap library of \<^verbatim>\<open>secure_daemon/src/fs/sefs/bitmap.c\<close>, which the block and
  inode allocators of sefs stand on.  A bitmap is an array of 64-bit words, here a
  function from the index of a word, so that a word that is never written keeps its
  value whatever the size of the bitmap.  \<open>bm_bit m n\<close> is bit \<open>n\<close> of the
  bitmap: every routine works on whole words, and the lemmas say what it does to the
  bits.  Sizes and positions are naturals; the wrap of an \<^verbatim>\<open>unsigned int\<close>, of an
  \<^verbatim>\<open>unsigned long\<close> or of an \<^verbatim>\<open>int\<close> is written out where a size the types allow
  reaches it (\<open>add32\<close>, \<open>add64\<close>, \<open>s32\<close>).  The scans for a single bit take sizes up to
  \<open>2 ^ 64 - 64\<close>, where no index wraps.
\<close>

type_synonym bitmap = "nat \<Rightarrow> 64 word"

definition BITS_PER_LONG :: nat where
  "BITS_PER_LONG = 64"

text \<open>A sum stored in an \<^verbatim>\<open>int\<close>.\<close>

definition s32 :: "int \<Rightarrow> int" where
  "s32 w = signed_take_bit 31 w"

definition bm_bit :: "bitmap \<Rightarrow> nat \<Rightarrow> bool" where
  "bm_bit m n = bit (m (n div 64)) (n mod 64)"

section \<open>Words\<close>

definition BITS_TO_LONGS :: "nat \<Rightarrow> nat" where
  "BITS_TO_LONGS nr = (nr + 63) div 64"

definition BITMAP_FIRST_WORD_MASK :: "nat \<Rightarrow> 64 word" where
  "BITMAP_FIRST_WORD_MASK start = push_bit (start mod 64) (NOT 0)"

definition BITMAP_LAST_WORD_MASK :: "nat \<Rightarrow> 64 word" where
  "BITMAP_LAST_WORD_MASK nbits = drop_bit ((64 - nbits mod 64) mod 64) (NOT 0)"

text \<open>The bit scan instructions; the result for a word without a set bit is 64, where the
  processor leaves it undefined.\<close>

definition ffs :: "64 word \<Rightarrow> nat" where
  "ffs w = length (takeWhile (\<lambda>n. \<not> bit w n) [0..<64])"

definition ffz :: "64 word \<Rightarrow> nat" where
  "ffz w = ffs (NOT w)"

definition fls :: "64 word \<Rightarrow> nat" where
  "fls w = 63 - length (takeWhile (\<lambda>n. \<not> bit w n) (rev [0..<64]))"

definition hweight8 :: "64 word \<Rightarrow> nat" where
  "hweight8 w = of_bool (bit w 0) + of_bool (bit w 1) + of_bool (bit w 2) + of_bool (bit w 3) +
                of_bool (bit w 4) + of_bool (bit w 5) + of_bool (bit w 6) + of_bool (bit w 7)"

definition hweight16 :: "64 word \<Rightarrow> nat" where
  "hweight16 w = hweight8 w + hweight8 (drop_bit 8 w)"

definition hweight32 :: "64 word \<Rightarrow> nat" where
  "hweight32 w = hweight16 w + hweight16 (drop_bit 16 w)"

definition hweight64 :: "64 word \<Rightarrow> nat" where
  "hweight64 w = hweight32 w + hweight32 (drop_bit 32 w)"

definition test_bit :: "nat \<Rightarrow> bitmap \<Rightarrow> bool" where
  "test_bit nr addr = (push_bit (nr mod 64) 1 AND addr (nr div 64) \<noteq> 0)"

definition set_bit_at :: "nat \<Rightarrow> bitmap \<Rightarrow> bitmap" where
  "set_bit_at nr addr = addr(nr div 64 := addr (nr div 64) OR push_bit (nr mod 64) 1)"

section \<open>Searching\<close>

function find_next_loop :: "bitmap \<Rightarrow> nat \<Rightarrow> 64 word \<Rightarrow> nat \<Rightarrow> 64 word \<Rightarrow> nat" where
  "find_next_loop addr nbits invert start tmp =
     (if tmp \<noteq> 0 then min (start + ffs tmp) nbits
      else if start + 64 \<ge> nbits then nbits
      else find_next_loop addr nbits invert (start + 64) (addr ((start + 64) div 64) XOR invert))"
  by pat_completeness auto
termination by (relation "measure (\<lambda>(addr, nbits, invert, start, tmp). nbits - start)") auto

declare find_next_loop.simps [simp del]

definition find_next_bit_common :: "bitmap \<Rightarrow> nat \<Rightarrow> nat \<Rightarrow> 64 word \<Rightarrow> nat" where
  "find_next_bit_common addr nbits start invert =
     (if nbits = 0 \<or> start \<ge> nbits then nbits
      else find_next_loop addr nbits invert (start div 64 * 64)
             ((addr (start div 64) XOR invert) AND BITMAP_FIRST_WORD_MASK start))"

definition find_next_bit :: "bitmap \<Rightarrow> nat \<Rightarrow> nat \<Rightarrow> nat" where
  "find_next_bit addr sz offset = find_next_bit_common addr sz offset 0"

definition find_next_zero_bit :: "bitmap \<Rightarrow> nat \<Rightarrow> nat \<Rightarrow> nat" where
  "find_next_zero_bit addr sz offset = find_next_bit_common addr sz offset (NOT 0)"

function find_first_loop :: "bitmap \<Rightarrow> nat \<Rightarrow> nat \<Rightarrow> nat" where
  "find_first_loop addr sz idx =
     (if idx * 64 < sz
      then if addr idx \<noteq> 0 then min (idx * 64 + ffs (addr idx)) sz else find_first_loop addr sz (idx + 1)
      else sz)"
  by pat_completeness auto
termination by (relation "measure (\<lambda>(addr, sz, idx). sz - idx)") auto

declare find_first_loop.simps [simp del]

definition find_first_bit :: "bitmap \<Rightarrow> nat \<Rightarrow> nat" where
  "find_first_bit addr sz = find_first_loop addr sz 0"

function find_first_zero_loop :: "bitmap \<Rightarrow> nat \<Rightarrow> nat \<Rightarrow> nat" where
  "find_first_zero_loop addr sz idx =
     (if idx * 64 < sz
      then if addr idx \<noteq> NOT 0 then min (idx * 64 + ffz (addr idx)) sz else find_first_zero_loop addr sz (idx + 1)
      else sz)"
  by pat_completeness auto
termination by (relation "measure (\<lambda>(addr, sz, idx). sz - idx)") auto

declare find_first_zero_loop.simps [simp del]

definition find_first_zero_bit :: "bitmap \<Rightarrow> nat \<Rightarrow> nat" where
  "find_first_zero_bit addr sz = find_first_zero_loop addr sz 0"

fun find_last_loop :: "bitmap \<Rightarrow> nat \<Rightarrow> 64 word \<Rightarrow> nat \<Rightarrow> nat" where
  "find_last_loop addr sz val idx =
     (let val = val AND addr idx
      in if val \<noteq> 0 then idx * 64 + fls val
         else case idx of 0 \<Rightarrow> sz | Suc i \<Rightarrow> find_last_loop addr sz (NOT 0) i)"

declare find_last_loop.simps [simp del]

definition find_last_bit :: "bitmap \<Rightarrow> nat \<Rightarrow> nat" where
  "find_last_bit addr sz =
     (if sz \<noteq> 0 then find_last_loop addr sz (BITMAP_LAST_WORD_MASK sz) ((sz - 1) div 64) else sz)"

section \<open>Comparing and combining\<close>

definition bitmap_equal :: "bitmap \<Rightarrow> bitmap \<Rightarrow> nat \<Rightarrow> bool" where
  "bitmap_equal b1 b2 bits =
     (let lim = bits div 64
      in (\<forall>k\<in>set [0..<lim]. b1 k = b2 k) \<and>
         (bits mod 64 \<noteq> 0 \<longrightarrow> (b1 lim XOR b2 lim) AND BITMAP_LAST_WORD_MASK bits = 0))"

definition bitmap_complement :: "bitmap \<Rightarrow> bitmap \<Rightarrow> nat \<Rightarrow> bitmap" where
  "bitmap_complement dst src bits =
     (let lim = bits div 64;
          dst = fold (\<lambda>k d. d(k := NOT (src k))) [0..<lim] dst
      in if bits mod 64 \<noteq> 0 then dst(lim := NOT (src lim)) else dst)"

definition bitmap_and :: "bitmap \<Rightarrow> bitmap \<Rightarrow> bitmap \<Rightarrow> nat \<Rightarrow> bitmap \<times> bool" where
  "bitmap_and dst b1 b2 bits =
     (let lim = bits div 64;
          (dst, result) = fold (\<lambda>k (d, r). (d(k := b1 k AND b2 k), r OR (b1 k AND b2 k))) [0..<lim] (dst, 0);
          last = b1 lim AND b2 lim AND BITMAP_LAST_WORD_MASK bits
      in if bits mod 64 \<noteq> 0 then (dst(lim := last), result OR last \<noteq> 0) else (dst, result \<noteq> 0))"

definition bitmap_or :: "bitmap \<Rightarrow> bitmap \<Rightarrow> bitmap \<Rightarrow> nat \<Rightarrow> bitmap" where
  "bitmap_or dst b1 b2 bits = fold (\<lambda>k d. d(k := b1 k OR b2 k)) [0..<BITS_TO_LONGS bits] dst"

definition bitmap_xor :: "bitmap \<Rightarrow> bitmap \<Rightarrow> bitmap \<Rightarrow> nat \<Rightarrow> bitmap" where
  "bitmap_xor dst b1 b2 bits = fold (\<lambda>k d. d(k := b1 k XOR b2 k)) [0..<BITS_TO_LONGS bits] dst"

definition bitmap_andnot :: "bitmap \<Rightarrow> bitmap \<Rightarrow> bitmap \<Rightarrow> nat \<Rightarrow> bitmap \<times> bool" where
  "bitmap_andnot dst b1 b2 bits =
     (let lim = bits div 64;
          (dst, result) = fold (\<lambda>k (d, r). (d(k := b1 k AND NOT (b2 k)), r OR (b1 k AND NOT (b2 k)))) [0..<lim] (dst, 0);
          last = b1 lim AND NOT (b2 lim) AND BITMAP_LAST_WORD_MASK bits
      in if bits mod 64 \<noteq> 0 then (dst(lim := last), result OR last \<noteq> 0) else (dst, result \<noteq> 0))"

definition bitmap_intersects :: "bitmap \<Rightarrow> bitmap \<Rightarrow> nat \<Rightarrow> bool" where
  "bitmap_intersects b1 b2 bits =
     (let lim = bits div 64
      in (\<exists>k\<in>set [0..<lim]. b1 k AND b2 k \<noteq> 0) \<or>
         bits mod 64 \<noteq> 0 \<and> (b1 lim AND b2 lim) AND BITMAP_LAST_WORD_MASK bits \<noteq> 0)"

definition bitmap_subset :: "bitmap \<Rightarrow> bitmap \<Rightarrow> nat \<Rightarrow> bool" where
  "bitmap_subset b1 b2 bits =
     (let lim = bits div 64
      in \<not> ((\<exists>k\<in>set [0..<lim]. b1 k AND NOT (b2 k) \<noteq> 0) \<or>
         bits mod 64 \<noteq> 0 \<and> (b1 lim AND NOT (b2 lim)) AND BITMAP_LAST_WORD_MASK bits \<noteq> 0))"

text \<open>The sum is an \<^verbatim>\<open>int\<close>.\<close>

definition bitmap_weight :: "bitmap \<Rightarrow> nat \<Rightarrow> int" where
  "bitmap_weight bitmap bits =
     (let lim = bits div 64;
          w = fold (\<lambda>k w. s32 (w + int (hweight64 (bitmap k)))) [0..<lim] 0
      in if bits mod 64 \<noteq> 0 then s32 (w + int (hweight64 (bitmap lim AND BITMAP_LAST_WORD_MASK bits))) else w)"

section \<open>Shifting\<close>

definition bitmap_shift_right :: "bitmap \<Rightarrow> bitmap \<Rightarrow> nat \<Rightarrow> nat \<Rightarrow> bitmap" where
  "bitmap_shift_right dst src shift nbits =
     (let lim = BITS_TO_LONGS nbits;
          off = shift div 64;
          rem = shift mod 64;
          mask = BITMAP_LAST_WORD_MASK nbits;
          dst = fold (\<lambda>k d.
            let upper = (if rem = 0 \<or> off + k + 1 \<ge> lim then 0
                         else push_bit (64 - rem)
                                (if off + k + 1 = lim - 1 then src (off + k + 1) AND mask else src (off + k + 1)));
                lower = drop_bit rem (if off + k = lim - 1 then src (off + k) AND mask else src (off + k))
            in d(k := lower OR upper)) [0..<lim - off] dst
      in if off \<noteq> 0 then (\<lambda>i. if sub32 lim off \<le> i \<and> i < sub32 lim off + off then 0 else dst i) else dst)"

definition bitmap_shift_left :: "bitmap \<Rightarrow> bitmap \<Rightarrow> nat \<Rightarrow> nat \<Rightarrow> bitmap" where
  "bitmap_shift_left dst src shift nbits =
     (let lim = BITS_TO_LONGS nbits;
          off = shift div 64;
          rem = shift mod 64;
          dst = fold (\<lambda>k d.
            let lower = (if rem \<noteq> 0 \<and> k > 0 then drop_bit (64 - rem) (src (k - 1)) else 0);
                upper = push_bit rem (src k)
            in d(k + off := lower OR upper)) (rev [0..<lim - off]) dst
      in if off \<noteq> 0 then (\<lambda>i. if i < off then 0 else dst i) else dst)"

section \<open>Setting and clearing ranges\<close>

text \<open>The first word is masked on the left, the words in the middle are filled, the last one is
  masked on the right.  \<^verbatim>\<open>start + len\<close> is an \<^verbatim>\<open>unsigned int\<close>.\<close>

function bitmap_set_loop :: "bitmap \<Rightarrow> nat \<Rightarrow> nat \<Rightarrow> nat \<Rightarrow> 64 word \<Rightarrow> bitmap \<times> nat \<times> nat \<times> 64 word" where
  "bitmap_set_loop m p len bits_to_set mask_to_set =
     (if len \<ge> bits_to_set
      then bitmap_set_loop (m(p := m p OR mask_to_set)) (p + 1) (len - bits_to_set) 64 (NOT 0)
      else (m, p, len, mask_to_set))"
  by pat_completeness auto
termination by (relation "measure (\<lambda>(m, p, len, b, mask). if b = 0 then len + 1 else len)") auto

declare bitmap_set_loop.simps [simp del]

definition bitmap_set :: "bitmap \<Rightarrow> nat \<Rightarrow> nat \<Rightarrow> bitmap" where
  "bitmap_set bm start len =
     (case bitmap_set_loop bm (start div 64) len (64 - start mod 64) (BITMAP_FIRST_WORD_MASK start) of
        (m, p, len', msk) \<Rightarrow>
          if len' \<noteq> 0 then m(p := m p OR (msk AND BITMAP_LAST_WORD_MASK (add32 start len))) else m)"

function bitmap_clear_loop :: "bitmap \<Rightarrow> nat \<Rightarrow> nat \<Rightarrow> nat \<Rightarrow> 64 word \<Rightarrow> bitmap \<times> nat \<times> nat \<times> 64 word" where
  "bitmap_clear_loop m p len bits_to_clear mask_to_clear =
     (if len \<ge> bits_to_clear
      then bitmap_clear_loop (m(p := m p AND NOT mask_to_clear)) (p + 1) (len - bits_to_clear) 64 (NOT 0)
      else (m, p, len, mask_to_clear))"
  by pat_completeness auto
termination by (relation "measure (\<lambda>(m, p, len, b, mask). if b = 0 then len + 1 else len)") auto

declare bitmap_clear_loop.simps [simp del]

definition bitmap_clear :: "bitmap \<Rightarrow> nat \<Rightarrow> nat \<Rightarrow> bitmap" where
  "bitmap_clear bm start len =
     (case bitmap_clear_loop bm (start div 64) len (64 - start mod 64) (BITMAP_FIRST_WORD_MASK start) of
        (m, p, len', msk) \<Rightarrow>
          if len' \<noteq> 0 then m(p := m p AND NOT (msk AND BITMAP_LAST_WORD_MASK (add32 start len))) else m)"

section \<open>Regions\<close>

datatype reg_op = REG_OP_ISFREE | REG_OP_ALLOC | REG_OP_RELEASE

text \<open>\<^verbatim>\<open>1 << order\<close> is an \<^verbatim>\<open>int\<close>: \<open>order\<close> is at most 30.\<close>

definition do_reg_op :: "bitmap \<Rightarrow> nat \<Rightarrow> nat \<Rightarrow> reg_op \<Rightarrow> bitmap \<times> bool" where
  "do_reg_op bitmap pos order op =
     (let nbits_reg = 2 ^ order;
          index = pos div 64;
          offset = pos - index * 64;
          nlongs_reg = BITS_TO_LONGS nbits_reg;
          nbitsinlong = min nbits_reg 64;
          mask = (push_bit (nbitsinlong - 1) 1 :: 64 word);
          mask = mask + (mask - 1);
          mask = push_bit offset mask
      in case op of
           REG_OP_ISFREE \<Rightarrow> (bitmap, \<forall>i\<in>set [0..<nlongs_reg]. bitmap (index + i) AND mask = 0)
         | REG_OP_ALLOC \<Rightarrow> (fold (\<lambda>i b. b(index + i := b (index + i) OR mask)) [0..<nlongs_reg] bitmap, False)
         | REG_OP_RELEASE \<Rightarrow> (fold (\<lambda>i b. b(index + i := b (index + i) AND NOT mask)) [0..<nlongs_reg] bitmap, False))"

text \<open>\<^verbatim>\<open>end\<close> is an \<^verbatim>\<open>unsigned int\<close>, so the scan can start over; \<open>None\<close> is a scan that does not
  end.  The position is returned as an \<^verbatim>\<open>int\<close>, and -12 is \<^verbatim>\<open>-ENOMEM\<close>.\<close>

partial_function (option) find_free_region_loop :: "bitmap \<Rightarrow> nat \<Rightarrow> nat \<Rightarrow> nat \<Rightarrow> (bitmap \<times> int) option" where
  "find_free_region_loop bitmap bits order pos =
     (if add32 pos (2 ^ order) \<le> bits
      then if \<not> snd (do_reg_op bitmap pos order REG_OP_ISFREE)
           then find_free_region_loop bitmap bits order (add32 pos (2 ^ order))
           else Some (fst (do_reg_op bitmap pos order REG_OP_ALLOC), s32 (int pos))
      else Some (bitmap, - 12))"

definition bitmap_find_free_region :: "bitmap \<Rightarrow> nat \<Rightarrow> nat \<Rightarrow> (bitmap \<times> int) option" where
  "bitmap_find_free_region bitmap bits order = find_free_region_loop bitmap bits order 0"

definition bitmap_release_region :: "bitmap \<Rightarrow> nat \<Rightarrow> nat \<Rightarrow> bitmap" where
  "bitmap_release_region bitmap pos order = fst (do_reg_op bitmap pos order REG_OP_RELEASE)"

definition bitmap_allocate_region :: "bitmap \<Rightarrow> nat \<Rightarrow> nat \<Rightarrow> ox_error + bitmap" where
  "bitmap_allocate_region bitmap pos order =
     (if \<not> snd (do_reg_op bitmap pos order REG_OP_ISFREE) then Inl Blocked
      else Inr (fst (do_reg_op bitmap pos order REG_OP_ALLOC)))"

section \<open>Arrays of 32-bit words\<close>

definition bitmap_from_u32array :: "bitmap \<Rightarrow> nat \<Rightarrow> (nat \<Rightarrow> 32 word) \<Rightarrow> nat \<Rightarrow> bitmap \<times> nat" where
  "bitmap_from_u32array bitmap nbits buf nwords =
     (let (src_idx, bitmap) = fold (\<lambda>dst_idx (src_idx, b).
            let (part, src_idx) = (if src_idx < nwords then (ucast (buf src_idx) :: 64 word, src_idx + 1) else (0, src_idx));
                (part, src_idx) = (if src_idx < nwords then (part OR push_bit 32 (ucast (buf src_idx)), src_idx + 1)
                                   else (part, src_idx));
                mask = BITMAP_LAST_WORD_MASK nbits
            in if dst_idx < nbits div 64 then (src_idx, b(dst_idx := part))
               else (src_idx, b(dst_idx := (b dst_idx AND NOT mask) OR (part AND mask)))) [0..<BITS_TO_LONGS nbits] (0, bitmap)
      in (bitmap, min nbits (32 * nwords)))"

function to_u32array_loop :: "(nat \<Rightarrow> 32 word) \<Rightarrow> nat \<Rightarrow> bitmap \<Rightarrow> nat \<Rightarrow> nat \<Rightarrow> nat \<Rightarrow> nat \<Rightarrow> 32 word" where
  "to_u32array_loop buf nwords bitmap nbits dst_idx src_idx =
     (if dst_idx < nwords
      then let (part, src_idx) =
                 (if src_idx < BITS_TO_LONGS nbits
                  then (if src_idx \<ge> nbits div 64 then bitmap src_idx AND BITMAP_LAST_WORD_MASK nbits else bitmap src_idx,
                        src_idx + 1)
                  else (0, src_idx));
               buf = buf(dst_idx := ucast part)
           in if dst_idx + 1 < nwords
              then to_u32array_loop (buf(dst_idx + 1 := ucast (drop_bit 32 part))) nwords bitmap nbits (dst_idx + 2) src_idx
              else buf
      else buf)"
  by pat_completeness auto
termination by (relation "measure (\<lambda>(buf, nwords, bitmap, nbits, dst_idx, src_idx). nwords - dst_idx)") auto

declare to_u32array_loop.simps [simp del]

definition bitmap_to_u32array :: "(nat \<Rightarrow> 32 word) \<Rightarrow> nat \<Rightarrow> bitmap \<Rightarrow> nat \<Rightarrow> (nat \<Rightarrow> 32 word) \<times> nat" where
  "bitmap_to_u32array buf nwords bitmap nbits =
     (to_u32array_loop buf nwords bitmap nbits 0 0, min nbits (32 * nwords))"

section \<open>Lemmas on words\<close>

lemma bit_first_mask [simp]: "bit (BITMAP_FIRST_WORD_MASK s) n \<longleftrightarrow> s mod 64 \<le> n \<and> n < 64"
  by (auto simp: BITMAP_FIRST_WORD_MASK_def bit_simps)

lemma bit_last_mask: "bit (BITMAP_LAST_WORD_MASK b) n \<longleftrightarrow> n < 64 \<and> (b mod 64 = 0 \<or> n < b mod 64)"
proof -
  have "b mod 64 < 64" by simp
  then have "(64 - b mod 64) mod 64 = (if b mod 64 = 0 then 0 else 64 - b mod 64)" by simp
  then show ?thesis by (auto simp: BITMAP_LAST_WORD_MASK_def bit_simps)
qed

lemma word64_eqI: "(\<And>n. n < 64 \<Longrightarrow> bit (a :: 64 word) n = bit b n) \<Longrightarrow> a = b"
  by (auto intro!: bit_word_eqI)

lemma word64_zero: "(w :: 64 word) = 0 \<longleftrightarrow> (\<forall>n<64. \<not> bit w n)"
  by (auto intro!: word64_eqI)

lemma ffs_le: "ffs w \<le> 64"
  using length_takeWhile_le [of _ "[0..<64]"] by (simp add: ffs_def)

lemma ffs_bits: "w \<noteq> 0 \<Longrightarrow> ffs w < 64 \<and> bit w (ffs w)" "n < ffs w \<Longrightarrow> \<not> bit w n"
proof -
  let ?P = "\<lambda>n. \<not> bit w n"
  let ?t = "takeWhile ?P [0..<64]"
  have below: "\<not> bit w n" if "n < ffs w" for n
  proof -
    have "?t ! n = [0..<64] ! n" using that by (intro takeWhile_nth) (simp add: ffs_def)
    moreover have "?t ! n \<in> set ?t" using that by (simp add: ffs_def)
    ultimately show ?thesis using that ffs_le [of w] by (auto dest: set_takeWhileD)
  qed
  show "ffs w < 64 \<and> bit w (ffs w)" if "w \<noteq> 0"
  proof -
    have "ffs w \<noteq> 64" using that below by (metis word64_zero)
    then have "length ?t < length [0..<64]" using ffs_le [of w] by (simp add: ffs_def)
    then show ?thesis using nth_length_takeWhile [of ?P "[0..<64]"] by (simp add: ffs_def)
  qed
  show "n < ffs w \<Longrightarrow> \<not> bit w n" by (rule below)
qed

lemma fls_bits:
  assumes "w \<noteq> 0"
  shows "fls w < 64 \<and> bit w (fls w)" "fls w < n \<Longrightarrow> \<not> bit w n"
proof -
  let ?P = "\<lambda>n. \<not> bit w n"
  let ?t = "takeWhile ?P (rev [0..<64])"
  have l: "length ?t < length (rev [0..<64])"
  proof (rule ccontr)
    assume "\<not> length ?t < length (rev [0..<64])"
    then have "length ?t = length (rev [0..<64])" using length_takeWhile_le [of ?P "rev [0..<64]"] by linarith
    then have "?t = rev [0..<64]" by (metis append_Nil2 append_take_drop_id drop_eq_Nil order_refl take_all takeWhile_eq_take)
    then have "\<forall>n\<in>set (rev [0..<64]). ?P n" by (metis takeWhile_eq_all_conv)
    then show False using assms by (auto simp: word64_zero)
  qed
  then have "\<not> ?P (rev [0..<64] ! length ?t)" by (rule nth_length_takeWhile)
  then show "fls w < 64 \<and> bit w (fls w)" using l by (simp add: fls_def rev_nth)
  show "\<not> bit w n" if "fls w < n"
  proof (cases "n < 64")
    case True
    have i: "63 - n < length ?t" using that l True by (simp add: fls_def)
    then have "?t ! (63 - n) = n" using l True by (simp add: takeWhile_nth rev_nth)
    moreover have "?t ! (63 - n) \<in> set ?t" using i by (rule nth_mem)
    ultimately show ?thesis by (auto dest: set_takeWhileD)
  next
    case False
    then show ?thesis using bit_imp_le_length [of w n] by auto
  qed
qed

lemma bm_bit_word [simp]: "k < 64 \<Longrightarrow> bm_bit m (64 * i + k) = bit (m i) k" "k < 64 \<Longrightarrow> bm_bit m (i * 64 + k) = bit (m i) k"
  by (simp_all add: bm_bit_def)

lemma bm_eqI: "(\<And>n. bm_bit a n = bm_bit b n) \<Longrightarrow> a = b"
  by (rule ext, rule word64_eqI) (metis bm_bit_word(1))

lemma word_of_bit: "\<exists>i k. n = 64 * i + k \<and> k < (64 :: nat)"
  by (intro exI [of _ "n div 64"] exI [of _ "n mod 64"]) simp

section \<open>Searching\<close>

text \<open>\<open>r\<close> is the first position of \<open>[start, n)\<close> with \<open>P\<close>, or \<open>n\<close>.\<close>

definition first_pos :: "(nat \<Rightarrow> bool) \<Rightarrow> nat \<Rightarrow> nat \<Rightarrow> nat \<Rightarrow> bool" where
  "first_pos P start n r \<longleftrightarrow> start \<le> r \<and> r \<le> n \<and> (\<forall>i. start \<le> i \<longrightarrow> i < r \<longrightarrow> \<not> P i) \<and> (r < n \<longrightarrow> P r)"

lemma first_pos_word:
  assumes w: "\<And>k. k < 64 \<Longrightarrow> bit w k \<longleftrightarrow> s \<le> 64 * i + k \<and> P (64 * i + k)" "w \<noteq> 0" and i: "64 * i \<le> s" "s < 64 * i + 64" "s < n"
  shows "first_pos P s n (min (64 * i + ffs w) n)"
proof -
  have f: "ffs w < 64" "bit w (ffs w)" using ffs_bits(1) [OF w(2)] by auto
  have p: "s \<le> 64 * i + ffs w" "P (64 * i + ffs w)" using w(1) [OF f(1)] f(2) by auto
  have "\<not> P j" if j: "s \<le> j" "j < 64 * i + ffs w" for j
  proof -
    have "j - 64 * i < ffs w" "64 * i + (j - 64 * i) = j" using j i by auto
    then show ?thesis using ffs_bits(2) [of "j - 64 * i" w] w(1) [of "j - 64 * i"] f(1) j(1) by auto
  qed
  then show ?thesis using p i by (auto simp: first_pos_def min_def)
qed

lemma first_pos_skip:
  assumes "\<And>j. s \<le> j \<Longrightarrow> j < s' \<Longrightarrow> \<not> P j" "s \<le> s'" "first_pos P s' n r"
  shows "first_pos P s n r"
  unfolding first_pos_def
proof (intro conjI allI impI)
  show "s \<le> r" "r \<le> n" using assms(2,3) by (auto simp: first_pos_def)
  show "P r" if "r < n" using assms(3) that by (simp add: first_pos_def)
  show "\<not> P i" if "s \<le> i" "i < r" for i
    using assms(1) [of i] assms(3) that by (cases "i < s'") (auto simp: first_pos_def)
qed

lemma find_next_loop_first:
  fixes addr invert
  defines "P \<equiv> \<lambda>j. bit (addr (j div 64) XOR invert) (j mod 64)"
  assumes "\<And>k. k < 64 \<Longrightarrow> bit tmp k \<longleftrightarrow> s \<le> 64 * i + k \<and> P (64 * i + k)" "64 * i \<le> s" "s < 64 * i + 64" "s < n"
  shows "first_pos P s n (find_next_loop addr n invert (64 * i) tmp)"
  using assms(2-5)
proof (induction "n - 64 * i" arbitrary: i s tmp rule: less_induct)
  case less
  note tmp = less.prems(1)
  show ?case
  proof (cases "tmp = 0")
    case False
    then show ?thesis using first_pos_word [OF tmp _ less.prems(2-4)] by (simp add: find_next_loop.simps)
  next
    case True
    have none: "\<not> P j" if "s \<le> j" "j < 64 * i + 64" for j
    proof -
      have "j - 64 * i < 64" "64 * i + (j - 64 * i) = j" using that less.prems(2) by auto
      then show ?thesis using tmp [of "j - 64 * i"] True that(1) by auto
    qed
    show ?thesis
    proof (cases "n \<le> 64 * i + 64")
      case l: True
      then show ?thesis using True none less.prems by (auto simp: find_next_loop.simps first_pos_def)
    next
      case False
      let ?w = "addr (Suc i) XOR invert"
      have e: "64 * i + 64 = 64 * Suc i" by simp
      have d: "(64 * i + 64) div 64 = Suc i" by simp
      have b: "bit ?w k \<longleftrightarrow> 64 * Suc i \<le> 64 * Suc i + k \<and> P (64 * Suc i + k)" if "k < 64" for k
        using that by (simp add: P_def del: mult_Suc_right)
      have "first_pos P (64 * Suc i) n (find_next_loop addr n invert (64 * Suc i) ?w)"
        using False by (intro less.hyps [OF _ b]) auto
      moreover have "find_next_loop addr n invert (64 * i) tmp = find_next_loop addr n invert (64 * Suc i) ?w"
        using True False by (subst find_next_loop.simps) (simp add: d e [symmetric] del: mult_Suc_right)
      ultimately show ?thesis using first_pos_skip [of s "64 * Suc i" P n, OF none] less.prems(3) by simp
    qed
  qed
qed

lemma find_next_common_first:
  assumes "start < n"
  shows "first_pos (\<lambda>j. bit (addr (j div 64) XOR invert) (j mod 64)) start n (find_next_bit_common addr n start invert)"
proof -
  have s: "start div 64 * 64 = 64 * (start div 64)" by simp
  have m: "start = 64 * (start div 64) + start mod 64" by simp
  have b: "start \<le> 64 * (start div 64) + k \<longleftrightarrow> start mod 64 \<le> k" for k using m by linarith
  have "start < 64 * (start div 64) + 64" using m mod_less_divisor [of 64 start] by linarith
  then have "first_pos (\<lambda>j. bit (addr (j div 64) XOR invert) (j mod 64)) start n
      (find_next_loop addr n invert (64 * (start div 64)) ((addr (start div 64) XOR invert) AND BITMAP_FIRST_WORD_MASK start))"
    using assms by (intro find_next_loop_first) (auto simp: bit_and_iff b)
  then show ?thesis using assms unfolding find_next_bit_common_def s by simp
qed

lemma find_next_bit_first: "start < n \<Longrightarrow> first_pos (bm_bit addr) start n (find_next_bit addr n start)"
  using find_next_common_first [of start n addr 0] by (simp add: find_next_bit_def bm_bit_def [abs_def])

lemma find_next_zero_bit_first:
  "start < n \<Longrightarrow> first_pos (\<lambda>j. \<not> bm_bit addr j) start n (find_next_zero_bit addr n start)"
  using find_next_common_first [of start n addr "NOT 0"] by (simp add: find_next_zero_bit_def bm_bit_def [abs_def] bit_simps)

lemma find_next_past [simp]: "n \<le> start \<Longrightarrow> find_next_bit addr n start = n" "n \<le> start \<Longrightarrow> find_next_zero_bit addr n start = n"
  by (simp_all add: find_next_bit_def find_next_zero_bit_def find_next_bit_common_def)

lemma find_first_loop_first:
  "64 * idx \<le> n \<Longrightarrow> first_pos (bm_bit addr) (64 * idx) n (find_first_loop addr n idx)"
proof (induction "n - idx" arbitrary: idx rule: less_induct)
  case less
  show ?case
  proof (cases "idx * 64 < n \<and> addr idx \<noteq> 0")
    case True
    then have "first_pos (bm_bit addr) (64 * idx) n (min (64 * idx + ffs (addr idx)) n)"
      by (intro first_pos_word) auto
    then show ?thesis using True by (simp add: find_first_loop.simps mult.commute)
  next
    case False
    note f = False
    show ?thesis
    proof (cases "idx * 64 < n")
      case True
      then have z: "addr idx = 0" using f by simp
      have none: "\<not> bm_bit addr j" if "64 * idx \<le> j" "j < 64 * idx + 64" for j
        using bm_bit_word(1) [of "j - 64 * idx" addr idx] that z by simp
      have u: "find_first_loop addr n idx = find_first_loop addr n (idx + 1)"
        using z True by (simp add: find_first_loop.simps [of addr n idx])
      show ?thesis
      proof (cases "64 * (idx + 1) \<le> n")
        case l: True
        then show ?thesis
          using first_pos_skip [OF none, of "64 * idx" "64 * (idx + 1)"] less.hyps [of "idx + 1"] True u by simp
      next
        case l: False
        then show ?thesis using none True u by (simp add: find_first_loop.simps [of addr n "Suc idx"] first_pos_def)
      qed
    next
      case False
      then show ?thesis using less.prems by (simp add: find_first_loop.simps first_pos_def)
    qed
  qed
qed

lemma find_first_bit_first: "first_pos (bm_bit addr) 0 n (find_first_bit addr n)"
  using find_first_loop_first [of 0 n addr] by (simp add: find_first_bit_def)

text \<open>The search for a clear bit is the search for a set bit in the complement.\<close>

lemma find_first_zero_loop_not: "find_first_zero_loop addr n idx = find_first_loop (\<lambda>i. NOT (addr i)) n idx"
proof (induction addr n idx rule: find_first_zero_loop.induct)
  case (1 addr n idx)
  have "addr idx \<noteq> NOT 0 \<longleftrightarrow> NOT (addr idx) \<noteq> 0" by (metis bit.double_compl)
  then show ?case
    using 1 by (subst find_first_zero_loop.simps, subst find_first_loop.simps) (simp add: ffz_def)
qed

lemma bm_bit_not [simp]: "bm_bit (\<lambda>i. NOT (addr i)) n \<longleftrightarrow> \<not> bm_bit addr n"
  by (simp add: bm_bit_def bit_simps)

lemma find_first_zero_bit_first: "first_pos (\<lambda>j. \<not> bm_bit addr j) 0 n (find_first_zero_bit addr n)"
  using find_first_bit_first [of "\<lambda>i. NOT (addr i)" n]
  by (simp add: find_first_zero_bit_def find_first_bit_def find_first_zero_loop_not bm_bit_not [abs_def])

section \<open>Ranges\<close>

lemma bm_bit_upd:
  assumes "\<And>k. k < 64 \<Longrightarrow> bit w k \<longleftrightarrow> P (64 * p + k)"
  shows "bm_bit (m(p := w)) n \<longleftrightarrow> (if n div 64 = p then P n else bm_bit m n)"
proof (cases "n div 64 = p")
  case True
  then have "n = 64 * p + n mod 64" by auto
  then show ?thesis using assms [of "n mod 64"] True by (simp add: bm_bit_def)
qed (simp add: bm_bit_def)

lemma in_word: "n div 64 = p \<longleftrightarrow> 64 * p \<le> n \<and> n < 64 * p + (64 :: nat)"
  by (auto simp: div_nat_eqI)

lemma bitmap_set_loop_bits:
  assumes "64 * p \<le> s" "s < 64 * p + 64" "\<And>k. k < 64 \<Longrightarrow> bit msk k \<longleftrightarrow> s \<le> 64 * p + k"
    and "bitmap_set_loop m p len (64 * p + 64 - s) msk = (m', p', len', msk')"
  shows "\<exists>s'. s \<le> s' \<and> s' + len' = s + len \<and> 64 * p' \<le> s' \<and> s' + len' < 64 * p' + 64 \<and>
    (\<forall>k < 64. bit msk' k \<longleftrightarrow> s' \<le> 64 * p' + k) \<and> (\<forall>n. bm_bit m' n \<longleftrightarrow> bm_bit m n \<or> s \<le> n \<and> n < s')"
  using assms
proof (induction len arbitrary: m p s msk rule: less_induct)
  case (less len)
  note p = less.prems(1,2) and msk = less.prems(3)
  show ?case
  proof (cases "64 * p + 64 - s \<le> len")
    case False
    then have "m' = m" "p' = p" "len' = len" "msk' = msk"
      using less.prems(4) by (simp_all add: bitmap_set_loop.simps)
    then show ?thesis using p msk False by (intro exI [of _ s]) auto
  next
    case True
    let ?m = "m(p := m p OR msk)"
    have e: "bitmap_set_loop ?m (p + 1) (len - (64 * p + 64 - s)) (64 * (p + 1) + 64 - 64 * (p + 1)) (NOT 0) = (m', p', len', msk')"
      using less.prems(4) True by (subst (asm) bitmap_set_loop.simps) simp
    have lt: "len - (64 * p + 64 - s) < len" using p True by linarith
    have "\<exists>s'. 64 * (p + 1) \<le> s' \<and> s' + len' = 64 * (p + 1) + (len - (64 * p + 64 - s)) \<and>
        64 * p' \<le> s' \<and> s' + len' < 64 * p' + 64 \<and> (\<forall>k < 64. bit msk' k \<longleftrightarrow> s' \<le> 64 * p' + k) \<and>
        (\<forall>n. bm_bit m' n \<longleftrightarrow> bm_bit ?m n \<or> 64 * (p + 1) \<le> n \<and> n < s')"
      by (rule less.IH [OF lt _ _ _ e]) (simp_all add: bit_simps)
    then obtain s' where s': "64 * (p + 1) \<le> s'" "s' + len' = 64 * (p + 1) + (len - (64 * p + 64 - s))"
        "64 * p' \<le> s'" "s' + len' < 64 * p' + 64" "\<forall>k < 64. bit msk' k \<longleftrightarrow> s' \<le> 64 * p' + k"
        "\<forall>n. bm_bit m' n \<longleftrightarrow> bm_bit ?m n \<or> 64 * (p + 1) \<le> n \<and> n < s'"
      by blast
    have "bm_bit ?m n \<longleftrightarrow> (if n div 64 = p then bm_bit m n \<or> s \<le> n else bm_bit m n)" for n
      by (rule bm_bit_upd) (simp add: msk bit_or_iff)
    then have "bm_bit ?m n \<longleftrightarrow> bm_bit m n \<or> s \<le> n \<and> n < 64 * (p + 1)" for n
      using p(1) in_word [of n p] by (simp del: fun_upd_apply) linarith
    then have "bm_bit m' n \<longleftrightarrow> bm_bit m n \<or> s \<le> n \<and> n < s'" for n using s'(1) spec [OF s'(6), of n] p(2) by (simp del: fun_upd_apply) linarith
    then show ?thesis using s'(1-5) True p by (intro exI [of _ s']) (simp del: fun_upd_apply)
  qed
qed

lemma bitmap_set_bits:
  assumes "start + len < 2 ^ 32"
  shows "bm_bit (bitmap_set m start len) n \<longleftrightarrow> bm_bit m n \<or> start \<le> n \<and> n < start + len"
proof -
  let ?p = "start div 64"
  have m: "start = 64 * ?p + start mod 64" by simp
  have l: "64 * ?p \<le> start" "start < 64 * ?p + 64" using m mod_less_divisor [of 64 start] by linarith+
  have b: "64 - start mod 64 = 64 * ?p + 64 - start" using m by linarith
  obtain m' p' len' msk' where r: "bitmap_set_loop m ?p len (64 * ?p + 64 - start) (BITMAP_FIRST_WORD_MASK start) = (m', p', len', msk')"
    using prod_cases4 by blast
  have "start \<le> 64 * ?p + k \<longleftrightarrow> start mod 64 \<le> k" for k using m by linarith
  then have k: "bit (BITMAP_FIRST_WORD_MASK start) k \<longleftrightarrow> start \<le> 64 * ?p + k" if "k < 64" for k
    unfolding bit_first_mask using that by blast
  obtain s' where s': "start \<le> s'" "s' + len' = start + len" "64 * p' \<le> s'" "s' + len' < 64 * p' + 64"
      "\<forall>k < 64. bit msk' k \<longleftrightarrow> s' \<le> 64 * p' + k" "\<forall>n. bm_bit m' n \<longleftrightarrow> bm_bit m n \<or> start \<le> n \<and> n < s'"
    using bitmap_set_loop_bits [OF l k r] by blast
  have b': "bitmap_set m start len = (if len' \<noteq> 0 then m'(p' := m' p' OR (msk' AND BITMAP_LAST_WORD_MASK (start + len))) else m')"
    using r assms by (simp only: bitmap_set_def b prod.case add32_id)
  show ?thesis
  proof (cases "len' = 0")
    case True
    then show ?thesis using spec [OF s'(6), of n] s'(2) unfolding b' by simp
  next
    case False
    let ?w = "m' p' OR (msk' AND BITMAP_LAST_WORD_MASK (start + len))"
    have e: "(start + len) mod 64 = start + len - 64 * p'"
    proof -
      have "start + len = 64 * p' + (start + len - 64 * p')" "start + len - 64 * p' < 64" using s'(2-4) by auto
      then show ?thesis by (metis mod_mult_self4 mod_less)
    qed
    then have "bit ?w k \<longleftrightarrow> bm_bit m' (64 * p' + k) \<or> s' \<le> 64 * p' + k \<and> 64 * p' + k < start + len" if "k < 64" for k
      using that s'(2-5) False by (auto simp: bit_or_iff bit_and_iff bit_last_mask)
    then have "bm_bit (m'(p' := ?w)) n \<longleftrightarrow> (if n div 64 = p' then bm_bit m' n \<or> s' \<le> n \<and> n < start + len else bm_bit m' n)"
      by (rule bm_bit_upd)
    then have "bm_bit (m'(p' := ?w)) n \<longleftrightarrow> bm_bit m' n \<or> s' \<le> n \<and> n < start + len"
      using s'(2-4) in_word [of n p'] by (simp del: fun_upd_apply) linarith
    then show ?thesis using spec [OF s'(6), of n] s'(1,2) False unfolding b' by (simp del: fun_upd_apply) linarith
  qed
qed

text \<open>Clearing is setting in the complement.\<close>

lemma bitmap_clear_loop_not:
  "bitmap_clear_loop m p len b msk =
     (case bitmap_set_loop (\<lambda>i. NOT (m i)) p len b msk of (m', r) \<Rightarrow> (\<lambda>i. NOT (m' i), r))"
proof (induction m p len b msk rule: bitmap_clear_loop.induct)
  case (1 m p len b msk)
  have "(\<lambda>i. NOT ((m(p := m p AND NOT msk)) i)) = (\<lambda>i. NOT (m i))(p := NOT (m p) OR msk)" by (simp add: fun_eq_iff)
  then show ?case
    using 1 by (subst bitmap_clear_loop.simps, subst bitmap_set_loop.simps) (simp add: case_prod_beta del: fun_upd_apply)
qed

lemma bitmap_clear_not: "bitmap_clear m start len = (\<lambda>i. NOT (bitmap_set (\<lambda>i. NOT (m i)) start len i))"
proof -
  obtain m' p' l' k' where "bitmap_set_loop (\<lambda>i. NOT (m i)) (start div 64) len (64 - start mod 64) (BITMAP_FIRST_WORD_MASK start) = (m', p', l', k')"
    by (metis prod_cases4)
  then show ?thesis by (simp add: bitmap_clear_def bitmap_set_def bitmap_clear_loop_not fun_eq_iff)
qed

lemma bitmap_clear_bits:
  "start + len < 2 ^ 32 \<Longrightarrow> bm_bit (bitmap_clear m start len) n \<longleftrightarrow> bm_bit m n \<and> \<not> (start \<le> n \<and> n < start + len)"
  by (simp add: bitmap_clear_not bitmap_set_bits)

section \<open>Iteration\<close>

lemma first_pos_unique: "first_pos P s n r \<Longrightarrow> first_pos P s n r' \<Longrightarrow> r = r'"
  by (auto simp: first_pos_def) (metis le_less_trans linorder_neqE_nat order.strict_trans2)

lemma find_next_bit_gt: "start < n \<Longrightarrow> start \<le> find_next_bit addr n start"
  using find_next_bit_first by (auto simp: first_pos_def)

text \<open>The positions that \<^verbatim>\<open>for_each_set_bit\<close> visits.\<close>

function each_bit_loop :: "bitmap \<Rightarrow> nat \<Rightarrow> nat \<Rightarrow> nat list" where
  "each_bit_loop addr sz b = (if b < sz then b # each_bit_loop addr sz (find_next_bit addr sz (b + 1)) else [])"
  by pat_completeness auto
termination
proof (relation "measure (\<lambda>(addr, sz, b). sz - b)", goal_cases)
  case (2 addr sz b)
  then show ?case using find_next_bit_gt [of "b + 1" sz addr] by (cases "b + 1 < sz") auto
qed simp

declare each_bit_loop.simps [simp del]

definition for_each_set_bit :: "bitmap \<Rightarrow> nat \<Rightarrow> nat list" where
  "for_each_set_bit addr sz = each_bit_loop addr sz (find_first_bit addr sz)"

lemma each_bit_loop_filter:
  "first_pos (bm_bit addr) s sz b \<Longrightarrow> each_bit_loop addr sz b = filter (bm_bit addr) [s..<sz]"
proof (induction addr sz b arbitrary: s rule: each_bit_loop.induct)
  case (1 addr sz b)
  note f = "1.prems"
  show ?case
  proof (cases "b < sz")
    case True
    have n: "first_pos (bm_bit addr) (b + 1) sz (find_next_bit addr sz (b + 1))"
      using True find_next_bit_first [of "b + 1" sz addr] by (cases "b + 1 < sz") (auto simp: first_pos_def)
    have "[s..<sz] = [s..<b] @ b # [b + 1..<sz]"
      using f True upt_add_eq_append [of s b "sz - b"] upt_conv_Cons [OF True] by (simp add: first_pos_def)
    moreover have "filter (bm_bit addr) [s..<b] = []" "bm_bit addr b" using f True by (auto simp: first_pos_def)
    ultimately show ?thesis using "1.IH" [OF True n] True by (simp add: each_bit_loop.simps [of addr sz b])
  next
    case False
    then show ?thesis using f by (auto simp: each_bit_loop.simps first_pos_def filter_empty_conv)
  qed
qed

lemma for_each_set_bit_filter: "for_each_set_bit addr sz = filter (bm_bit addr) [0..<sz]"
  unfolding for_each_set_bit_def by (rule each_bit_loop_filter [OF find_first_bit_first])

text \<open>\<^verbatim>\<open>__ALIGN_MASK\<close> on an \<^verbatim>\<open>unsigned long\<close>: \<open>y AND NOT m\<close> is \<open>y - (y AND m)\<close>.\<close>

definition ALIGN_MASK :: "nat \<Rightarrow> nat \<Rightarrow> nat" where
  "ALIGN_MASK x m = (let y = add64 x m in y - (y AND m))"

text \<open>\<open>None\<close> is a search that does not end.\<close>

partial_function (option) bitmap_find_next_zero_area_off :: "bitmap \<Rightarrow> nat \<Rightarrow> nat \<Rightarrow> nat \<Rightarrow> nat \<Rightarrow> nat \<Rightarrow> nat option" where
  "bitmap_find_next_zero_area_off m sz start nr align_mask align_offset =
     (let index = sub64 (ALIGN_MASK (add64 (find_next_zero_bit m sz start) align_offset) align_mask) align_offset;
          end = add64 index nr
      in if end > sz then Some end
         else let i = find_next_bit m end index
              in if i < end then bitmap_find_next_zero_area_off m sz (add64 i 1) nr align_mask align_offset
                 else Some index)"

section \<open>Ordinals and maps between bitmaps\<close>

definition bitmap_zero :: "bitmap \<Rightarrow> nat \<Rightarrow> bitmap" where
  "bitmap_zero dst nbits = (\<lambda>i. if i < BITS_TO_LONGS nbits then 0 else dst i)"

definition bitmap_pos_to_ord :: "bitmap \<Rightarrow> nat \<Rightarrow> nat \<Rightarrow> int" where
  "bitmap_pos_to_ord buf pos nbits =
     (if pos \<ge> nbits \<or> \<not> test_bit pos buf then - 1 else bitmap_weight buf pos)"

fun ord_to_pos_loop :: "bitmap \<Rightarrow> nat \<Rightarrow> nat \<Rightarrow> nat \<Rightarrow> nat" where
  "ord_to_pos_loop buf nbits 0 pos = pos"
| "ord_to_pos_loop buf nbits (Suc ord) pos =
     (if pos < nbits then ord_to_pos_loop buf nbits ord (find_next_bit buf nbits (pos + 1)) else pos)"

definition bitmap_ord_to_pos :: "bitmap \<Rightarrow> nat \<Rightarrow> nat \<Rightarrow> nat" where
  "bitmap_ord_to_pos buf ord nbits = ord_to_pos_loop buf nbits ord (find_first_bit buf nbits)"

text \<open>The size is an \<^verbatim>\<open>int\<close> here, so the weight is not negative.\<close>

definition bitmap_bitremap :: "nat \<Rightarrow> bitmap \<Rightarrow> bitmap \<Rightarrow> nat \<Rightarrow> nat" where
  "bitmap_bitremap oldbit old new bits =
     (let w = bitmap_weight new bits;
          n = bitmap_pos_to_ord old oldbit bits
      in if n < 0 \<or> w = 0 then oldbit else bitmap_ord_to_pos new (nat (n mod w)) bits)"

text \<open>Here the weight is stored in an \<^verbatim>\<open>unsigned int\<close>.\<close>

definition bitmap_remap :: "bitmap \<Rightarrow> bitmap \<Rightarrow> bitmap \<Rightarrow> bitmap \<Rightarrow> nat \<Rightarrow> bitmap" where
  "bitmap_remap dst src old new nbits =
     (let w = nat (bitmap_weight new nbits mod 2 ^ 32)
      in fold (\<lambda>oldbit d.
           let n = bitmap_pos_to_ord old oldbit nbits
           in if n < 0 \<or> w = 0 then set_bit_at oldbit d
              else set_bit_at (bitmap_ord_to_pos new (nat n mod w) nbits) d)
         (for_each_set_bit src nbits) (bitmap_zero dst nbits))"

definition bitmap_onto :: "bitmap \<Rightarrow> bitmap \<Rightarrow> bitmap \<Rightarrow> nat \<Rightarrow> bitmap" where
  "bitmap_onto dst orig relmap bits =
     fst (fold (\<lambda>n (d, m). (if test_bit m orig then set_bit_at n d else d, m + 1))
            (for_each_set_bit relmap bits) (bitmap_zero dst bits, 0))"

definition bitmap_fold :: "bitmap \<Rightarrow> bitmap \<Rightarrow> nat \<Rightarrow> nat \<Rightarrow> bitmap" where
  "bitmap_fold dst orig sz nbits =
     fold (\<lambda>oldbit d. set_bit_at (oldbit mod sz) d) (for_each_set_bit orig nbits) (bitmap_zero dst nbits)"

lemma test_bit_bm: "test_bit n m \<longleftrightarrow> bm_bit m n"
  by (auto simp: test_bit_def bm_bit_def word64_zero bit_simps)

lemma set_bit_at_bits [simp]: "bm_bit (set_bit_at i m) n \<longleftrightarrow> n = i \<or> bm_bit m n"
proof -
  have "bm_bit (set_bit_at i m) n \<longleftrightarrow> (if n div 64 = i div 64 then n = i \<or> bm_bit m n else bm_bit m n)"
    unfolding set_bit_at_def
  proof (rule bm_bit_upd)
    fix k :: nat assume k: "k < 64"
    have "64 * (i div 64) + k = i \<longleftrightarrow> k = i mod 64" using mult_div_mod_eq [of 64 i] by linarith
    then show "bit (m (i div 64) OR push_bit (i mod 64) 1) k \<longleftrightarrow> 64 * (i div 64) + k = i \<or> bm_bit m (64 * (i div 64) + k)"
      using k by (auto simp: bit_simps)
  qed
  then show ?thesis by auto
qed

lemma bitmap_zero_bits [simp]: "bm_bit (bitmap_zero m nbits) n \<longleftrightarrow> nbits \<le> n \<and> n div 64 \<ge> BITS_TO_LONGS nbits \<and> bm_bit m n"
proof -
  have "nbits \<le> n" if "BITS_TO_LONGS nbits \<le> n div 64"
    using that div_mult_mod_eq [of n 64] div_mult_mod_eq [of "nbits + 63" 64] mod_less_divisor [of 64 "nbits + 63"]
    unfolding BITS_TO_LONGS_def by linarith
  then show ?thesis by (auto simp: bitmap_zero_def bm_bit_def)
qed

text \<open>The weight of a word, and of a bitmap, is the number of set bits.\<close>

lemma hweight8_filter: "hweight8 w = length (filter (bit w) [0..<8])"
proof -
  have "[0..<8] = [0, 1, 2, 3, 4, 5, 6, 7 :: nat]" by code_simp
  moreover have "length (filter P (x # xs)) = of_bool (P x) + length (filter P xs)" for P and x :: nat and xs by simp
  ultimately show ?thesis by (simp only: hweight8_def filter.simps(1) list.size(3))
qed

lemma upt_shift: "[0..<a + b] = [0..<a] @ map ((+) a) [0..<b]"
proof -
  have "map ((+) a) [0..<b] = map (\<lambda>i. i + a) [0..<b]" by (simp add: add.commute)
  then show ?thesis using upt_add_eq_append [of 0 a b] by (simp only: map_add_upt) (simp add: add.commute)
qed

lemma weight_split: "length (filter (bit w) [0..<a + b]) = length (filter (bit w) [0..<a]) + length (filter (bit (drop_bit a w)) [0..<b])"
  for w :: "64 word"
  unfolding upt_shift by (simp add: filter_map comp_def bit_drop_bit_eq)

lemma hweight64_filter: "hweight64 w = length (filter (bit w) [0..<64])"
proof -
  have 16: "hweight16 v = length (filter (bit v) [0..<16])" for v
    using weight_split [of v 8 8] by (simp add: hweight16_def hweight8_filter)
  have 32: "hweight32 v = length (filter (bit v) [0..<32])" for v
    using weight_split [of v 16 16] by (simp add: hweight32_def 16)
  show ?thesis using weight_split [of w 32 32] by (simp add: hweight64_def 32)
qed

lemma filter_bits_words:
  "k \<le> 64 \<Longrightarrow> length (filter (bm_bit m) [0..<64 * lim + k]) =
     length (filter (bm_bit m) [0..<64 * lim]) + length (filter (bit (m lim)) [0..<k])"
proof -
  assume k: "k \<le> 64"
  have "filter (bm_bit m \<circ> (+) (64 * lim)) [0..<k] = filter (bit (m lim)) [0..<k]" using k by (intro filter_cong) auto
  then show ?thesis unfolding upt_shift by (simp add: filter_map)
qed

lemma s32_add: "s32 (s32 a + b) = s32 (a + b)" "s32 (b + s32 a) = s32 (b + a)"
  unfolding s32_def by (metis signed_take_bit_add signed_take_bit_signed_take_bit min.idem)+

lemma s32_small: "0 \<le> w \<Longrightarrow> w < 2 ^ 31 \<Longrightarrow> s32 w = w"
  by (simp add: s32_def signed_take_bit_int_eq_self_iff)

lemma s32_nat: "n < 2 ^ 32 \<Longrightarrow> s32 (int n) = (if n < 2 ^ 31 then int n else int n - 2 ^ 32)"
proof (cases "n < 2 ^ 31")
  case False
  assume n: "n < 2 ^ 32"
  have "s32 (int n) = s32 (int n - 2 ^ 32)"
    unfolding s32_def signed_take_bit_eq_iff_take_bit_eq take_bit_eq_mod by (simp add: mod_diff_right_eq [symmetric])
  also have "\<dots> = int n - 2 ^ 32" unfolding s32_def using False n by (intro signed_take_bit_int_eq_self) simp_all
  finally show ?thesis using False by simp
qed (simp add: s32_small)

text \<open>The number of set bits below a position.\<close>

definition bits_below :: "bitmap \<Rightarrow> nat \<Rightarrow> nat" where
  "bits_below m n = length (filter (bm_bit m) [0..<n])"

lemma bits_below_le: "bits_below m n \<le> n"
  using length_filter_le [of "bm_bit m" "[0..<n]"] by (simp add: bits_below_def)

lemma weight_words: "fold (\<lambda>k w. s32 (w + int (hweight64 (m k)))) [0..<lim] 0 = s32 (int (bits_below m (64 * lim)))"
proof (induction lim)
  case 0
  then show ?case by (simp add: s32_small bits_below_def)
next
  case (Suc lim)
  then show ?case using filter_bits_words [of 64 m lim] by (simp add: s32_add hweight64_filter bits_below_def add.commute)
qed

lemma bitmap_weight_s32: "bitmap_weight m bits = s32 (int (bits_below m bits))"
proof -
  let ?k = "bits mod 64"
  have k: "?k < 64" by simp
  have "[0..<64] = [0..<?k] @ [?k..<64]" using k upt_add_eq_append [of 0 ?k "64 - ?k"] by simp
  moreover have "filter (bit (w AND BITMAP_LAST_WORD_MASK bits)) [0..<?k] = filter (bit w) [0..<?k]"
      "?k \<noteq> 0 \<Longrightarrow> filter (bit (w AND BITMAP_LAST_WORD_MASK bits)) [?k..<64] = []" for w :: "64 word"
    using k by (auto simp: bit_and_iff bit_last_mask filter_empty_conv intro!: filter_cong)
  ultimately have "hweight64 (w AND BITMAP_LAST_WORD_MASK bits) = length (filter (bit w) [0..<?k])" if "?k \<noteq> 0" for w
    using that by (simp add: hweight64_filter)
  then have h: "hweight64 (m (bits div 64) AND BITMAP_LAST_WORD_MASK bits) = length (filter (bit (m (bits div 64))) [0..<?k])"
      if "?k \<noteq> 0" using that by blast
  have "bits_below m bits = bits_below m (64 * (bits div 64)) + length (filter (bit (m (bits div 64))) [0..<?k])"
    using filter_bits_words [of ?k m "bits div 64"] k by (simp add: bits_below_def)
  then show ?thesis using h by (simp only: bitmap_weight_def Let_def weight_words) (simp add: s32_add)
qed

lemma bitmap_weight_small: "bits < 2 ^ 31 \<Longrightarrow> bitmap_weight m bits = int (bits_below m bits)"
  using bits_below_le [of m bits] by (simp add: bitmap_weight_s32 s32_small)

text \<open>The \<open>n\<close>-th set bit, and the number of set bits before a position, are inverse.\<close>

lemma ord_to_pos_loop_nth:
  "first_pos (bm_bit buf) s nbits pos \<Longrightarrow>
   ord_to_pos_loop buf nbits ord pos = (let L = filter (bm_bit buf) [s..<nbits] in if ord < length L then L ! ord else nbits)"
proof (induction ord arbitrary: s pos)
  case 0
  show ?case
  proof (cases "pos < nbits")
    case True
    then have "each_bit_loop buf nbits pos = pos # each_bit_loop buf nbits (find_next_bit buf nbits (pos + 1))"
      by (simp add: each_bit_loop.simps)
    then show ?thesis using each_bit_loop_filter [OF 0] by (simp add: Let_def)
  next
    case False
    then show ?thesis using 0 each_bit_loop_filter [OF 0] by (simp add: each_bit_loop.simps first_pos_def)
  qed
next
  case (Suc ord)
  show ?case
  proof (cases "pos < nbits")
    case True
    have "first_pos (bm_bit buf) (pos + 1) nbits (find_next_bit buf nbits (pos + 1))"
      using True find_next_bit_first [of "pos + 1" nbits buf] by (cases "pos + 1 < nbits") (auto simp: first_pos_def)
    note n = this Suc.IH [OF this] each_bit_loop_filter [OF this]
    have "filter (bm_bit buf) [s..<nbits] = pos # filter (bm_bit buf) [pos + 1..<nbits]"
      using each_bit_loop_filter [OF Suc.prems] n(3) True by (simp add: each_bit_loop.simps [of buf nbits pos])
    then show ?thesis using n(2) True by (simp add: Let_def)
  next
    case False
    then have "filter (bm_bit buf) [s..<nbits] = []"
      using each_bit_loop_filter [OF Suc.prems] by (simp add: each_bit_loop.simps)
    then show ?thesis using False Suc.prems by (simp add: first_pos_def)
  qed
qed

lemma bitmap_ord_to_pos_nth:
  "bitmap_ord_to_pos buf ord nbits =
     (if ord < bits_below buf nbits then filter (bm_bit buf) [0..<nbits] ! ord else nbits)"
  using ord_to_pos_loop_nth [OF find_first_bit_first, of buf nbits ord]
  by (simp add: bitmap_ord_to_pos_def bits_below_def Let_def)

lemma filter_upt_split:
  "pos < n \<Longrightarrow> P pos \<Longrightarrow> filter P [0..<n] = filter P [0..<pos] @ pos # filter P [pos + 1..<n]"
  using upt_add_eq_append [of 0 pos "n - pos"] upt_conv_Cons [of pos n] by simp

lemma ord_of_pos:
  assumes "pos < nbits" "bm_bit buf pos"
  shows "bits_below buf pos < bits_below buf nbits" "bitmap_ord_to_pos buf (bits_below buf pos) nbits = pos"
  using assms filter_upt_split [of pos nbits "bm_bit buf"]
  by (simp_all add: bitmap_ord_to_pos_nth bits_below_def nth_append)

lemma pos_to_ord_small:
  assumes "pos < nbits" "bm_bit buf pos" "nbits < 2 ^ 31"
  shows "bitmap_pos_to_ord buf pos nbits = int (bits_below buf pos)"
  using assms by (simp add: bitmap_pos_to_ord_def test_bit_bm bitmap_weight_small)

lemma pos_of_ord:
  assumes "ord < bits_below buf nbits"
  shows "bitmap_ord_to_pos buf ord nbits < nbits" "bm_bit buf (bitmap_ord_to_pos buf ord nbits)"
    "bits_below buf (bitmap_ord_to_pos buf ord nbits) = ord"
proof -
  let ?L = "filter (bm_bit buf) [0..<nbits]" and ?p = "bitmap_ord_to_pos buf ord nbits"
  have l: "ord < length ?L" using assms by (simp add: bits_below_def)
  have p: "?p = ?L ! ord" using assms by (simp add: bitmap_ord_to_pos_nth)
  have "?p \<in> set ?L" unfolding p using l by (rule nth_mem)
  then show q: "?p < nbits" "bm_bit buf ?p" by auto
  let ?n = "bits_below buf ?p"
  have n: "?n < length ?L" "?L ! ?n = ?p"
    using ord_of_pos [OF q] by (simp_all add: bitmap_ord_to_pos_nth bits_below_def)
  then show "?n = ord" using l p nth_eq_iff_index_eq [of ?L ?n ord] by simp
qed

lemma fold_set_bits: "bm_bit (fold (\<lambda>b d. set_bit_at (f b) d) xs d) n \<longleftrightarrow> (\<exists>b\<in>set xs. n = f b) \<or> bm_bit d n"
  by (induction xs arbitrary: d) auto

lemma bitmap_remap_fold:
  assumes "nbits < 2 ^ 31"
  shows "bitmap_remap dst src old new nbits =
     fold (\<lambda>b d. set_bit_at (bitmap_bitremap b old new nbits) d) (for_each_set_bit src nbits) (bitmap_zero dst nbits)"
proof -
  have w: "bitmap_weight new nbits = int (bits_below new nbits)" "bits_below new nbits < 2 ^ 32"
    using assms bits_below_le [of new nbits] by (simp_all add: bitmap_weight_small)
  have "nat (n mod int b) = nat n mod b" if "0 \<le> n" for n b using that by (simp add: nat_mod_distrib)
  then show ?thesis
    using w unfolding bitmap_remap_def bitmap_bitremap_def Let_def by (intro fold_cong) auto
qed

lemma bitmap_onto_bits:
  "bm_bit (fst (fold (\<lambda>n (d, m). (if test_bit m orig then set_bit_at n d else d, m + 1)) xs (d, k))) n \<longleftrightarrow>
     (\<exists>i < length xs. n = xs ! i \<and> bm_bit orig (k + i)) \<or> bm_bit d n"
proof (induction xs arbitrary: d k)
  case (Cons x xs)
  have "(\<exists>i < Suc (length xs). n = (x # xs) ! i \<and> bm_bit orig (k + i)) \<longleftrightarrow>
      n = x \<and> bm_bit orig k \<or> (\<exists>i < length xs. n = xs ! i \<and> bm_bit orig (k + 1 + i))"
    by (subst Ex_less_Suc2) auto
  then show ?case using Cons [of _ "k + 1"] by (auto simp: test_bit_bm)
qed simp

section \<open>Whole words\<close>

lemma fold_write: "fold (\<lambda>k d. d(k := f k)) [0..<n] d = (\<lambda>i. if i < n then f i else d i)"
  by (induction n) (auto simp: fun_eq_iff)

lemma fold_write_or:
  "fold (\<lambda>k (d, r). (d(k := f k), r OR f k)) [0..<n] (d, r0 :: 64 word) =
     ((\<lambda>i. if i < n then f i else d i), fold (\<lambda>k r. r OR f k) [0..<n] r0)"
  by (induction n) (auto simp: fun_eq_iff)

lemma fold_or_zero: "fold (\<lambda>k r. r OR f k) [0..<n] (r0 :: 64 word) = 0 \<longleftrightarrow> r0 = 0 \<and> (\<forall>k<n. f k = 0)"
proof (induction n)
  case (Suc n)
  have "a OR b = 0 \<longleftrightarrow> a = 0 \<and> b = 0" for a b :: "64 word" by (auto simp: word64_zero bit_or_iff)
  then show ?case using Suc by (auto simp: less_Suc_eq)
qed simp

text \<open>A statement on the words below \<open>bits div 64\<close> and the masked last word is one on
  the bits below \<open>bits\<close>.\<close>

lemma lex64: "c < 64 \<Longrightarrow> r < (64 :: nat) \<Longrightarrow> 64 * a + c < 64 * q + r \<longleftrightarrow> a < q \<or> a = q \<and> c < r"
  by (cases a q rule: linorder_cases) auto

lemma all_words_bits:
  assumes "\<And>k n. n < 64 \<Longrightarrow> bit (f k) n \<longleftrightarrow> P (64 * k + n)"
  shows "(\<forall>k < bits div 64. f k = 0) \<and> (bits mod 64 \<noteq> 0 \<longrightarrow> f (bits div 64) AND BITMAP_LAST_WORD_MASK bits = 0) \<longleftrightarrow>
         (\<forall>n < bits. \<not> P n)"
proof -
  let ?q = "bits div 64" and ?r = "bits mod 64"
  have b: "n < bits \<longleftrightarrow> n div 64 < ?q \<or> n div 64 = ?q \<and> n mod 64 < ?r" for n
    using lex64 [of "n mod 64" ?r "n div 64" ?q] by simp
  show ?thesis (is "?L \<longleftrightarrow> ?R")
  proof
    assume L: ?L
    show ?R
    proof (intro allI impI)
      fix n assume n: "n < bits"
      have P: "P n \<longleftrightarrow> bit (f (n div 64)) (n mod 64)" using assms [of "n mod 64" "n div 64"] by simp
      show "\<not> P n"
      proof (cases "n div 64 < ?q")
        case False
        then have q: "n div 64 = ?q" "n mod 64 < ?r" using b n by auto
        then have "\<not> bit (f ?q AND BITMAP_LAST_WORD_MASK bits) (n mod 64)" using L by auto
        then show ?thesis using P q by (simp add: bit_and_iff bit_last_mask)
      qed (use L P in auto)
    qed
  next
    assume R: ?R
    have "f k = 0" if "k < ?q" for k
      unfolding word64_zero using assms R b [of "64 * k + n" for n] that by auto
    moreover have "f ?q AND BITMAP_LAST_WORD_MASK bits = 0" if "?r \<noteq> 0"
      unfolding word64_zero using assms R b [of "64 * ?q + n" for n] that by (auto simp: bit_and_iff bit_last_mask)
    ultimately show ?L by blast
  qed
qed

lemma bitmap_equal_bits: "bitmap_equal b1 b2 bits \<longleftrightarrow> (\<forall>n < bits. bm_bit b1 n = bm_bit b2 n)"
proof -
  have "b1 k = b2 k \<longleftrightarrow> b1 k XOR b2 k = 0" for k by (auto simp: word64_zero bit_xor_iff intro!: word64_eqI)
  then show ?thesis
    using all_words_bits [of "\<lambda>k. b1 k XOR b2 k" "\<lambda>n. bm_bit b1 n \<noteq> bm_bit b2 n" bits]
    by (auto simp: bitmap_equal_def Let_def bit_xor_iff)
qed

lemma bitmap_intersects_bits: "bitmap_intersects b1 b2 bits \<longleftrightarrow> (\<exists>n < bits. bm_bit b1 n \<and> bm_bit b2 n)"
  using all_words_bits [of "\<lambda>k. b1 k AND b2 k" "\<lambda>n. bm_bit b1 n \<and> bm_bit b2 n" bits]
  by (auto simp: bitmap_intersects_def Let_def bit_and_iff)

lemma bitmap_subset_bits: "bitmap_subset b1 b2 bits \<longleftrightarrow> (\<forall>n < bits. bm_bit b1 n \<longrightarrow> bm_bit b2 n)"
  using all_words_bits [of "\<lambda>k. b1 k AND NOT (b2 k)" "\<lambda>n. bm_bit b1 n \<and> \<not> bm_bit b2 n" bits]
  by (auto simp: bitmap_subset_def Let_def bit_and_iff bit_not_iff)

text \<open>The words a binary operation writes: all of those the bitmap touches, the last one with
  the mask or without.\<close>

lemma bits_to_longs: "BITS_TO_LONGS bits = (if bits mod 64 = 0 then bits div 64 else Suc (bits div 64))"
proof -
  have "bits + 63 = 64 * (bits div 64) + (bits mod 64 + 63)" by simp
  then have "BITS_TO_LONGS bits = bits div 64 + (bits mod 64 + 63) div 64" unfolding BITS_TO_LONGS_def
    by (metis div_mult_self4 zero_neq_numeral)
  moreover have "(bits mod 64 + 63) div 64 = (if bits mod 64 = 0 then 0 else 1)"
    using mod_less_divisor [of 64 bits] by (simp add: div_nat_eqI)
  ultimately show ?thesis by simp
qed

lemma words_cover: "n < bits \<Longrightarrow> n div 64 < BITS_TO_LONGS bits"
  using lex64 [of "n mod 64" "bits mod 64" "n div 64" "bits div 64"] by (auto simp: bits_to_longs)

lemma last_word: "bits \<le> n \<Longrightarrow> n div 64 < BITS_TO_LONGS bits \<Longrightarrow> n div 64 = bits div 64 \<and> bits mod 64 \<le> n mod 64 \<and> bits mod 64 \<noteq> 0"
  using lex64 [of "n mod 64" "bits mod 64" "n div 64" "bits div 64"] by (auto simp: bits_to_longs split: if_splits)

lemma in_last_word: "bits div 64 \<le> n div 64 \<Longrightarrow> n < (bits :: nat) \<Longrightarrow> n div 64 = bits div 64 \<and> n mod 64 < bits mod 64"
  using lex64 [of "n mod 64" "bits mod 64" "n div 64" "bits div 64"] by auto

lemma bm_bit_words: "bm_bit (\<lambda>i. if i < k then f i else d i) n = (if n div 64 < k then bit (f (n div 64)) (n mod 64) else bm_bit d n)"
  by (simp add: bm_bit_def)

lemma masked_words:
  "(if bits mod 64 \<noteq> 0 then (\<lambda>i. if i < bits div 64 then f i else d i)(bits div 64 := f (bits div 64) AND BITMAP_LAST_WORD_MASK bits)
    else (\<lambda>i. if i < bits div 64 then f i else d i)) =
   (\<lambda>i. if i < BITS_TO_LONGS bits then (if i < bits div 64 then f i else f i AND BITMAP_LAST_WORD_MASK bits) else d i)"
  by (auto simp: fun_eq_iff bits_to_longs less_Suc_eq)

lemma masked_bits:
  "bm_bit (\<lambda>i. if i < BITS_TO_LONGS bits then (if i < bits div 64 then f i else f i AND BITMAP_LAST_WORD_MASK bits) else d i) n =
     (if n div 64 < BITS_TO_LONGS bits then n < bits \<and> bit (f (n div 64)) (n mod 64) else bm_bit d n)"
proof (cases "n < bits")
  case True
  then show ?thesis using words_cover [OF True] in_last_word [of bits n] by (auto simp: bm_bit_def bit_and_iff bit_last_mask)
next
  case False
  then show ?thesis using last_word [of bits n] by (auto simp: bm_bit_def bit_and_iff bit_last_mask)
qed

lemma masked_op:
  fixes f
  assumes f: "\<And>k n. n < 64 \<Longrightarrow> bit (f k) n \<longleftrightarrow> P (64 * k + n)"
    and op: "op = (let lim = bits div 64;
          (dst, result) = fold (\<lambda>k (d, r). (d(k := f k), r OR f k)) [0..<lim] (dst, 0);
          last = f lim AND BITMAP_LAST_WORD_MASK bits
      in if bits mod 64 \<noteq> 0 then (dst(lim := last), result OR last \<noteq> 0) else (dst, result \<noteq> 0))"
  shows "bm_bit (fst op) n = (if n div 64 < BITS_TO_LONGS bits then n < bits \<and> P n else bm_bit dst n)"
    and "snd op \<longleftrightarrow> (\<exists>n < bits. P n)"
proof -
  have o: "a OR b = 0 \<longleftrightarrow> a = 0 \<and> b = 0" for a b :: "64 word" by (auto simp: word64_zero bit_or_iff)
  have "fst op = (\<lambda>i. if i < BITS_TO_LONGS bits then (if i < bits div 64 then f i else f i AND BITMAP_LAST_WORD_MASK bits) else dst i)"
    unfolding op by (simp add: Let_def fold_write_or masked_words [symmetric] del: fun_upd_apply)
  then show "bm_bit (fst op) n = (if n div 64 < BITS_TO_LONGS bits then n < bits \<and> P n else bm_bit dst n)"
    using f [of "n mod 64" "n div 64"] by (simp add: masked_bits)
  show "snd op \<longleftrightarrow> (\<exists>n < bits. P n)"
    using all_words_bits [OF f, of bits] unfolding op by (auto simp: Let_def fold_write_or fold_or_zero o)
qed

lemma bitmap_and_bits:
  "bm_bit (fst (bitmap_and dst b1 b2 bits)) n =
     (if n div 64 < BITS_TO_LONGS bits then n < bits \<and> bm_bit b1 n \<and> bm_bit b2 n else bm_bit dst n)"
  "snd (bitmap_and dst b1 b2 bits) \<longleftrightarrow> (\<exists>n < bits. bm_bit b1 n \<and> bm_bit b2 n)"
  by (rule masked_op [where f = "\<lambda>k. b1 k AND b2 k"]; simp add: bit_and_iff bitmap_and_def and.assoc)+

lemma bitmap_andnot_bits:
  "bm_bit (fst (bitmap_andnot dst b1 b2 bits)) n =
     (if n div 64 < BITS_TO_LONGS bits then n < bits \<and> bm_bit b1 n \<and> \<not> bm_bit b2 n else bm_bit dst n)"
  "snd (bitmap_andnot dst b1 b2 bits) \<longleftrightarrow> (\<exists>n < bits. bm_bit b1 n \<and> \<not> bm_bit b2 n)"
  by (rule masked_op [where f = "\<lambda>k. b1 k AND NOT (b2 k)"]; simp add: bit_and_iff bit_not_iff bitmap_andnot_def and.assoc)+

lemma bitmap_or_bits:
  "bm_bit (bitmap_or dst b1 b2 bits) n = (if n div 64 < BITS_TO_LONGS bits then bm_bit b1 n \<or> bm_bit b2 n else bm_bit dst n)"
  by (simp add: bitmap_or_def fold_write bm_bit_def bit_or_iff)

lemma bitmap_xor_bits:
  "bm_bit (bitmap_xor dst b1 b2 bits) n = (if n div 64 < BITS_TO_LONGS bits then bm_bit b1 n \<noteq> bm_bit b2 n else bm_bit dst n)"
  by (simp add: bitmap_xor_def fold_write bm_bit_def bit_xor_iff)

lemma bitmap_complement_bits:
  "bm_bit (bitmap_complement dst src bits) n = (if n div 64 < BITS_TO_LONGS bits then \<not> bm_bit src n else bm_bit dst n)"
  by (simp add: bitmap_complement_def Let_def fold_write bm_bit_def bit_not_iff bits_to_longs less_Suc_eq)

section \<open>Shifts\<close>

lemma fold_write_shift: "fold (\<lambda>k d. d(k + off := f k)) (rev [0..<n]) d = (\<lambda>i. if off \<le> i \<and> i < n + off then f (i - off) else d i)"
proof (induction n arbitrary: d)
  case (Suc n)
  have "fold (\<lambda>k d. d(k + off := f k)) (rev [0..<Suc n]) d = fold (\<lambda>k d. d(k + off := f k)) (rev [0..<n]) (d(n + off := f n))" by simp
  also have "\<dots> = (\<lambda>i. if off \<le> i \<and> i < n + off then f (i - off) else (d(n + off := f n)) i)" by (rule Suc)
  also have "\<dots> = (\<lambda>i. if off \<le> i \<and> i < Suc n + off then f (i - off) else d i)" by (auto simp: fun_eq_iff)
  finally show ?case .
qed (auto simp: fun_eq_iff)

lemma source_word:
  assumes "i < BITS_TO_LONGS nbits" "b < 64"
  shows "bit (if i = BITS_TO_LONGS nbits - 1 then (w :: 64 word) AND BITMAP_LAST_WORD_MASK nbits else w) b \<longleftrightarrow>
    64 * i + b < nbits \<and> bit w b"
proof -
  have "64 * i + b < nbits \<longleftrightarrow> i < nbits div 64 \<or> i = nbits div 64 \<and> b < nbits mod 64"
    using lex64 [of b "nbits mod 64" i "nbits div 64"] assms(2) by simp
  moreover have "i = BITS_TO_LONGS nbits - 1 \<longleftrightarrow> (if nbits mod 64 = 0 then Suc i = nbits div 64 else i = nbits div 64)"
      "nbits mod 64 = 0 \<Longrightarrow> i < nbits div 64" "i \<le> nbits div 64"
    using assms(1) by (auto simp: bits_to_longs split: if_splits)
  ultimately show ?thesis using assms(2) by (auto simp: bit_and_iff bit_last_mask)
qed

lemma bitmap_shift_right_bits:
  assumes "shift \<le> nbits" "nbits < 2 ^ 32"
  shows "bm_bit (bitmap_shift_right dst src shift nbits) n =
    (if n div 64 < BITS_TO_LONGS nbits then n + shift < nbits \<and> bm_bit src (n + shift) else bm_bit dst n)"
proof -
  let ?lim = "BITS_TO_LONGS nbits"
  define off r k j where v: "off = shift div 64" "r = shift mod 64" "k = n div 64" "j = n mod 64"
  define ms where "ms i = (if i = ?lim - 1 then src i AND BITMAP_LAST_WORD_MASK nbits else src i)" for i
  define f where "f k = (drop_bit r (ms (off + k)) OR
    (if r = 0 \<or> off + k + 1 \<ge> ?lim then 0 else push_bit (64 - r) (ms (off + k + 1))))" for k
  have ms: "bit (ms i) b \<longleftrightarrow> 64 * i + b < nbits \<and> bm_bit src (64 * i + b)" if "i < ?lim" "b < 64" for i b
    using source_word [OF that, of "src i"] that by (simp add: ms_def)
  have off: "off \<le> ?lim" "?lim < 2 ^ 32" using assms div_le_mono [OF assms(1), of 64] by (auto simp: bits_to_longs v)
  have d: "bitmap_shift_right dst src shift nbits =
      (\<lambda>i. if ?lim - off \<le> i \<and> i < ?lim then 0 else if i < ?lim - off then f i else dst i)"
    using off by (auto simp: bitmap_shift_right_def Let_def fold_write f_def ms_def fun_eq_iff c_arith v [symmetric] cong: if_cong)
  have j: "j < 64" "r < 64" by (simp_all add: v)
  have n: "n = 64 * k + j" "shift = 64 * off + r" by (simp_all add: v)
  have pos: "n + shift = 64 * (off + k) + (j + r)" unfolding n by simp
  have beyond: "\<not> n + shift < nbits" if "?lim \<le> off + k + (if j + r < 64 then 0 else 1)"
  proof -
    have "(n + shift) div 64 = off + k + (if j + r < 64 then 0 else 1)" unfolding pos using j by (auto simp: div_nat_eqI)
    then show ?thesis using that words_cover [of "n + shift" nbits] by linarith
  qed
  have "bit (f k) j \<longleftrightarrow> n + shift < nbits \<and> bm_bit src (n + shift)" if k: "k < ?lim - off"
  proof (cases "j + r < 64")
    case True
    then have "\<not> 64 - r \<le> j" by linarith
    then show ?thesis unfolding pos using True ms [of "off + k" "j + r"] k j by (simp add: f_def bit_or_iff bit_drop_bit_eq bit_push_bit_iff add.commute)
  next
    case False
    have p: "n + shift = 64 * (off + k + 1) + (j + r - 64)" unfolding pos using False by simp
    have "\<not> bit (ms (off + k)) (r + j)" using False bit_imp_le_length [of "ms (off + k)" "r + j"] by auto
    then show ?thesis
      using ms [of "off + k + 1" "j + r - 64"] beyond False j p
      by (auto simp: f_def bit_or_iff bit_drop_bit_eq bit_push_bit_iff)
  qed
  moreover have "\<not> n + shift < nbits" if "?lim - off \<le> k" using that beyond by auto
  ultimately show ?thesis unfolding d by (auto simp: bm_bit_def [of "\<lambda>i. _ i"] bm_bit_def [of dst] v [symmetric])
qed

lemma shift_left_word:
  assumes "j < 64" "r < 64"
  shows "bit ((if r \<noteq> 0 \<and> k > 0 then drop_bit (64 - r) (src (k - 1)) else 0) OR push_bit r (src k)) j \<longleftrightarrow>
    r \<le> 64 * k + j \<and> bm_bit src (64 * k + j - r)"
proof (cases "r \<le> j")
  case True
  have "64 * k + j - r = 64 * k + (j - r)" using True by simp
  then have "bm_bit src (64 * k + j - r) = bit (src k) (j - r)" using bm_bit_word(1) [of "j - r" src k] assms by (metis less_imp_diff_less)
  moreover have "\<not> bit (src (k - 1)) (64 - r + j)" using True bit_imp_le_length [of "src (k - 1)" "64 - r + j"] assms by auto
  ultimately show ?thesis using True assms by (auto simp: bit_or_iff bit_push_bit_iff bit_drop_bit_eq)
next
  case False
  have b: "bm_bit src (64 * k + j - r) = bit (src (k - 1)) (64 - r + j)" if "0 < k"
  proof -
    have "64 * k + j - r = 64 * (k - 1) + (64 - r + j)" "64 - r + j < 64" using that False assms by (cases k; simp)+
    then show ?thesis using bm_bit_word(1) by metis
  qed
  show ?thesis
  proof (cases "k = 0")
    case True
    then show ?thesis using False by (simp add: bit_push_bit_iff)
  next
    case k: False
    then have "r \<le> 64 * k + j" using assms by (cases k) auto
    then show ?thesis using False k b assms by (auto simp: bit_or_iff bit_push_bit_iff bit_drop_bit_eq)
  qed
qed

lemma bitmap_shift_left_bits:
  assumes "shift \<le> nbits"
  shows "bm_bit (bitmap_shift_left dst src shift nbits) n =
    (if n div 64 < BITS_TO_LONGS nbits then shift \<le> n \<and> bm_bit src (n - shift) else bm_bit dst n)"
proof -
  let ?lim = "BITS_TO_LONGS nbits"
  define off r k j where v: "off = shift div 64" "r = shift mod 64" "k = n div 64" "j = n mod 64"
  define f where "f k = ((if r \<noteq> 0 \<and> k > 0 then drop_bit (64 - r) (src (k - 1)) else 0) OR push_bit r (src k))" for k
  have off: "off \<le> ?lim" using div_le_mono [OF assms(1), of 64] by (auto simp: bits_to_longs v)
  have d: "bitmap_shift_left dst src shift nbits = (\<lambda>i. if i < off then 0 else if i < ?lim then f (i - off) else dst i)"
    using off by (auto simp: bitmap_shift_left_def Let_def fold_write_shift f_def fun_eq_iff v [symmetric] cong: if_cong)
  have n: "n = 64 * k + j" "shift = 64 * off + r" and j: "j < 64" "r < 64" by (simp_all add: v)
  have "bit (f (k - off)) j \<longleftrightarrow> shift \<le> n \<and> bm_bit src (n - shift)" if l: "off \<le> k"
  proof -
    obtain e where e: "k = off + e" using l le_Suc_ex by blast
    have "n - shift = 64 * e + j - r" "shift \<le> n \<longleftrightarrow> r \<le> 64 * e + j" unfolding n e by auto
    then show ?thesis using shift_left_word [OF j, of e src] by (simp add: f_def e)
  qed
  moreover have "\<not> shift \<le> n" if "k < off" using that n j by linarith
  ultimately show ?thesis using off unfolding d by (auto simp: bm_bit_def [of "\<lambda>i. _ i"] bm_bit_def [of dst] v [symmetric])
qed

section \<open>Regions\<close>

lemma region_mask: "0 < b \<Longrightarrow> b \<le> 64 \<Longrightarrow> push_bit (b - 1) 1 + (push_bit (b - 1) 1 - 1) = (mask b :: 64 word)"
  by (cases b) (simp_all add: mask_eq_exp_minus_1 push_bit_eq_mult)

lemma aligned_room: "(2 :: nat) ^ order dvd pos \<Longrightarrow> order \<le> 6 \<Longrightarrow> pos mod 64 + 2 ^ order \<le> 64"
proof -
  assume d: "(2 :: nat) ^ order dvd pos" and o: "order \<le> 6"
  have "(2 :: nat) ^ order dvd 2 ^ 6" using o by (rule le_imp_power_dvd)
  then have "(2 :: nat) ^ order dvd 64 - pos mod 64" using d by (simp add: dvd_diff_nat dvd_mod)
  moreover have "pos mod 64 < 64" by simp
  ultimately show ?thesis by (auto dest!: dvd_imp_le)
qed

lemma reg_word:
  assumes "2 ^ order dvd pos" "k < 64"
  shows "i < BITS_TO_LONGS (2 ^ order) \<and> bit (push_bit (pos - pos div 64 * 64) (mask (min (2 ^ order) 64)) :: 64 word) k \<longleftrightarrow>
    pos \<le> 64 * (pos div 64 + i) + k \<and> 64 * (pos div 64 + i) + k < pos + 2 ^ order"
proof -
  define q o' where v: "q = pos div 64" "o' = pos mod 64"
  have pos: "pos = 64 * q + o'" "o' < 64" by (simp_all add: v)
  have off: "pos - pos div 64 * 64 = o'" by (simp add: v minus_div_mult_eq_mod)
  show ?thesis
  proof (cases "order \<le> 6")
    case True
    then have r: "o' + 2 ^ order \<le> 64" using aligned_room [OF assms(1)] by (simp add: v)
    have "(2 :: nat) ^ order \<le> 64" using r by simp
    then have l: "min (2 ^ order) 64 = (2 :: nat) ^ order" "BITS_TO_LONGS (2 ^ order) = 1"
      by (simp_all add: BITS_TO_LONGS_def div_nat_eqI)
    show ?thesis unfolding l off unfolding v(1) [symmetric] unfolding pos(1) using r assms(2)
      by (cases i) (auto simp: bit_push_bit_iff bit_mask_iff)
  next
    case False
    then have e: "(2 :: nat) ^ order = 64 * 2 ^ (order - 6)" using power_add [of "2 :: nat" 6 "order - 6"] by simp
    then have "o' = 0" using assms(1) by (auto simp: v dvd_def)
    moreover have l: "BITS_TO_LONGS (2 ^ order) = 2 ^ (order - 6)" "min (2 ^ order) 64 = (64 :: nat)"
      unfolding e by (simp_all add: bits_to_longs)
    ultimately show ?thesis unfolding l off unfolding v(1) [symmetric] unfolding pos(1) e using assms(2)
      lex64 [of k 0 i "2 ^ (order - 6)"] by (auto simp: bit_push_bit_iff bit_mask_iff)
  qed
qed

abbreviation in_region :: "nat \<Rightarrow> nat \<Rightarrow> nat \<Rightarrow> bool" where
  "in_region pos order n \<equiv> pos \<le> n \<and> n < pos + 2 ^ order"

lemma region_bit:
  assumes "2 ^ order dvd pos"
  shows "in_region pos order n \<longleftrightarrow> pos div 64 \<le> n div 64 \<and> n div 64 - pos div 64 < BITS_TO_LONGS (2 ^ order) \<and>
    bit (push_bit (pos - pos div 64 * 64) (mask (min (2 ^ order) 64)) :: 64 word) (n mod 64)"
proof (cases "pos div 64 \<le> n div 64")
  case True
  then have "64 * (pos div 64 + (n div 64 - pos div 64)) + n mod 64 = n" by simp
  then show ?thesis using reg_word [OF assms, of "n mod 64" "n div 64 - pos div 64"] True by auto
next
  case False
  then have "n < pos" by (metis div_le_mono linorder_not_less)
  then show ?thesis using False by simp
qed

lemma fold_words:
  "fold (\<lambda>i b. b(q + i := g (b (q + i)))) [0..<n] m = (\<lambda>i. if q \<le> i \<and> i - q < n then g (m i) else m i)"
  for m :: bitmap
proof (induction n)
  case (Suc n)
  then show ?case by (auto simp: fun_eq_iff)
qed (simp add: fun_eq_iff)

lemma do_reg_op_bits:
  assumes a: "2 ^ order dvd pos"
  shows "snd (do_reg_op m pos order REG_OP_ISFREE) \<longleftrightarrow> (\<forall>n. in_region pos order n \<longrightarrow> \<not> bm_bit m n)"
    and "bm_bit (fst (do_reg_op m pos order REG_OP_ALLOC)) n \<longleftrightarrow> bm_bit m n \<or> in_region pos order n"
    and "bm_bit (fst (do_reg_op m pos order REG_OP_RELEASE)) n \<longleftrightarrow> bm_bit m n \<and> \<not> in_region pos order n"
proof -
  let ?b = "min (2 ^ order) 64 :: nat" and ?q = "pos div 64"
  let ?m = "push_bit (pos - pos div 64 * 64) (mask ?b) :: 64 word"
  have m: "push_bit (pos - pos div 64 * 64) (push_bit (?b - 1) 1 + (push_bit (?b - 1) 1 - 1)) = ?m"
    by (subst region_mask) simp_all
  show "bm_bit (fst (do_reg_op m pos order REG_OP_ALLOC)) n \<longleftrightarrow> bm_bit m n \<or> in_region pos order n"
    unfolding do_reg_op_def Let_def m region_bit [OF a]
    by (auto simp: fold_words [where g = "\<lambda>w. w OR ?m"] bm_bit_def bit_or_iff)
  show "bm_bit (fst (do_reg_op m pos order REG_OP_RELEASE)) n \<longleftrightarrow> bm_bit m n \<and> \<not> in_region pos order n"
    unfolding do_reg_op_def Let_def m region_bit [OF a]
    by (auto simp: fold_words [where g = "\<lambda>w. w AND NOT ?m"] bm_bit_def bit_and_iff bit_not_iff)
  have "(\<forall>i < BITS_TO_LONGS (2 ^ order). m (?q + i) AND ?m = 0) \<longleftrightarrow> (\<forall>n. in_region pos order n \<longrightarrow> \<not> bm_bit m n)" (is "?L \<longleftrightarrow> ?R")
  proof
    assume L: ?L
    show ?R
    proof (intro allI impI)
      fix n assume "in_region pos order n"
      then have r: "?q \<le> n div 64" "n div 64 - ?q < BITS_TO_LONGS (2 ^ order)" "bit ?m (n mod 64)"
        unfolding region_bit [OF a] by blast+
      then have "m (n div 64) AND ?m = 0" using L [rule_format, of "n div 64 - ?q"] by simp
      then have "\<not> bit (m (n div 64) AND ?m) (n mod 64)" by simp
      then show "\<not> bm_bit m n" using r(3) by (simp add: bit_and_iff bm_bit_def)
    qed
  next
    assume R: ?R
    show ?L
    proof (intro allI impI)
      fix i assume i: "i < BITS_TO_LONGS (2 ^ order)"
      have "\<not> bit (m (?q + i) AND ?m) k" if k: "k < 64" for k
      proof
        assume b: "bit (m (?q + i) AND ?m) k"
        then have "in_region pos order (64 * (?q + i) + k)" using reg_word [OF a k, of i] i by (simp only: bit_and_iff) blast
        then have "\<not> bm_bit m (64 * (?q + i) + k)" using R by blast
        then show False using b k by (simp only: bit_and_iff bm_bit_word) blast
      qed
      then show "m (?q + i) AND ?m = 0" unfolding word64_zero by blast
    qed
  qed
  then show "snd (do_reg_op m pos order REG_OP_ISFREE) \<longleftrightarrow> (\<forall>n. in_region pos order n \<longrightarrow> \<not> bm_bit m n)"
    unfolding do_reg_op_def Let_def m by (simp add: Ball_def)
qed

lemma aligned_next: "(d :: nat) dvd a \<Longrightarrow> d dvd b \<Longrightarrow> a \<le> b \<Longrightarrow> b = a \<or> a + d \<le> b"
  by (metis add_diff_inverse_nat dvd_diff_nat dvd_imp_le le_add_diff_inverse nat_add_left_cancel_le neq0_conv not_less zero_less_diff le_neq_implies_less)

text \<open>An aligned region of clear bits, and the first one from \<open>pos\<close> on.\<close>

definition free_region :: "bitmap \<Rightarrow> nat \<Rightarrow> nat \<Rightarrow> nat \<Rightarrow> bool" where
  "free_region m bits order q \<longleftrightarrow> 2 ^ order dvd q \<and> q + 2 ^ order \<le> bits \<and> (\<forall>n. in_region q order n \<longrightarrow> \<not> bm_bit m n)"

definition first_region :: "bitmap \<Rightarrow> nat \<Rightarrow> nat \<Rightarrow> nat \<Rightarrow> nat \<Rightarrow> bool" where
  "first_region m bits order pos q \<longleftrightarrow> free_region m bits order q \<and> pos \<le> q \<and> (\<forall>p. pos \<le> p \<and> p < q \<longrightarrow> \<not> free_region m bits order p)"

lemma first_region_next:
  assumes "2 ^ order dvd pos" "\<not> free_region m bits order pos"
  shows "first_region m bits order (pos + 2 ^ order) q \<longleftrightarrow> first_region m bits order pos q"
proof -
  have c: "pos + 2 ^ order \<le> p \<longleftrightarrow> pos \<le> p" if "free_region m bits order p" for p
    using that assms aligned_next [of "2 ^ order" pos p] by (auto simp: free_region_def)
  show ?thesis unfolding first_region_def using c by blast
qed

lemma first_region_ex: "free_region m bits order p \<Longrightarrow> \<exists>q. first_region m bits order 0 q"
  unfolding first_region_def using exists_least_iff [of "free_region m bits order"] by blast

lemma find_free_region_loop_first:
  assumes o: "order \<le> 30" "bits \<le> 2 ^ 31"
  shows "2 ^ order dvd pos \<Longrightarrow> pos \<le> bits \<Longrightarrow>
    (\<exists>q. first_region m bits order pos q \<and>
       find_free_region_loop m bits order pos = Some (fst (do_reg_op m q order REG_OP_ALLOC), int q)) \<or>
    (\<forall>q. \<not> first_region m bits order pos q) \<and> find_free_region_loop m bits order pos = Some (m, - 12)"
proof (induction "bits - pos" arbitrary: pos rule: less_induct)
  case less
  have "(2 :: nat) ^ order \<le> 2 ^ 30" using o(1) by (intro power_increasing) simp_all
  then have e: "add32 pos (2 ^ order) = pos + 2 ^ order" "0 < (2 :: nat) ^ order" using less.prems(2) o(2) by (simp_all add: add32_id)
  consider (none) "bits < pos + 2 ^ order" | (full) "pos + 2 ^ order \<le> bits" "\<not> snd (do_reg_op m pos order REG_OP_ISFREE)"
    | (free) "pos + 2 ^ order \<le> bits" "snd (do_reg_op m pos order REG_OP_ISFREE)" by linarith
  then show ?case
  proof cases
    case none
    then have "\<not> first_region m bits order pos q" for q by (auto simp: first_region_def free_region_def)
    then show ?thesis using none e(1) by (simp add: find_free_region_loop.simps [of m bits order pos])
  next
    case full
    have "find_free_region_loop m bits order pos = find_free_region_loop m bits order (pos + 2 ^ order)"
      using full e(1) by (simp add: find_free_region_loop.simps [of m bits order pos])
    moreover have nf: "\<not> free_region m bits order pos"
      using full(2) do_reg_op_bits(1) [OF less.prems(1)] by (auto simp: free_region_def)
    moreover have "bits - (pos + 2 ^ order) < bits - pos" using full(1) e(2) by linarith
    ultimately show ?thesis
      using less.hyps [of "pos + 2 ^ order"] full(1) less.prems(1) first_region_next [OF less.prems(1), of m bits] nf by simp
  next
    case free
    have "first_region m bits order pos pos"
      using free less.prems(1) do_reg_op_bits(1) [OF less.prems(1)] by (auto simp: first_region_def free_region_def)
    moreover have "pos < 2 ^ 31" using free(1) e(2) o(2) by linarith
    then have "s32 (int pos) = int pos" by (intro s32_small) simp_all
    ultimately show ?thesis using free e(1) by (simp add: find_free_region_loop.simps [of m bits order pos])
  qed
qed

text \<open>With the last region taken, the scan of a bitmap that reaches it starts over.\<close>

lemma find_free_region_loop_endless:
  assumes full: "\<forall>n. bm_bit m n" and o: "order \<le> 30" "2 ^ 32 - 2 ^ order \<le> bits"
    and "find_free_region_loop m bits order pos = Some y" "2 ^ order dvd pos \<and> pos < 2 ^ 32"
  shows False
  using assms(4,5)
proof (induction m' \<equiv> m bits' \<equiv> bits order' \<equiv> order pos y rule: find_free_region_loop.raw_induct [rotated, consumes 1])
  case (1 loop pos y)
  have d: "(2 :: nat) ^ order dvd 2 ^ 32" using o(1) by (intro le_imp_power_dvd) simp
  have p: "2 ^ order dvd pos" "pos < 2 ^ 32" using "1.prems" by simp_all
  have c: "pos + 2 ^ order = 2 ^ 32 \<or> pos + 2 ^ order + 2 ^ order \<le> 2 ^ 32"
    using aligned_next [OF p(1) d] p aligned_next [of "2 ^ order" "pos + 2 ^ order" "2 ^ 32"] d by auto
  then have e: "add32 pos (2 ^ order) \<le> bits" "2 ^ order dvd add32 pos (2 ^ order)" "add32 pos (2 ^ order) < 2 ^ 32"
    using o(2) p by (auto simp: add32_def u32_def dvd_mod d)
  have "\<not> snd (do_reg_op m pos order REG_OP_ISFREE)"
    unfolding do_reg_op_bits(1) [OF p(1)] using full by (auto intro: exI [of _ pos])
  then have "loop m bits order (add32 pos (2 ^ order)) = Some y" using "1.hyps"(2) e(1) by simp
  then show False using "1.hyps"(1) e by blast
qed

section \<open>Searching from the end, and for an area\<close>

definition last_pos :: "(nat \<Rightarrow> bool) \<Rightarrow> nat \<Rightarrow> nat \<Rightarrow> nat \<Rightarrow> bool" where
  "last_pos P n sz r \<longleftrightarrow> r = sz \<and> (\<forall>i < n. \<not> P i) \<or> r < n \<and> P r \<and> (\<forall>i. r < i \<longrightarrow> i < n \<longrightarrow> \<not> P i)"

lemma last_word_bits:
  assumes "64 * idx < n" "n \<le> 64 * idx + 64" "\<forall>k < 64. bit v k \<longleftrightarrow> 64 * idx + k < n"
  shows "v AND addr idx = 0 \<Longrightarrow> 64 * idx \<le> i \<Longrightarrow> i < n \<Longrightarrow> \<not> bm_bit addr i"
    and "v AND addr idx \<noteq> 0 \<Longrightarrow> idx * 64 + fls (v AND addr idx) < n \<and> bm_bit addr (idx * 64 + fls (v AND addr idx)) \<and>
      (\<forall>i. idx * 64 + fls (v AND addr idx) < i \<longrightarrow> i < n \<longrightarrow> \<not> bm_bit addr i)"
proof -
  let ?w = "v AND addr idx"
  have w: "bit ?w k \<longleftrightarrow> 64 * idx + k < n \<and> bm_bit addr (64 * idx + k)" if "k < 64" for k
    using assms(3) that by (simp add: bit_and_iff)
  have i: "bit ?w (i - 64 * idx) \<longleftrightarrow> bm_bit addr i" if "64 * idx \<le> i" "i < n" for i
    using w [of "i - 64 * idx"] that assms(2) by simp
  show "v AND addr idx = 0 \<Longrightarrow> 64 * idx \<le> i \<Longrightarrow> i < n \<Longrightarrow> \<not> bm_bit addr i" using i [of i] by simp
  assume z: "?w \<noteq> 0"
  have c: "idx * 64 = 64 * idx" by simp
  have "\<not> bm_bit addr i" if "64 * idx + fls ?w < i" "i < n" for i
    using i [of i] fls_bits(2) [OF z, of "i - 64 * idx"] that by auto
  then show "idx * 64 + fls ?w < n \<and> bm_bit addr (idx * 64 + fls ?w) \<and> (\<forall>i. idx * 64 + fls ?w < i \<longrightarrow> i < n \<longrightarrow> \<not> bm_bit addr i)"
    using fls_bits(1) [OF z] w [of "fls ?w"] unfolding c by blast
qed

lemma last_pos_extend:
  assumes "last_pos P n sz r" "n \<le> n'" "\<And>i. n \<le> i \<Longrightarrow> i < n' \<Longrightarrow> \<not> P i"
  shows "last_pos P n' sz r"
proof -
  have "\<not> P i" if "i < n'" "i < n \<Longrightarrow> \<not> P i" for i using assms(3) [of i] that by (cases "i < n") auto
  then show ?thesis using assms(1,2) unfolding last_pos_def by auto
qed

lemma find_last_loop_last:
  assumes "64 * idx < n" "n \<le> 64 * idx + 64" "\<forall>k < 64. bit v k \<longleftrightarrow> 64 * idx + k < n"
  shows "last_pos (bm_bit addr) n sz (find_last_loop addr sz v idx)"
  using assms
proof (induction idx arbitrary: v n)
  case (0 v n)
  note w = last_word_bits [OF 0, of addr]
  show ?case
  proof (cases "v AND addr 0 = 0")
    case True
    then have "find_last_loop addr sz v 0 = sz" by (subst find_last_loop.simps) simp
    then show ?thesis using w(1) [OF True] by (simp add: last_pos_def)
  next
    case False
    then have "find_last_loop addr sz v 0 = 0 * 64 + fls (v AND addr 0)" by (subst find_last_loop.simps) simp
    then show ?thesis using w(2) [OF False] by (simp only: last_pos_def) blast
  qed
next
  case (Suc idx)
  note w = last_word_bits [OF Suc.prems, of addr]
  show ?case
  proof (cases "v AND addr (Suc idx) = 0")
    case True
    have "last_pos (bm_bit addr) (64 * idx + 64) sz (find_last_loop addr sz (NOT 0) idx)"
      by (rule Suc.IH) (simp_all add: bit_simps)
    moreover have "find_last_loop addr sz v (Suc idx) = find_last_loop addr sz (NOT 0) idx"
      using True by (subst find_last_loop.simps) simp
    moreover have "\<not> bm_bit addr i" if "64 * idx + 64 \<le> i" "i < n" for i using w(1) [OF True, of i] that by simp
    ultimately show ?thesis using last_pos_extend [of "bm_bit addr" "64 * idx + 64"] Suc.prems(1) by simp
  next
    case False
    then have "find_last_loop addr sz v (Suc idx) = Suc idx * 64 + fls (v AND addr (Suc idx))" by (subst find_last_loop.simps) simp
    then show ?thesis using w(2) [OF False] by (simp only: last_pos_def) blast
  qed
qed

lemma find_last_bit_last: "last_pos (bm_bit addr) n n (find_last_bit addr n)"
proof (cases "n = 0")
  case False
  define q where "q = (n - 1) div 64"
  have q: "64 * q < n" "n \<le> 64 * q + 64"
    using False mult_div_mod_eq [of 64 "n - 1"] mod_less_divisor [of 64 "n - 1"] unfolding q_def by linarith+
  have m: "bit (BITMAP_LAST_WORD_MASK n) k \<longleftrightarrow> 64 * q + k < n" if "k < 64" for k
  proof (cases "n = 64 * q + 64")
    case False
    then have "n mod 64 = n - 64 * q" using q by (metis add_diff_inverse_nat le_neq_implies_less less_imp_not_less mod_less mod_mult_self4 nat_add_left_cancel_less)
    then show ?thesis using q that by (auto simp: bit_last_mask)
  qed (use that in \<open>simp add: bit_last_mask\<close>)
  have "last_pos (bm_bit addr) n n (find_last_loop addr n (BITMAP_LAST_WORD_MASK n) q)"
    using m by (intro find_last_loop_last q) blast
  then show ?thesis using False by (simp add: find_last_bit_def q_def)
qed (simp add: find_last_bit_def last_pos_def)

definition free_area :: "bitmap \<Rightarrow> nat \<Rightarrow> nat \<Rightarrow> nat \<Rightarrow> nat \<Rightarrow> nat \<Rightarrow> nat \<Rightarrow> bool" where
  "free_area m sz start nr al off p \<longleftrightarrow>
     start \<le> p \<and> p + nr \<le> sz \<and> al dvd p + off \<and> (\<forall>i. p \<le> i \<longrightarrow> i < p + nr \<longrightarrow> \<not> bm_bit m i)"

lemma nat_and_mask: "a AND (2 ^ k - 1) = a mod 2 ^ k" for a :: nat
  by (simp add: take_bit_eq_mod [symmetric] take_bit_eq_mask mask_eq_exp_minus_1)

lemma align_mask:
  assumes "x + 2 ^ k \<le> 2 ^ 64"
  shows "ALIGN_MASK x (2 ^ k - 1) = (x + 2 ^ k - 1) div 2 ^ k * 2 ^ k"
proof -
  have "add64 x (2 ^ k - 1) = x + 2 ^ k - 1" using assms by (subst add64_id) simp_all
  then show ?thesis by (simp only: ALIGN_MASK_def Let_def nat_and_mask minus_mod_eq_div_mult)
qed

lemma align_mask_bounds:
  assumes "x + 2 ^ k \<le> 2 ^ 64"
  shows "x \<le> ALIGN_MASK x (2 ^ k - 1)" "ALIGN_MASK x (2 ^ k - 1) < x + 2 ^ k" "2 ^ k dvd ALIGN_MASK x (2 ^ k - 1)"
proof -
  have "(x + 2 ^ k - 1) div 2 ^ k * 2 ^ k + (x + 2 ^ k - 1) mod 2 ^ k = x + 2 ^ k - 1" "(x + 2 ^ k - 1) mod 2 ^ k < 2 ^ k" "0 < (2 :: nat) ^ k"
    by (rule div_mult_mod_eq) simp_all
  then show "x \<le> ALIGN_MASK x (2 ^ k - 1)" "ALIGN_MASK x (2 ^ k - 1) < x + 2 ^ k" unfolding align_mask [OF assms] by linarith+
qed (simp only: align_mask [OF assms] dvd_triv_right)

lemma align_mask_le: "2 ^ k dvd y \<Longrightarrow> x \<le> y \<Longrightarrow> x + 2 ^ k \<le> 2 ^ 64 \<Longrightarrow> ALIGN_MASK x (2 ^ k - 1) \<le> y"
proof -
  assume d: "2 ^ k dvd y" and l: "x \<le> y" and w: "x + 2 ^ k \<le> 2 ^ 64"
  obtain q where y: "y = q * 2 ^ k" using d by (metis dvd_def mult.commute)
  have "x + P - 1 < P + Q" if "x \<le> Q" "0 < P" for P Q :: nat using that by linarith
  from this [of "q * 2 ^ k" "2 ^ k"] have "x + 2 ^ k - 1 < Suc q * 2 ^ k" using l y by simp
  then have "(x + 2 ^ k - 1) div 2 ^ k < Suc q" by (rule less_mult_imp_div_less)
  then show ?thesis unfolding align_mask [OF w] y by (simp add: less_Suc_eq_le)
qed

lemma find_next_zero_bit_le: "find_next_zero_bit m sz start \<le> sz"
  using find_next_zero_bit_first [of start sz m] by (cases "start < sz") (auto simp: first_pos_def)

lemma find_next_zero_area_first:
  assumes nr: "0 < nr" and w: "sz + off + 2 ^ k + nr \<le> 2 ^ 64"
  shows "\<exists>r. bitmap_find_next_zero_area_off m sz start nr (2 ^ k - 1) off = Some r \<and>
     (free_area m sz start nr (2 ^ k) off r \<or> sz < r) \<and> (\<forall>p. free_area m sz start nr (2 ^ k) off p \<longrightarrow> r \<le> p)"
proof (induction "sz - start" arbitrary: start rule: less_induct)
  case less
  let ?am = "2 ^ k - 1 :: nat"
  define z where "z = find_next_zero_bit m sz start"
  define index where "index = ALIGN_MASK (z + off) ?am - off"
  define i where "i = find_next_bit m (index + nr) index"
  have zs: "z \<le> sz" unfolding z_def by (rule find_next_zero_bit_le)
  then have zw: "z + off + 2 ^ k \<le> 2 ^ 64" using w by simp
  note ab = align_mask_bounds [OF zw]
  have al: "index + off = ALIGN_MASK (z + off) ?am" using ab(1) by (simp add: index_def)
  have zi: "z \<le> index" "index < sz + 2 ^ k" using al ab(1,2) zs by linarith+
  have ar: "sub64 (ALIGN_MASK (add64 z off) ?am) off = index" "add64 index nr = index + nr"
    using w zi ab(1,2) zs by (simp_all add: c_arith index_def)
  have z: "first_pos (\<lambda>j. \<not> bm_bit m j) start sz z" if "start < sz" unfolding z_def by (rule find_next_zero_bit_first [OF that])
  have sz: "z = sz" if "sz \<le> start" using that by (simp add: z_def)
  have ge: "index \<le> p" if p: "free_area m sz start nr (2 ^ k) off p" for p
  proof -
    have "start < sz" "\<not> bm_bit m p" "start \<le> p" using p nr by (auto simp: free_area_def)
    then have "z \<le> p" using z by (auto simp: first_pos_def linorder_not_less [symmetric])
    then have "index + off \<le> p + off" unfolding al using p zw by (intro align_mask_le) (auto simp: free_area_def)
    then show ?thesis by simp
  qed
  have i: "first_pos (bm_bit m) index (index + nr) i" unfolding i_def using nr by (intro find_next_bit_first) simp
  have e: "bitmap_find_next_zero_area_off m sz start nr ?am off =
     (if index + nr > sz then Some (index + nr)
      else if i < index + nr then bitmap_find_next_zero_area_off m sz (add64 i 1) nr ?am off else Some index)"
    by (subst bitmap_find_next_zero_area_off.simps) (simp only: Let_def z_def [symmetric] ar i_def [symmetric])
  consider (none) "index + nr > sz" | (again) "index + nr \<le> sz" "i < index + nr" | (found) "index + nr \<le> sz" "\<not> i < index + nr"
    by linarith
  then show ?case
  proof cases
    case none
    have "\<not> free_area m sz start nr (2 ^ k) off p" for p using ge [of p] none by (auto simp: free_area_def)
    then show ?thesis unfolding e using none by simp
  next
    case again
    have lt: "start < sz" using sz zi(1) again nr by (metis add_leD1 le_antisym linorder_not_less less_add_same_cancel1 order_less_le_trans)
    have s: "start \<le> index" using z [OF lt] zi(1) by (simp add: first_pos_def)
    have b: "bm_bit m i" "index \<le> i" using i again by (auto simp: first_pos_def)
    have "0 < (2 :: nat) ^ k" by simp
    then have "i + 1 < 2 ^ 64" using again w by linarith
    then have a1: "add64 i 1 = i + 1" by (rule add64_id)
    have "free_area m sz start nr (2 ^ k) off p \<longleftrightarrow> free_area m sz (i + 1) nr (2 ^ k) off p" for p
    proof
      assume p: "free_area m sz start nr (2 ^ k) off p"
      have "\<not> p \<le> i" using p b ge [OF p] again(2) by (auto simp: free_area_def)
      then show "free_area m sz (i + 1) nr (2 ^ k) off p" using p by (simp add: free_area_def)
    qed (use s b in \<open>auto simp: free_area_def\<close>)
    moreover have "sz - (i + 1) < sz - start" using s b lt again by linarith
    ultimately show ?thesis unfolding e a1 using again less.hyps [of "i + 1"] by simp
  next
    case found
    have lt: "start < sz" using sz zi(1) found nr by (metis add_leD1 le_antisym linorder_not_less less_add_same_cancel1 order_less_le_trans)
    have "free_area m sz start nr (2 ^ k) off index"
      using z [OF lt] zi(1) found i ab(3) by (auto simp: free_area_def first_pos_def al)
    then show ?thesis unfolding e using found ge by simp
  qed
qed

text \<open>With the largest mask every index is aligned to 0.\<close>

lemma find_next_zero_area_endless:
  assumes "bm_bit m 0" "0 < sz" "0 < nr" "nr \<le> sz" "sz < 2 ^ 64"
    and "bitmap_find_next_zero_area_off m sz start nr (2 ^ 64 - 1) 0 = Some y"
  shows False
  using assms(6)
proof (induction m' \<equiv> m sz' \<equiv> sz start nr' \<equiv> nr am \<equiv> "2 ^ 64 - 1 :: nat" off \<equiv> "0 :: nat" y
    rule: bitmap_find_next_zero_area_off.raw_induct [rotated, consumes 1])
  case (1 search start y)
  have "add64 x y AND (2 ^ 64 - 1) = add64 x y" for x y unfolding nat_and_mask by (simp add: add64_def u64_def)
  then have a: "ALIGN_MASK x (2 ^ 64 - 1) = 0" for x by (simp add: ALIGN_MASK_def Let_def)
  have f: "first_pos (bm_bit m) 0 nr (find_next_bit m nr 0)" using assms(3) by (rule find_next_bit_first)
  then have i: "find_next_bit m nr 0 < nr" using assms(1,3) by (cases "find_next_bit m nr 0") (auto simp: first_pos_def)
  have "sub64 0 0 = 0" "add64 0 nr = nr" using assms by (simp_all add: c_arith)
  then have "search m sz (add64 (find_next_bit m nr 0) 1) nr (2 ^ 64 - 1) 0 = Some y"
    using "1.hyps"(2) i assms(4) unfolding a Let_def by simp
  then show False using "1.hyps"(1) by blast
qed

section \<open>Arrays of 32-bit words\<close>

definition u32_part :: "(nat \<Rightarrow> 32 word) \<Rightarrow> nat \<Rightarrow> nat \<Rightarrow> 64 word" where
  "u32_part buf nwords k = (if 2 * k < nwords then ucast (buf (2 * k)) else 0) OR
     (if 2 * k + 1 < nwords then push_bit 32 (ucast (buf (2 * k + 1))) else 0)"

lemma u32_part_bits:
  "b < 64 \<Longrightarrow> bit (u32_part buf nwords k) b \<longleftrightarrow> (64 * k + b) div 32 < nwords \<and> bit (buf ((64 * k + b) div 32)) ((64 * k + b) mod 32)"
proof (cases "b < 32")
  case True
  then have "(64 * k + b) div 32 = 2 * k" "(64 * k + b) mod 32 = b"
    using div_mult_self4 [of "32 :: nat" "2 * k" b] mod_mult_self4 [of 32 "2 * k" b] by simp_all
  then show ?thesis using True by (simp add: u32_part_def bit_simps)
next
  case False
  assume b: "b < 64"
  then obtain c where c: "b = 32 + c" "c < 32" using False le_Suc_ex [of 32 b] by auto
  have "64 * k + b = 32 * (2 * k + 1) + c" unfolding c by simp
  then have "(64 * k + b) div 32 = 2 * k + 1" "(64 * k + b) mod 32 = c" using c(2) by (simp_all only: div_mult_self4 mod_mult_self4) simp_all
  then show ?thesis using c by (auto simp: u32_part_def bit_simps dest: bit_imp_le_length)
qed


lemma from_u32_step:
  "(let (part, src_idx) = (if min (2 * n) nwords < nwords then (ucast (buf (min (2 * n) nwords)) :: 64 word, min (2 * n) nwords + 1) else (0, min (2 * n) nwords));
        (part, src_idx) = (if src_idx < nwords then (part OR push_bit 32 (ucast (buf src_idx)), src_idx + 1) else (part, src_idx))
    in (src_idx, part)) = (min (2 * Suc n) nwords, u32_part buf nwords n)"
  by (auto simp: u32_part_def Let_def min_def)

lemma from_u32_fold:
  "fold (\<lambda>dst_idx (src_idx, b).
      let (part, src_idx) = (if src_idx < nwords then (ucast (buf src_idx) :: 64 word, src_idx + 1) else (0, src_idx));
          (part, src_idx) = (if src_idx < nwords then (part OR push_bit 32 (ucast (buf src_idx)), src_idx + 1) else (part, src_idx));
          mask = M
      in if dst_idx < lim then (src_idx, b(dst_idx := part))
         else (src_idx, b(dst_idx := (b dst_idx AND NOT mask) OR (part AND mask)))) [0..<n] (0, bm) =
   (min (2 * n) nwords, (\<lambda>i. if i < n then (if i < lim then u32_part buf nwords i
      else (bm i AND NOT M) OR (u32_part buf nwords i AND M)) else bm i))"
proof (induction n)
  case (Suc n)
  show ?case
    unfolding upt_Suc_append [OF le0] fold_append comp_def Suc fold.simps id_def prod.case
    using from_u32_step [of n nwords buf]
    by (auto simp: Let_def case_prod_beta fun_eq_iff less_Suc_eq split: if_splits)
qed simp

lemma bitmap_from_u32array_bits:
  "bm_bit (fst (bitmap_from_u32array bm nbits buf nwords)) n =
     (if n < nbits then n < 32 * nwords \<and> bit (buf (n div 32)) (n mod 32) else bm_bit bm n)"
proof -
  let ?q = "n div 64" and ?r = "n mod 64"
  have u: "bit (u32_part buf nwords ?q) ?r \<longleftrightarrow> n < 32 * nwords \<and> bit (buf (n div 32)) (n mod 32)"
    using u32_part_bits [of ?r buf nwords ?q] by (simp add: div_less_iff_less_mult mult.commute)
  have e: "fst (bitmap_from_u32array bm nbits buf nwords) =
      (\<lambda>i. if i < BITS_TO_LONGS nbits then (if i < nbits div 64 then u32_part buf nwords i
        else (bm i AND NOT (BITMAP_LAST_WORD_MASK nbits)) OR (u32_part buf nwords i AND BITMAP_LAST_WORD_MASK nbits)) else bm i)"
    unfolding bitmap_from_u32array_def from_u32_fold by simp
  have s: "bit (BITMAP_LAST_WORD_MASK nbits) ?r \<longleftrightarrow> nbits mod 64 = 0 \<or> ?r < nbits mod 64" by (simp add: bit_last_mask)
  show ?thesis
  proof (cases "n < nbits")
    case True
    then show ?thesis using words_cover [OF True] in_last_word [of nbits n] u s
      by (auto simp: e bm_bit_def bit_or_iff bit_and_iff bit_not_iff)
  next
    case False
    then show ?thesis using last_word [of nbits n] s by (auto simp: e bm_bit_def bit_or_iff bit_and_iff bit_not_iff)
  qed
qed

definition u64_part :: "bitmap \<Rightarrow> nat \<Rightarrow> nat \<Rightarrow> 64 word" where
  "u64_part bm nbits j = (if j < BITS_TO_LONGS nbits
     then if j \<ge> nbits div 64 then bm j AND BITMAP_LAST_WORD_MASK nbits else bm j else 0)"

lemma u64_part_bits: "c < 64 \<Longrightarrow> bit (u64_part bm nbits j) c \<longleftrightarrow> 64 * j + c < nbits \<and> bm_bit bm (64 * j + c)"
proof -
  assume c: "c < 64"
  let ?n = "64 * j + c"
  have d: "?n div 64 = j" "?n mod 64 = c" using c by simp_all
  have "bit (BITMAP_LAST_WORD_MASK nbits) c \<longleftrightarrow> nbits mod 64 = 0 \<or> c < nbits mod 64" using c by (simp add: bit_last_mask)
  then show ?thesis
    using words_cover [of ?n nbits] in_last_word [of nbits ?n] last_word [of nbits ?n] c unfolding d
    by (cases "?n < nbits") (auto simp: u64_part_def bit_and_iff)
qed

lemma to_u32_loop_words:
  assumes "L = BITS_TO_LONGS nbits"
  shows "to_u32array_loop buf nwords bm nbits (2 * k) (min k L) =
    (\<lambda>i. if 2 * k \<le> i \<and> i < nwords then ucast (drop_bit (32 * (i mod 2)) (u64_part bm nbits (i div 2))) else buf i)"
proof (induction "nwords - 2 * k" arbitrary: k buf rule: less_induct)
  case less
  have p: "(if min k L < BITS_TO_LONGS nbits
      then (if min k L \<ge> nbits div 64 then bm (min k L) AND BITMAP_LAST_WORD_MASK nbits else bm (min k L), min k L + 1)
      else (0, min k L)) = (u64_part bm nbits k, min (Suc k) L)"
    using assms by (auto simp: u64_part_def min_def)
  show ?case
  proof (cases "2 * k < nwords")
    case True
    show ?thesis
    proof (cases "2 * k + 1 < nwords")
      case l: True
      have "to_u32array_loop buf nwords bm nbits (2 * k) (min k L) =
          to_u32array_loop (buf(2 * k := ucast (u64_part bm nbits k), 2 * k + 1 := ucast (drop_bit 32 (u64_part bm nbits k))))
            nwords bm nbits (2 * Suc k) (min (Suc k) L)"
        using True l by (subst to_u32array_loop.simps) (simp add: p del: fun_upd_apply)
      also have "\<dots> = (\<lambda>i. if 2 * k \<le> i \<and> i < nwords then ucast (drop_bit (32 * (i mod 2)) (u64_part bm nbits (i div 2))) else buf i)"
        using True l less.hyps [of "Suc k"] by (auto simp: fun_eq_iff)
      finally show ?thesis .
    next
      case l: False
      have "to_u32array_loop buf nwords bm nbits (2 * k) (min k L) = buf(2 * k := ucast (u64_part bm nbits k))"
        using True l by (subst to_u32array_loop.simps) (simp add: p del: fun_upd_apply)
      moreover have "2 * k \<le> i \<and> i < nwords \<longleftrightarrow> i = 2 * k" for i using True l by auto
      ultimately show ?thesis by (simp add: fun_eq_iff)
    qed
  qed (auto simp: to_u32array_loop.simps fun_eq_iff)
qed

lemma bitmap_to_u32array_bits:
  assumes "i < nwords" "b < 32"
  shows "bit (fst (bitmap_to_u32array buf nwords bm nbits) i) b \<longleftrightarrow> 32 * i + b < nbits \<and> bm_bit bm (32 * i + b)"
proof -
  have e: "64 * (i div 2) + (32 * (i mod 2) + b) = 32 * i + b" by presburger
  have "fst (bitmap_to_u32array buf nwords bm nbits) i = ucast (drop_bit (32 * (i mod 2)) (u64_part bm nbits (i div 2)))"
    using to_u32_loop_words [OF refl, of buf nwords bm nbits 0] assms(1) by (simp add: bitmap_to_u32array_def)
  then show ?thesis
    using u64_part_bits [of "32 * (i mod 2) + b" bm nbits "i div 2"] assms(2) unfolding e
    by (simp add: bit_simps)
qed

section \<open>Properties\<close>

text \<open>C7.  The searches of the bitmap library, for a size \<open>n\<close> up to \<open>2 ^ 64 - 64\<close>: the first set
  or clear bit from the start or from a given bit, and the last set bit, and the size when there is
  none.  Each one reads whole words, with the first or the last one masked.  For a size below
  \<open>2 ^ 32\<close>, \<^verbatim>\<open>for_each_set_bit\<close> visits the set bits in order, and the weight is their number
  as an \<^verbatim>\<open>int\<close>: the number itself below \<open>2 ^ 31\<close>, and negative from there on.\<close>

theorem bitmap_search:
  assumes "n \<le> 2 ^ 64 - 64"
  shows "first_pos (bm_bit addr) 0 n (find_first_bit addr n) \<and>
   first_pos (\<lambda>i. \<not> bm_bit addr i) 0 n (find_first_zero_bit addr n) \<and>
   last_pos (bm_bit addr) n n (find_last_bit addr n) \<and>
   (start < n \<longrightarrow> first_pos (bm_bit addr) start n (find_next_bit addr n start) \<and>
      first_pos (\<lambda>i. \<not> bm_bit addr i) start n (find_next_zero_bit addr n start)) \<and>
   (n < 2 ^ 32 \<longrightarrow> for_each_set_bit addr n = filter (bm_bit addr) [0..<n] \<and>
      bitmap_weight addr n = (let c = length (filter (bm_bit addr) [0..<n]) in if c < 2 ^ 31 then int c else int c - 2 ^ 32))"
proof -
  have "bitmap_weight addr n = (let c = bits_below addr n in if c < 2 ^ 31 then int c else int c - 2 ^ 32)" if "n < 2 ^ 32"
  proof -
    have "bits_below addr n < 2 ^ 32" using bits_below_le [of addr n] that by simp
    then show ?thesis unfolding bitmap_weight_s32 Let_def by (intro s32_nat) simp
  qed
  then show ?thesis unfolding bits_below_def
    by (intro conjI impI find_first_bit_first find_first_zero_bit_first find_last_bit_last find_next_bit_first
        find_next_zero_bit_first for_each_set_bit_filter)
qed

theorem bitmap_search_witness:
  "find_next_bit (\<lambda>i. if i = 1 then 4 else 0) 100 3 = 66 \<and> bitmap_weight (\<lambda>i. if i = 1 then 4 else 0) 100 = 1"
proof -
  let ?m = "\<lambda>i :: nat. if i = 1 then 4 else 0 :: 64 word"
  have sz: "(100 :: nat) \<le> 2 ^ 64 - 64" by simp
  note t = bitmap_search [OF sz, of ?m 3]
  have f: "first_pos (bm_bit ?m) 3 100 (find_next_bit ?m 100 3)"
    using t [THEN conjunct2, THEN conjunct2, THEN conjunct2, THEN conjunct1] by simp
  have four: "bit (4 :: 64 word) k \<longleftrightarrow> k = 2" for k
  proof -
    have "(4 :: 64 word) = 2 ^ 2" by simp
    then show ?thesis by (simp only: bit_exp_iff) auto
  qed
  have b: "bm_bit ?m i \<longleftrightarrow> i = 66" for i
  proof
    assume "bm_bit ?m i"
    then have "i div 64 = 1" "bit (4 :: 64 word) (i mod 64)" by (simp_all add: bm_bit_def split: if_splits)
    then have d: "i div 64 = 1" "i mod 64 = 2" using four by blast+
    then show "i = 66" using div_mult_mod_eq [of i 64, symmetric] unfolding d by simp
  qed (simp add: bm_bit_def four)
  have "first_pos (bm_bit ?m) 3 100 66" unfolding first_pos_def b by simp
  then have "find_next_bit ?m 100 3 = 66" using first_pos_unique [OF f] by blast
  moreover have "filter (bm_bit ?m) [0..<100] = [66]"
  proof -
    have "[0..<100] = [0..<66] @ 66 # [67..<100 :: nat]" using upt_add_eq_append [of 0 66 34] upt_conv_Cons [of 66 100] by simp
    moreover have "filter (bm_bit ?m) [0..<66] = []" "filter (bm_bit ?m) [67..<100] = []" unfolding filter_empty_conv b by auto
    ultimately show ?thesis using b by simp
  qed
  then have "bitmap_weight ?m 100 = 1"
    using t [THEN conjunct2, THEN conjunct2, THEN conjunct2, THEN conjunct2] by (simp only:) simp
  ultimately show ?thesis by blast
qed

text \<open>C8.  Setting and clearing a range of bits changes the bits of the range and no other bit
  of memory, whatever the alignment of its ends.\<close>

theorem bitmap_range_ops:
  assumes "start + len < 2 ^ 32"
  shows "(bm_bit (bitmap_set m start len) n \<longleftrightarrow> bm_bit m n \<or> n \<in> {start..<start + len}) \<and>
    (bm_bit (bitmap_clear m start len) n \<longleftrightarrow> bm_bit m n \<and> n \<notin> {start..<start + len})"
  using bitmap_set_bits [OF assms] bitmap_clear_bits [OF assms] by simp

theorem bitmap_range_ops_witness:
  "(\<forall>n. bm_bit (bitmap_clear (\<lambda>i. NOT 0) 60 70) n \<longleftrightarrow> n \<notin> {60..<130})"
proof -
  have "bm_bit (\<lambda>i. NOT 0) n" for n by (simp add: bm_bit_def bit_simps)
  then show ?thesis using bitmap_range_ops [of 60 70] by simp
qed

text \<open>C12.  The shifts move every bit by the given distance, feed zeros, drop what leaves the
  bitmap, and do not write past its last word.  A right shift ignores the unused bits of the
  last word.\<close>

theorem bitmap_shift_ops:
  assumes "shift \<le> nbits" "nbits < 2 ^ 32"
  shows "bm_bit (bitmap_shift_right dst src shift nbits) n =
      (if n div 64 < BITS_TO_LONGS nbits then n + shift < nbits \<and> bm_bit src (n + shift) else bm_bit dst n) \<and>
    bm_bit (bitmap_shift_left dst src shift nbits) n =
      (if n div 64 < BITS_TO_LONGS nbits then shift \<le> n \<and> bm_bit src (n - shift) else bm_bit dst n)"
  by (intro conjI bitmap_shift_right_bits bitmap_shift_left_bits assms)

theorem bitmap_shift_ops_witness:
  "bm_bit (bitmap_shift_left (\<lambda>i. 0) (\<lambda>i. NOT 0) 70 128) 70 \<and> \<not> bm_bit (bitmap_shift_left (\<lambda>i. 0) (\<lambda>i. NOT 0) 70 128) 69"
proof -
  have "bm_bit (\<lambda>i. NOT 0) n" for n by (simp add: bm_bit_def bit_simps)
  then show ?thesis
    using bitmap_shift_ops [of 70 128 "\<lambda>i. 0" "\<lambda>i. NOT 0" 70] bitmap_shift_ops [of 70 128 "\<lambda>i. 0" "\<lambda>i. NOT 0" 69]
    by (simp add: BITS_TO_LONGS_def)
qed

text \<open>C9.  Allocating a region of \<open>2 ^ order\<close> bits in a bitmap of at most \<open>2 ^ 31\<close> bits, with
  \<open>order\<close> at most 30 (where \<^verbatim>\<open>1 << order\<close> is an \<^verbatim>\<open>int\<close>): the call returns.  The result
  is the first aligned region of clear bits, exactly its bits are set, and releasing it gives back
  the old bitmap; without such a region the result is \<^verbatim>\<open>-ENOMEM\<close> and nothing changes.\<close>

theorem bitmap_find_free_region_first:
  assumes "order \<le> 30" "bits \<le> 2 ^ 31"
  shows "\<exists>m' r. bitmap_find_free_region m bits order = Some (m', r) \<and>
    (if \<exists>p. free_region m bits order p
     then \<exists>pos. r = int pos \<and> free_region m bits order pos \<and> (\<forall>p < pos. \<not> free_region m bits order p) \<and>
       (\<forall>n. bm_bit m' n \<longleftrightarrow> bm_bit m n \<or> in_region pos order n) \<and> bitmap_release_region m' pos order = m
     else r = - 12 \<and> m' = m)"
proof (cases "\<exists>p. free_region m bits order p")
  case True
  then obtain q where q: "first_region m bits order 0 q"
    "bitmap_find_free_region m bits order = Some (fst (do_reg_op m q order REG_OP_ALLOC), int q)"
    using find_free_region_loop_first [OF assms, of 0 m] first_region_ex [of m bits order] by (auto simp: bitmap_find_free_region_def)
  let ?m = "fst (do_reg_op m q order REG_OP_ALLOC)"
  have f: "free_region m bits order q" "\<forall>p<q. \<not> free_region m bits order p" using q(1) by (simp_all add: first_region_def)
  then have d: "2 ^ order dvd q" and free: "\<forall>n. in_region q order n \<longrightarrow> \<not> bm_bit m n" by (simp_all add: free_region_def)
  have b: "bm_bit ?m n \<longleftrightarrow> bm_bit m n \<or> in_region q order n" for n by (rule do_reg_op_bits(2) [OF d])
  then have "bitmap_release_region ?m q order = m"
    unfolding bitmap_release_region_def using do_reg_op_bits(3) [OF d, of ?m] free by (intro bm_eqI) blast
  then show ?thesis using True q(2) f b by (intro exI [of _ ?m] exI [of _ "int q"]) auto
next
  case False
  then have "\<not> first_region m bits order 0 q" for q by (auto simp: first_region_def)
  then show ?thesis using False find_free_region_loop_first [OF assms, of 0 m] by (simp add: bitmap_find_free_region_def)
qed

theorem bitmap_find_free_region_first_witness:
  "bitmap_find_free_region (\<lambda>i. if i = 0 then 1 else 0) 256 6 = Some ((\<lambda>i. if i = 0 then 1 else 0)(1 := NOT 0), 64)"
proof -
  let ?m = "\<lambda>i :: nat. if i = 0 then 1 else 0 :: 64 word"
  have b: "bm_bit ?m n \<longleftrightarrow> n = 0" for n using mult_div_mod_eq [of 64 n] by (auto simp: bm_bit_def bit_1_iff)
  have f64: "free_region ?m 256 6 64" by (simp add: free_region_def b)
  then have ex: "\<exists>p. free_region ?m 256 6 p" ..
  have h: "6 \<le> (30 :: nat)" "256 \<le> (2 :: nat) ^ 31" by simp_all
  obtain m' pos where r: "bitmap_find_free_region ?m 256 6 = Some (m', int pos)" "free_region ?m 256 6 pos"
    "\<forall>p<pos. \<not> free_region ?m 256 6 p" "\<forall>n. bm_bit m' n \<longleftrightarrow> bm_bit ?m n \<or> in_region pos 6 n"
    using bitmap_find_free_region_first [OF h, of ?m] unfolding if_P [OF ex] by blast
  have "pos \<noteq> 0" using r(2) b by (auto simp: free_region_def)
  moreover have "\<not> 64 < pos" using r(3) f64 by blast
  moreover have "64 dvd pos" using r(2) by (simp add: free_region_def)
  ultimately have pos: "pos = 64" by (auto elim!: dvdE)
  have "m' = ?m(1 := NOT 0)"
  proof (rule bm_eqI)
    fix n
    have "bm_bit (?m(1 := NOT 0)) n \<longleftrightarrow> (if n div 64 = 1 then True else bm_bit ?m n)" by (rule bm_bit_upd) (simp add: bit_simps)
    then show "bm_bit m' n = bm_bit (?m(1 := NOT 0)) n" using r(4) pos b in_word [of n 1] by auto
  qed
  then show ?thesis using r(1) pos by simp
qed

text \<open>C10.  The search for \<open>nr\<close> clear bits with an alignment of \<open>2 ^ k\<close> ends, when the size, the
  offset, the alignment and \<open>nr\<close> together do not exceed \<open>2 ^ 64\<close>.  It returns the first aligned
  area, or a number above the size when there is none.\<close>

theorem bitmap_find_next_zero_area_first:
  assumes "0 < nr" "sz + off + 2 ^ k + nr \<le> 2 ^ 64"
  shows "\<exists>r. bitmap_find_next_zero_area_off m sz start nr (2 ^ k - 1) off = Some r \<and>
    (if \<exists>p. free_area m sz start nr (2 ^ k) off p
     then free_area m sz start nr (2 ^ k) off r \<and> (\<forall>p. free_area m sz start nr (2 ^ k) off p \<longrightarrow> r \<le> p)
     else sz < r)"
proof -
  obtain r where r: "bitmap_find_next_zero_area_off m sz start nr (2 ^ k - 1) off = Some r"
    "free_area m sz start nr (2 ^ k) off r \<or> sz < r" "\<forall>p. free_area m sz start nr (2 ^ k) off p \<longrightarrow> r \<le> p"
    using find_next_zero_area_first [OF assms, of m start] by blast
  have "free_area m sz start nr (2 ^ k) off r" if "free_area m sz start nr (2 ^ k) off p" for p
  proof -
    have "r \<le> p" "p \<le> sz" using r(3) that by (auto simp: free_area_def)
    then show ?thesis using r(2) by auto
  qed
  then show ?thesis using r by (intro exI [of _ r]) (auto simp del: One_nat_def)
qed

theorem bitmap_find_next_zero_area_first_witness:
  "bitmap_find_next_zero_area_off (\<lambda>i. 0) 100 5 8 (2 ^ 3 - 1) 0 = Some 8"
proof -
  have z: "\<not> bm_bit (\<lambda>i. 0) n" for n by (simp add: bm_bit_def)
  have a: "free_area (\<lambda>i. 0) 100 5 8 (2 ^ 3) 0 8" by (simp add: free_area_def z)
  have ex: "\<exists>p. free_area (\<lambda>i. 0) 100 5 8 (2 ^ 3) 0 p" using a by blast
  have h: "0 < (8 :: nat)" "100 + 0 + 2 ^ 3 + 8 \<le> (2 :: nat) ^ 64" by simp_all
  obtain r where r: "bitmap_find_next_zero_area_off (\<lambda>i. 0) 100 5 8 (2 ^ 3 - 1) 0 = Some r"
    "free_area (\<lambda>i. 0) 100 5 8 (2 ^ 3) 0 r" "r \<le> 8"
    using bitmap_find_next_zero_area_first [OF h, of "\<lambda>i. 0" 5] a unfolding if_P [OF ex] by blast
  then have "8 dvd r" "5 \<le> r" by (simp_all add: free_area_def)
  then have "r = 8" using r(3) by (auto elim!: dvdE)
  then show ?thesis using r(1) by simp
qed

text \<open>C11.  Two searches that never end.  The search for a free region starts over at 0 when the
  bitmap is full and its last region ends at \<open>2 ^ 32\<close>, since the end of a region is an
  \<^verbatim>\<open>unsigned int\<close>.  The search for an aligned area with the largest mask looks at the area at
  0 again and again when bit 0 is set.\<close>

theorem bitmap_searches_endless:
  "((\<forall>n. bm_bit m n) \<and> order \<le> 30 \<and> 2 ^ 32 - 2 ^ order \<le> bits \<and> bits < 2 ^ 32 \<longrightarrow> bitmap_find_free_region m bits order = None) \<and>
   (bm_bit m 0 \<and> 0 < nr \<and> nr \<le> sz \<and> sz < 2 ^ 64 \<longrightarrow> bitmap_find_next_zero_area_off m sz start nr (2 ^ 64 - 1) 0 = None)"
proof (intro conjI impI)
  assume a: "(\<forall>n. bm_bit m n) \<and> order \<le> 30 \<and> 2 ^ 32 - 2 ^ order \<le> bits \<and> bits < 2 ^ 32"
  show "bitmap_find_free_region m bits order = None"
    using find_free_region_loop_endless [of m order bits 0] a by (cases "bitmap_find_free_region m bits order") (auto simp: bitmap_find_free_region_def)
next
  assume a: "bm_bit m 0 \<and> 0 < nr \<and> nr \<le> sz \<and> sz < 2 ^ 64"
  show "bitmap_find_next_zero_area_off m sz start nr (2 ^ 64 - 1) 0 = None"
    using find_next_zero_area_endless [of m sz nr start] a by (cases "bitmap_find_next_zero_area_off m sz start nr (2 ^ 64 - 1) 0") auto
qed

theorem bitmap_searches_endless_witness:
  "bitmap_find_free_region (\<lambda>i. NOT 0) (2 ^ 32 - 1) 0 = None \<and> bitmap_find_next_zero_area_off (\<lambda>i. 1) 100 0 1 (2 ^ 64 - 1) 0 = None"
proof -
  have "bm_bit (\<lambda>i. NOT 0) n" "bm_bit (\<lambda>i. 1) 0" for n by (simp_all add: bm_bit_def bit_simps)
  then show ?thesis
    using bitmap_searches_endless [of "\<lambda>i. NOT 0" 0 "2 ^ 32 - 1" 1 100 0] bitmap_searches_endless [of "\<lambda>i. 1" 0 "2 ^ 32 - 1" 1 100 0]
    by (simp del: One_nat_def)
qed

text \<open>C13.  For bitmaps of less than \<open>2 ^ 31\<close> bits (the size of \<^verbatim>\<open>bitmap_bitremap\<close> is an
  \<^verbatim>\<open>int\<close>): the position of the \<open>n\<close>-th set bit and the ordinal of a set bit are inverse, a bit
  that is not set has the ordinal -1, and a remapped bitmap holds exactly the images of the set
  bits.\<close>

theorem bitmap_ord_pos_inverse:
  assumes "nbits < 2 ^ 31"
  shows "(int ord < bitmap_weight old nbits \<longrightarrow>
      bitmap_pos_to_ord old (bitmap_ord_to_pos old ord nbits) nbits = int ord) \<and>
   (if pos < nbits \<and> bm_bit old pos
    then 0 \<le> bitmap_pos_to_ord old pos nbits \<and> bitmap_ord_to_pos old (nat (bitmap_pos_to_ord old pos nbits)) nbits = pos
    else bitmap_pos_to_ord old pos nbits = - 1) \<and>
   (n < nbits \<longrightarrow> bm_bit (bitmap_remap dst src old new nbits) n =
      (\<exists>i < nbits. bm_bit src i \<and> n = bitmap_bitremap i old new nbits))"
proof (intro conjI impI)
  assume "int ord < bitmap_weight old nbits"
  then have o: "ord < bits_below old nbits" using assms by (simp add: bitmap_weight_small)
  show "bitmap_pos_to_ord old (bitmap_ord_to_pos old ord nbits) nbits = int ord"
    using pos_to_ord_small [OF pos_of_ord(1,2) [OF o] assms] pos_of_ord(3) [OF o] by simp
next
  show "if pos < nbits \<and> bm_bit old pos
    then 0 \<le> bitmap_pos_to_ord old pos nbits \<and> bitmap_ord_to_pos old (nat (bitmap_pos_to_ord old pos nbits)) nbits = pos
    else bitmap_pos_to_ord old pos nbits = - 1"
    using pos_to_ord_small [OF _ _ assms, of pos old] ord_of_pos(2) [of pos nbits old] by (auto simp: bitmap_pos_to_ord_def test_bit_bm)
next
  assume "n < nbits"
  then have "\<not> BITS_TO_LONGS nbits \<le> n div 64" using words_cover by (simp add: linorder_not_le)
  then show "bm_bit (bitmap_remap dst src old new nbits) n = (\<exists>i < nbits. bm_bit src i \<and> n = bitmap_bitremap i old new nbits)"
    by (auto simp: bitmap_remap_fold [OF assms] fold_set_bits for_each_set_bit_filter)
qed

theorem bitmap_ord_pos_inverse_witness:
  "0 \<le> bitmap_pos_to_ord (\<lambda>i. NOT 0) 5 64 \<and> bitmap_pos_to_ord (\<lambda>i. NOT 0) 64 64 = - 1"
proof -
  have "bm_bit (\<lambda>i. NOT 0) n" for n by (simp add: bm_bit_def bit_simps)
  moreover have h: "64 < (2 :: nat) ^ 31" by simp
  ultimately show ?thesis
    using bitmap_ord_pos_inverse [OF h, where old = "\<lambda>i. NOT 0" and pos = 5 and ord = 0 and n = 0 and dst = "\<lambda>i. 0" and src = "\<lambda>i. 0" and new = "\<lambda>i. 0"]
      bitmap_ord_pos_inverse [OF h, where old = "\<lambda>i. NOT 0" and pos = 64 and ord = 0 and n = 0 and dst = "\<lambda>i. 0" and src = "\<lambda>i. 0" and new = "\<lambda>i. 0"]
    by simp
qed

text \<open>C14.  Copying an array of 32-bit words into a bitmap of the same size and back gives the
  array, and the copy writes no bit past the size.\<close>

theorem bitmap_u32array_round_trip:
  "(i < nwords \<longrightarrow>
      fst (bitmap_to_u32array buf' nwords (fst (bitmap_from_u32array bm (32 * nwords) buf nwords)) (32 * nwords)) i = buf i) \<and>
   (32 * nwords \<le> n \<longrightarrow> bm_bit (fst (bitmap_from_u32array bm (32 * nwords) buf nwords)) n = bm_bit bm n)"
proof (intro conjI impI)
  assume i: "i < nwords"
  show "fst (bitmap_to_u32array buf' nwords (fst (bitmap_from_u32array bm (32 * nwords) buf nwords)) (32 * nwords)) i = buf i"
  proof (rule bit_word_eqI)
    fix b :: nat assume "b < LENGTH(32)"
    then have b: "b < 32" by simp
    then have "32 * i + b < 32 * nwords" using i by linarith
    then show "bit (fst (bitmap_to_u32array buf' nwords (fst (bitmap_from_u32array bm (32 * nwords) buf nwords)) (32 * nwords)) i) b = bit (buf i) b"
      using bitmap_to_u32array_bits [OF i b] b by (simp add: bitmap_from_u32array_bits)
  qed
qed (simp add: bitmap_from_u32array_bits)

theorem bitmap_u32array_round_trip_witness:
  "fst (bitmap_to_u32array (\<lambda>i. 0) 3 (fst (bitmap_from_u32array (\<lambda>i. 0) 96 (\<lambda>i. word_of_nat i) 3)) 96) 2 = 2"
  using bitmap_u32array_round_trip [of 2 3 "\<lambda>i. 0" "\<lambda>i. 0" "\<lambda>i. word_of_nat i" 0] by simp

end
