(* ===== verification/Ox_Shm.thy ===== *)
theory Ox_Shm
  imports Ox_Sjd
begin

unbundle bit_operations_syntax

text \<open>
  The shared memory of a file (\<^verbatim>\<open>devfs/src/common/shm.c\<close>, the page bits of
  \<^verbatim>\<open>libfs/src/filesystem/inode.c\<close>) and the daemon's collection of dirty pages
  (\<^verbatim>\<open>secure_daemon/src/libfs/shm.c\<close>).  The memory is its bytes by offset: a header
  page, a bitmap of the allocated page-entry blocks, a bitmap of the groups with dirty
  pages, and the page-entry blocks with four state bits per page.  The writer sets the
  dirty bit of a page and of its group; the collector turns the dirty bits into ranges of
  pages, clears them and locks the pages.
\<close>

section \<open>Layout\<close>

type_synonym shm = "nat \<Rightarrow> 8 word"

definition PAGE_SIZE :: nat where "PAGE_SIZE = 4096"
definition BITS_IN_BYTE :: nat where "BITS_IN_BYTE = 8"
definition BITS_IN_PAGE :: nat where "BITS_IN_PAGE = PAGE_SIZE * BITS_IN_BYTE"
definition NR_PAGE_STATE :: nat where "NR_PAGE_STATE = 4"
definition NR_PAGES_IN_PEB :: nat where "NR_PAGES_IN_PEB = BITS_IN_PAGE div NR_PAGE_STATE"
definition BYTES_PER_STATE :: nat where "BYTES_PER_STATE = PAGE_SIZE div NR_PAGE_STATE"
definition PEB_COVERAGE :: nat where "PEB_COVERAGE = PAGE_SIZE * BITS_IN_PAGE div NR_PAGE_STATE"

datatype page_state = DIRTYBIT | LOCKBIT | UPTODATEBIT | SKIPREAD_BIT

fun state_start :: "page_state \<Rightarrow> nat" where
  "state_start DIRTYBIT = 0"
| "state_start LOCKBIT = BYTES_PER_STATE * 1"
| "state_start UPTODATEBIT = BYTES_PER_STATE * 2"
| "state_start SKIPREAD_BIT = BYTES_PER_STATE * 3"

text \<open>The number of pages of the two directory bitmaps; \<open>maxfs\<close> is the largest file size,
  a constant of the kernel part.\<close>

definition PDB_ALLOC_CHECK_NR :: "nat \<Rightarrow> nat" where
  "PDB_ALLOC_CHECK_NR maxfs = (maxfs - 1) div (PEB_COVERAGE * BITS_IN_PAGE) + 1"

definition PDB_DIRTY_GROUP_NR :: "nat \<Rightarrow> nat" where
  "PDB_DIRTY_GROUP_NR maxfs = (maxfs - 1) div (PEB_COVERAGE * BITS_IN_PAGE) + 1"

lemmas shm_consts = PAGE_SIZE_def BITS_IN_BYTE_def BITS_IN_PAGE_def NR_PAGE_STATE_def NR_PAGES_IN_PEB_def
  BYTES_PER_STATE_def PEB_COVERAGE_def

section \<open>Bits of a page of shared memory\<close>

definition shm_page_set_bit :: "shm \<Rightarrow> nat \<Rightarrow> nat \<Rightarrow> shm" where
  "shm_page_set_bit m page bit_pos =
     (if bit_pos \<ge> BITS_IN_PAGE then m
      else m(page + bit_pos div 8 := m (page + bit_pos div 8) OR push_bit (bit_pos mod 8) 1))"

definition shm_page_unset_bit :: "shm \<Rightarrow> nat \<Rightarrow> nat \<Rightarrow> shm" where
  "shm_page_unset_bit m page bit_pos =
     (if bit_pos \<ge> BITS_IN_PAGE then m
      else m(page + bit_pos div 8 := m (page + bit_pos div 8) AND NOT (push_bit (bit_pos mod 8) 1)))"

definition shm_page_check_bit :: "shm \<Rightarrow> nat \<Rightarrow> nat \<Rightarrow> bool" where
  "shm_page_check_bit m page bit_pos =
     (if bit_pos \<ge> BITS_IN_PAGE then False
      else m (page + bit_pos div 8) AND push_bit (bit_pos mod 8) 1 \<noteq> 0)"

section \<open>State bits of a file page\<close>

text \<open>\<^verbatim>\<open>get_page_bits\<close>: the byte with the bit of a page.\<close>

definition get_page_bits :: "nat \<Rightarrow> nat \<Rightarrow> page_state \<Rightarrow> nat" where
  "get_page_bits maxfs pg_idx bit_type =
     (let dl_bmap_idx = pg_idx * PAGE_SIZE div PEB_COVERAGE;
          ptr = (PDB_DIRTY_GROUP_NR maxfs + PDB_ALLOC_CHECK_NR maxfs + 1 + dl_bmap_idx) * PAGE_SIZE;
          byte_ofs = (pg_idx mod NR_PAGES_IN_PEB) div BITS_IN_BYTE + state_start bit_type
      in ptr + byte_ofs)"

definition set_page_state :: "nat \<Rightarrow> shm \<Rightarrow> nat \<Rightarrow> page_state \<Rightarrow> shm" where
  "set_page_state maxfs m pg_idx ty =
     (let p = get_page_bits maxfs pg_idx ty in m(p := m p OR push_bit (pg_idx mod BITS_IN_BYTE) 1))"

definition clear_page_state :: "nat \<Rightarrow> shm \<Rightarrow> nat \<Rightarrow> page_state \<Rightarrow> shm" where
  "clear_page_state maxfs m pg_idx ty =
     (let p = get_page_bits maxfs pg_idx ty in m(p := m p AND NOT (push_bit (pg_idx mod BITS_IN_BYTE) 1)))"

definition page_bit :: "nat \<Rightarrow> shm \<Rightarrow> nat \<Rightarrow> page_state \<Rightarrow> bool" where
  "page_bit maxfs m pg_idx ty = bit (m (get_page_bits maxfs pg_idx ty)) (pg_idx mod BITS_IN_BYTE)"

text \<open>\<^verbatim>\<open>dirty_page_bit\<close> also says whether the page was clean, for the dirty page
  counter.  \<^verbatim>\<open>lock_page_bit\<close> spins until the bit is clear: \<open>Blocked\<close>.\<close>

definition dirty_page_bit :: "nat \<Rightarrow> shm \<Rightarrow> nat \<Rightarrow> shm \<times> bool" where
  "dirty_page_bit maxfs m pg_idx = (set_page_state maxfs m pg_idx DIRTYBIT, \<not> page_bit maxfs m pg_idx DIRTYBIT)"

definition lock_page_bit :: "nat \<Rightarrow> shm \<Rightarrow> nat \<Rightarrow> ox_error + shm" where
  "lock_page_bit maxfs m pg_idx =
     (if page_bit maxfs m pg_idx LOCKBIT then Inl Blocked else Inr (set_page_state maxfs m pg_idx LOCKBIT))"

definition unlock_page_bit :: "nat \<Rightarrow> shm \<Rightarrow> nat \<Rightarrow> shm" where
  "unlock_page_bit maxfs m pg_idx = clear_page_state maxfs m pg_idx LOCKBIT"

definition uptodate_page_bit :: "nat \<Rightarrow> shm \<Rightarrow> nat \<Rightarrow> shm" where
  "uptodate_page_bit maxfs m pg_idx = set_page_state maxfs m pg_idx UPTODATEBIT"

definition set_skipread_bit :: "nat \<Rightarrow> shm \<Rightarrow> nat \<Rightarrow> shm" where
  "set_skipread_bit maxfs m pg_idx = set_page_state maxfs m pg_idx SKIPREAD_BIT"

definition clear_skipread_bit :: "nat \<Rightarrow> shm \<Rightarrow> nat \<Rightarrow> shm" where
  "clear_skipread_bit maxfs m pg_idx = clear_page_state maxfs m pg_idx SKIPREAD_BIT"

definition dirty_page_group :: "shm \<Rightarrow> nat \<Rightarrow> shm" where
  "dirty_page_group m pg_idx = shm_page_set_bit m (2 * PAGE_SIZE) (pg_idx * PAGE_SIZE div PEB_COVERAGE)"

definition shm_alloc_check :: "shm \<Rightarrow> nat \<Rightarrow> shm" where
  "shm_alloc_check m pg_idx =
     (let alc_bmap_pos = pg_idx * PAGE_SIZE div PEB_COVERAGE
      in if shm_page_check_bit m PAGE_SIZE alc_bmap_pos then m
         else let m = shm_page_set_bit m PAGE_SIZE alc_bmap_pos;
                  p = PAGE_SIZE + (alc_bmap_pos + 2) * PAGE_SIZE
              in (\<lambda>i. if p \<le> i \<and> i < p + PAGE_SIZE then 0 else m i))"

section \<open>Lists of dirty ranges\<close>

text \<open>An \<^verbatim>\<open>inode_range_dirty\<close> node holds up to 340 ranges; a list of nodes is filled from
  the head.  \<open>alloc n\<close> says whether the slab gives a node when the list has \<open>n\<close>.\<close>

definition RANGE_DIRTY_ENT_MAX :: nat where "RANGE_DIRTY_ENT_MAX = 340"

record inode_range_dirty =
  dirty_pages :: "(nat \<times> nat) list"
  dirty_blk_nr :: nat

definition empty_ird :: inode_range_dirty where
  "empty_ird = \<lparr>dirty_pages = [], dirty_blk_nr = 0\<rparr>"

function get_next_ird :: "(nat \<Rightarrow> bool) \<Rightarrow> inode_range_dirty list \<Rightarrow> nat \<Rightarrow> (inode_range_dirty list \<times> nat) option" where
  "get_next_ird alloc irds i =
     (if i < length irds \<and> length (dirty_pages (irds ! i)) = RANGE_DIRTY_ENT_MAX
      then if i + 1 < length irds then get_next_ird alloc irds (i + 1)
           else if alloc (length irds) then Some (irds @ [empty_ird], i + 1) else None
      else Some (irds, i))"
  by pat_completeness auto
termination by (relation "measure (\<lambda>(alloc, irds, i). length irds - i)") auto

declare get_next_ird.simps [simp del]

text \<open>A list with the cached tail.\<close>

record ird_list =
  il_nodes :: "inode_range_dirty list"
  il_tail :: "nat option"

definition ird_from :: "ird_list \<Rightarrow> nat" where
  "ird_from l = (case il_tail l of Some t \<Rightarrow> t | None \<Rightarrow> 0)"

definition ird_append :: "inode_range_dirty list \<Rightarrow> nat \<Rightarrow> nat \<Rightarrow> nat \<Rightarrow> inode_range_dirty list" where
  "ird_append irds i start nr =
     irds[i := \<lparr>dirty_pages = dirty_pages (irds ! i) @ [(start, nr)], dirty_blk_nr = add32 (dirty_blk_nr (irds ! i)) nr\<rparr>]"

definition add_range_dirty_staging :: "(nat \<Rightarrow> bool) \<Rightarrow> ird_list \<Rightarrow> nat \<Rightarrow> nat \<Rightarrow> ird_list" where
  "add_range_dirty_staging alloc l start nr =
     (if nr = 0 then l
      else case get_next_ird alloc (il_nodes l) (ird_from l) of
             None \<Rightarrow> l
           | Some (irds, i) \<Rightarrow> \<lparr>il_nodes = ird_append irds i start nr, il_tail = Some i\<rparr>)"

record journal_dirty =
  jd_dirty :: ird_list
  jd_waiting :: ird_list
  jd_waiting_nr :: nat

definition add_range_dirty_journal :: "(nat \<Rightarrow> bool) \<Rightarrow> journal_dirty \<Rightarrow> nat \<Rightarrow> nat \<Rightarrow> journal_dirty" where
  "add_range_dirty_journal alloc d start nr =
     (if nr = 0 then d
      else case get_next_ird alloc (il_nodes (jd_dirty d)) (ird_from (jd_dirty d)) of
             None \<Rightarrow> d
           | Some (irds, i) \<Rightarrow>
               (case get_next_ird alloc (il_nodes (jd_waiting d)) (ird_from (jd_waiting d)) of
                  None \<Rightarrow> d\<lparr>jd_dirty := (jd_dirty d)\<lparr>il_nodes := ird_append irds i start nr\<rparr>\<rparr>
                | Some (irds', i') \<Rightarrow>
                    d\<lparr>jd_dirty := \<lparr>il_nodes = ird_append irds i start nr, il_tail = Some i\<rparr>,
                      jd_waiting := \<lparr>il_nodes = ird_append irds' i' start nr, il_tail = Some i'\<rparr>,
                      jd_waiting_nr := add32 (jd_waiting_nr d) nr\<rparr>))"

text \<open>The two users of the collector: staging and background journaling.\<close>

datatype dirty_lists = Staging ird_list | Journal journal_dirty

fun add_range_dirty :: "(nat \<Rightarrow> bool) \<Rightarrow> dirty_lists \<Rightarrow> nat \<Rightarrow> nat \<Rightarrow> dirty_lists" where
  "add_range_dirty alloc (Staging l) start nr = Staging (add_range_dirty_staging alloc l start nr)"
| "add_range_dirty alloc (Journal d) start nr = Journal (add_range_dirty_journal alloc d start nr)"

fun reset_tails :: "dirty_lists \<Rightarrow> dirty_lists" where
  "reset_tails (Staging l) = Staging (l\<lparr>il_tail := None\<rparr>)"
| "reset_tails (Journal d) = Journal (d\<lparr>jd_dirty := (jd_dirty d)\<lparr>il_tail := None\<rparr>,
                                        jd_waiting := (jd_waiting d)\<lparr>il_tail := None\<rparr>\<rparr>)"

fun free_ird_except_first :: "inode_range_dirty list \<Rightarrow> inode_range_dirty list" where
  "free_ird_except_first [] = []"
| "free_ird_except_first (i # is) = [empty_ird]"

definition snapshot_ird :: "inode_range_dirty list \<Rightarrow> inode_range_dirty list \<times> inode_range_dirty list" where
  "snapshot_ird irds = (irds, [empty_ird])"

section \<open>Collecting dirty pages\<close>

text \<open>The state of a run over a page-entry block at offset \<open>dl\<close>: the memory, the open run
  of dirty pages and the lists.  A page that is locked ends the collection with an error, and
  the pages of the open run are lost.\<close>

record gather =
  g_shm :: shm
  g_count :: nat
  g_pos :: nat
  g_lists :: dirty_lists
  g_fail :: bool

definition flush_run :: "(nat \<Rightarrow> bool) \<Rightarrow> nat \<Rightarrow> gather \<Rightarrow> gather" where
  "flush_run alloc bmap_idx s =
     (if g_count s = 0 then s
      else s\<lparr>g_lists := add_range_dirty alloc (g_lists s) (g_pos s + bmap_idx * NR_PAGES_IN_PEB) (g_count s),
             g_count := 0\<rparr>)"

definition gather_bit :: "(nat \<Rightarrow> bool) \<Rightarrow> nat \<Rightarrow> nat \<Rightarrow> nat \<Rightarrow> 8 word \<Rightarrow> nat \<Rightarrow> gather \<Rightarrow> gather" where
  "gather_bit alloc dl bmap_idx byte_offset curr_byte b s =
     (if g_fail s then s
      else if bit curr_byte b
      then let pos = (if g_count s = 0 then b + byte_offset * BITS_IN_BYTE else g_pos s);
               m = g_shm s;
               m = m(dl + byte_offset := m (dl + byte_offset) AND NOT (push_bit b 1));
               lk = dl + byte_offset + state_start LOCKBIT;
               s = s\<lparr>g_pos := pos, g_count := g_count s + 1, g_shm := m\<rparr>
           in if bit (m lk) b then s\<lparr>g_fail := True\<rparr>
              else s\<lparr>g_shm := m(lk := m lk OR push_bit b 1)\<rparr>
      else flush_run alloc bmap_idx s)"

definition gather_byte :: "(nat \<Rightarrow> bool) \<Rightarrow> nat \<Rightarrow> nat \<Rightarrow> shm \<Rightarrow> nat \<Rightarrow> gather \<Rightarrow> gather" where
  "gather_byte alloc dl bmap_idx word byte_offset s =
     (if g_fail s then s
      else if word (dl + byte_offset) = 0 then flush_run alloc bmap_idx s
      else fold (gather_bit alloc dl bmap_idx byte_offset (word (dl + byte_offset))) [0..<8] s)"

definition gather_word :: "(nat \<Rightarrow> bool) \<Rightarrow> nat \<Rightarrow> nat \<Rightarrow> nat \<Rightarrow> gather \<Rightarrow> gather" where
  "gather_word alloc dl bmap_idx i s =
     (let word = g_shm s
      in if g_fail s then s
         else if \<forall>k\<in>set [0..<8]. word (dl + i * 8 + k) = 0 then flush_run alloc bmap_idx s
         else fold (\<lambda>k. gather_byte alloc dl bmap_idx word (i * 8 + k)) [0..<8] s)"

definition get_dirty_lock_bmap :: "nat \<Rightarrow> nat \<Rightarrow> nat" where
  "get_dirty_lock_bmap maxfs idx = PAGE_SIZE * (PDB_DIRTY_GROUP_NR maxfs + PDB_ALLOC_CHECK_NR maxfs + 1 + idx)"

definition get_dirty_group_bmap :: "nat \<Rightarrow> nat" where
  "get_dirty_group_bmap maxfs = PAGE_SIZE * (PDB_ALLOC_CHECK_NR maxfs + 1)"

definition gather_dirty_bits :: "nat \<Rightarrow> (nat \<Rightarrow> bool) \<Rightarrow> shm \<Rightarrow> dirty_lists \<Rightarrow> nat \<Rightarrow> shm \<times> dirty_lists \<times> bool" where
  "gather_dirty_bits maxfs alloc m l bmap_idx =
     (let dl = get_dirty_lock_bmap maxfs bmap_idx;
          s0 = \<lparr>g_shm = m, g_count = 0, g_pos = 0, g_lists = reset_tails l, g_fail = False\<rparr>;
          s = fold (gather_word alloc dl bmap_idx) [0..<BYTES_PER_STATE div 8] s0;
          s = (if g_fail s then s else flush_run alloc bmap_idx s)
      in (g_shm s, g_lists s, g_fail s))"

text \<open>\<^verbatim>\<open>clear_first_set_bit\<close> on one byte, which is not zero.\<close>

definition first_set_bit :: "8 word \<Rightarrow> nat" where
  "first_set_bit w = length (takeWhile (\<lambda>b. \<not> bit w b) [0..<8])"

definition clear_first_set_bit :: "shm \<Rightarrow> nat \<Rightarrow> shm \<times> nat" where
  "clear_first_set_bit m p =
     (let pos = first_set_bit (m p) in (m(p := m p AND NOT (push_bit pos 1)), pos))"

section \<open>Lemmas: the collector stays inside its block\<close>

definition same_outside :: "nat \<Rightarrow> shm \<Rightarrow> shm \<Rightarrow> bool" where
  "same_outside dl m m' \<longleftrightarrow> (\<forall>a. a < dl \<or> dl + PAGE_SIZE \<le> a \<longrightarrow> m' a = m a)"

lemma same_outside_refl [simp]: "same_outside dl m m"
  by (simp add: same_outside_def)

lemma same_outside_trans: "same_outside dl m m' \<Longrightarrow> same_outside dl m' m'' \<Longrightarrow> same_outside dl m m''"
  by (simp add: same_outside_def)

lemma fold_same_outside:
  assumes "\<And>x s. x \<in> set xs \<Longrightarrow> same_outside dl (g_shm s) (g_shm (f x s))"
  shows "same_outside dl (g_shm s) (g_shm (fold f xs s))"
  using assms
proof (induction xs arbitrary: s)
  case (Cons x xs)
  have "same_outside dl (g_shm s) (g_shm (f x s))" using Cons.prems by simp
  moreover have "same_outside dl (g_shm (f x s)) (g_shm (fold f xs (f x s)))" using Cons by simp
  ultimately show ?case using same_outside_trans by (metis fold_Cons comp_apply)
qed simp

lemma g_shm_flush_run [simp]: "g_shm (flush_run alloc i s) = g_shm s"
  by (simp add: flush_run_def)

lemma gather_bit_outside:
  "j < BYTES_PER_STATE \<Longrightarrow> same_outside dl (g_shm s) (g_shm (gather_bit alloc dl i j w b s))"
  by (simp add: gather_bit_def Let_def same_outside_def shm_consts)

lemma gather_byte_outside:
  "j < BYTES_PER_STATE \<Longrightarrow> same_outside dl (g_shm s) (g_shm (gather_byte alloc dl i w j s))"
  using fold_same_outside [of "[0..<8]" dl "gather_bit alloc dl i j (w (dl + j))" s] gather_bit_outside
  by (simp add: gather_byte_def)

lemma gather_word_outside:
  "j < BYTES_PER_STATE div 8 \<Longrightarrow> same_outside dl (g_shm s) (g_shm (gather_word alloc dl i j s))"
  unfolding gather_word_def Let_def
  by (cases "g_fail s"; cases "\<forall>k\<in>set [0..<8]. g_shm s (dl + j * 8 + k) = 0")
    (auto simp: shm_consts intro!: fold_same_outside gather_byte_outside)

lemma gather_dirty_bits_outside:
  assumes "gather_dirty_bits maxfs alloc m l i = (m', l', e)"
  shows "same_outside (get_dirty_lock_bmap maxfs i) m m'"
proof -
  let ?dl = "get_dirty_lock_bmap maxfs i"
  let ?s0 = "\<lparr>g_shm = m, g_count = 0, g_pos = 0, g_lists = reset_tails l, g_fail = False\<rparr>"
  have "m' = g_shm (fold (gather_word alloc ?dl i) [0..<BYTES_PER_STATE div 8] ?s0)"
    using assms by (auto simp: gather_dirty_bits_def Let_def split: if_splits)
  then show ?thesis
    using fold_same_outside [of "[0..<BYTES_PER_STATE div 8]" ?dl "gather_word alloc ?dl i" ?s0]
      gather_word_outside by simp
qed

section \<open>Lemmas: a byte with a bit cleared\<close>

lemma byte_ext: "(\<forall>b<8. bit (v :: 8 word) b = bit w b) \<Longrightarrow> v = w"
  by (rule bit_word_eqI) simp

lemma takeWhile_upt_stops:
  assumes "k < n" "\<not> P k"
  shows "length (takeWhile P [0..<n]) < n \<and> \<not> P (length (takeWhile P [0..<n]))"
proof -
  have "takeWhile P [0..<n] \<noteq> [0..<n]" using assms by (auto simp: takeWhile_eq_all_conv)
  then have "length (takeWhile P [0..<n]) < length [0..<n]"
    by (metis length_takeWhile_le le_neq_implies_less takeWhile_eq_take take_all_iff order_refl)
  then show ?thesis using nth_length_takeWhile [of P "[0..<n]"] by simp
qed

lemma first_set_bit: "w \<noteq> 0 \<Longrightarrow> first_set_bit w < 8 \<and> bit w (first_set_bit w)"
proof -
  assume "w \<noteq> 0"
  then obtain b where b: "b < 8" "bit w b" using byte_ext [of w 0] by auto
  then show ?thesis using takeWhile_upt_stops [of b 8 "\<lambda>b. \<not> bit w b"] unfolding first_set_bit_def by blast
qed

lemma bit_clear_bit: "bit (w AND NOT (push_bit k 1) :: 8 word) b \<longleftrightarrow> bit w b \<and> b \<noteq> k"
  by (auto simp: bit_simps dest: bit_imp_le_length)

lemma bit_set_bit: "bit (w OR push_bit k 1 :: 8 word) b \<longleftrightarrow> bit w b \<or> (b = k \<and> k < 8)"
  by (auto simp: bit_simps)

lemma clear_bit_less: "bit (w :: 8 word) k \<Longrightarrow> unat (w AND NOT (push_bit k 1)) < unat w"
proof -
  assume b: "bit w k"
  let ?v = "w AND NOT (push_bit k 1)"
  have "?v \<le> w" by (rule word_and_le2)
  moreover have "?v \<noteq> w" using b bit_clear_bit [of w k k] by auto
  ultimately show ?thesis using word_less_nat_alt by (metis order_le_neq_trans)
qed

lemma get_le_byte_less:
  "k < n \<Longrightarrow> unat v < unat (m (off + k)) \<Longrightarrow> get_le n off (m(off + k := v)) < get_le n off m"
proof (induction n arbitrary: off k)
  case (Suc n)
  show ?case
  proof (cases k)
    case 0
    have "get_le n (Suc off) (m(off := v)) = get_le n (Suc off) m" by (rule get_le_cong) auto
    then show ?thesis using 0 Suc.prems by (simp del: fun_upd_apply) simp
  next
    case (Suc k')
    then show ?thesis using Suc.IH [of k' "Suc off"] Suc.prems by simp
  qed
qed simp

section \<open>All dirty groups\<close>

text \<open>One 64-bit word of the group bitmap: its set bits, lowest first, are cleared one at a time
  and the page-entry block of each is collected.  The result of a collection is not looked at.
  The words of the bitmap are 512.\<close>

definition first_set_byte :: "shm \<Rightarrow> nat \<Rightarrow> nat" where
  "first_set_byte m p = length (takeWhile (\<lambda>k. m (p + k) = 0) [0..<8])"

lemma get_le_all_zero: "(\<forall>k<n. m (p + k) = 0) \<Longrightarrow> get_le n p m = 0"
proof (induction n arbitrary: p)
  case (Suc n)
  have "m p = 0" using Suc.prems [rule_format, of 0] by simp
  moreover have "m (Suc p + k) = 0" if "k < n" for k using Suc.prems [rule_format, of "Suc k"] that by simp
  ultimately show ?case using Suc.IH by simp
qed simp

lemma first_set_byte:
  assumes "get_le 8 p m \<noteq> 0"
  shows "first_set_byte m p < 8 \<and> m (p + first_set_byte m p) \<noteq> 0"
proof -
  obtain k where "k < 8" "m (p + k) \<noteq> 0" using get_le_all_zero [of 8 m p] assms by auto
  then show ?thesis
    using takeWhile_upt_stops [of k 8 "\<lambda>k. m (p + k) = 0"] unfolding first_set_byte_def by blast
qed

lemma gather_group_word_decreases:
  assumes i: "i < PAGE_SIZE div 8" and nz: "get_le 8 (get_dirty_group_bmap maxfs + i * 8) m \<noteq> 0"
    and c: "clear_first_set_bit m (get_dirty_group_bmap maxfs +
        (i * 8 + first_set_byte m (get_dirty_group_bmap maxfs + i * 8))) = (m1, b)"
    and g: "gather_dirty_bits maxfs alloc m1 l idx = (m2, l2, e)"
  shows "get_le 8 (get_dirty_group_bmap maxfs + i * 8) m2 < get_le 8 (get_dirty_group_bmap maxfs + i * 8) m"
proof -
  let ?p = "get_dirty_group_bmap maxfs + i * 8"
  let ?k = "first_set_byte m ?p"
  have k: "?k < 8" "m (?p + ?k) \<noteq> 0" using first_set_byte [OF nz] by simp_all
  have m1: "m1 = m(?p + ?k := m (?p + ?k) AND NOT (push_bit (first_set_bit (m (?p + ?k))) 1))"
    using c by (auto simp: clear_first_set_bit_def Let_def add.assoc)
  have "get_le 8 ?p m1 < get_le 8 ?p m"
    unfolding m1 using k first_set_bit [OF k(2)] by (intro get_le_byte_less clear_bit_less) simp_all
  moreover have "get_le 8 ?p m2 = get_le 8 ?p m1"
    using gather_dirty_bits_outside [OF g] i
    by (intro get_le_cong) (auto simp: same_outside_def get_dirty_lock_bmap_def get_dirty_group_bmap_def
        PDB_DIRTY_GROUP_NR_def shm_consts)
  ultimately show ?thesis by simp
qed

function gather_group_word ::
  "nat \<Rightarrow> (nat \<Rightarrow> bool) \<Rightarrow> nat \<Rightarrow> shm \<Rightarrow> dirty_lists \<Rightarrow> shm \<times> dirty_lists" where
  "gather_group_word maxfs alloc i m l =
     (if i < PAGE_SIZE div 8 \<and> get_le 8 (get_dirty_group_bmap maxfs + i * 8) m \<noteq> 0
      then let byte_pos = first_set_byte m (get_dirty_group_bmap maxfs + i * 8);
               (m1, bit_pos) = clear_first_set_bit m (get_dirty_group_bmap maxfs + (i * 8 + byte_pos));
               (m2, l2, err) = gather_dirty_bits maxfs alloc m1 l (bit_pos + (i * 8 + byte_pos) * BITS_IN_BYTE)
           in gather_group_word maxfs alloc i m2 l2
      else (m, l))"
  by pat_completeness auto
termination
proof (relation "measure (\<lambda>(maxfs, alloc, i, m, l). get_le 8 (get_dirty_group_bmap maxfs + i * 8) m)")
  fix maxfs alloc i l and m :: shm and x xa xb y xc xd ya yb z
  assume i: "i < PAGE_SIZE div 8 \<and> get_le 8 (get_dirty_group_bmap maxfs + i * 8) m \<noteq> 0"
    and x: "x = first_set_byte m (get_dirty_group_bmap maxfs + i * 8)"
    and c: "xa = clear_first_set_bit m (get_dirty_group_bmap maxfs + (i * 8 + x))" "(xb, y) = xa"
    and g: "xc = gather_dirty_bits maxfs alloc xb l (y + (i * 8 + x) * BITS_IN_BYTE)" "(xd, ya) = xc" "(yb, z) = ya"
  show "((maxfs, alloc, i, xd, yb), maxfs, alloc, i, m, l) \<in>
      measure (\<lambda>(maxfs, alloc, i, m, l). get_le 8 (get_dirty_group_bmap maxfs + i * 8) m)"
    using gather_group_word_decreases [OF conjunct1 [OF i] conjunct2 [OF i]
      trans [OF c(1) [symmetric, unfolded x] c(2) [symmetric]]
      trans [OF g(1) [symmetric] g(2) [symmetric, unfolded g(3) [symmetric]]]]
    by simp
qed simp

declare gather_group_word.simps [simp del]

fun reset_waiting_nr :: "dirty_lists \<Rightarrow> dirty_lists" where
  "reset_waiting_nr (Staging l) = Staging l"
| "reset_waiting_nr (Journal d) = Journal (d\<lparr>jd_waiting_nr := 0\<rparr>)"

definition inode_gather_dirty_pagebits ::
  "nat \<Rightarrow> (nat \<Rightarrow> bool) \<Rightarrow> shm \<Rightarrow> dirty_lists \<Rightarrow> shm \<times> dirty_lists" where
  "inode_gather_dirty_pagebits maxfs alloc m l =
     fold (\<lambda>i (m, l). gather_group_word maxfs alloc i m l) [0..<PAGE_SIZE div 8] (m, reset_waiting_nr l)"

section \<open>Specification\<close>

text \<open>The ranges of a list and their pages; a list is filled from its head.\<close>

definition ird_ranges :: "inode_range_dirty list \<Rightarrow> (nat \<times> nat) list" where
  "ird_ranges irds = concat (map dirty_pages irds)"

definition range_pages :: "(nat \<times> nat) list \<Rightarrow> nat list" where
  "range_pages rs = concat (map (\<lambda>(s, n). [s..<s + n]) rs)"

definition ird_chain :: "inode_range_dirty list \<Rightarrow> bool" where
  "ird_chain irds \<longleftrightarrow> irds \<noteq> [] \<and> (\<forall>x\<in>set (butlast irds). length (dirty_pages x) = RANGE_DIRTY_ENT_MAX) \<and>
     length (dirty_pages (last irds)) \<le> RANGE_DIRTY_ENT_MAX"

definition il_ok :: "ird_list \<Rightarrow> bool" where
  "il_ok l \<longleftrightarrow> ird_chain (il_nodes l) \<and> ird_from l < length (il_nodes l)"

fun dl_ok :: "dirty_lists \<Rightarrow> bool" where
  "dl_ok (Staging l) = il_ok l"
| "dl_ok (Journal d) = (il_ok (jd_dirty d) \<and> il_ok (jd_waiting d))"

fun lists_of :: "dirty_lists \<Rightarrow> (nat \<times> nat) list list" where
  "lists_of (Staging l) = [ird_ranges (il_nodes l)]"
| "lists_of (Journal d) = [ird_ranges (il_nodes (jd_dirty d)), ird_ranges (il_nodes (jd_waiting d))]"

section \<open>Lemmas: lists of ranges\<close>

lemma get_next_ird_last:
  assumes "ird_chain irds" "i < length irds" "alloc = (\<lambda>_. True)"
  shows "get_next_ird alloc irds i =
    (if length (dirty_pages (last irds)) = RANGE_DIRTY_ENT_MAX then Some (irds @ [empty_ird], length irds)
     else Some (irds, length irds - 1))"
  using assms
proof (induction alloc irds i rule: get_next_ird.induct)
  case (1 alloc irds i)
  have full: "length (dirty_pages (irds ! i)) = RANGE_DIRTY_ENT_MAX" if "i + 1 < length irds"
    using that 1(2) nth_butlast [of i irds] nth_mem [of i "butlast irds"] by (auto simp: ird_chain_def)
  have ne: "irds \<noteq> []" using 1(2) by (simp add: ird_chain_def)
  show ?case
  proof (cases "i + 1 < length irds")
    case True
    then show ?thesis using 1 full by (subst get_next_ird.simps) simp
  next
    case False
    then have "i = length irds - 1" using 1(3) by simp
    then show ?thesis using ne 1(4) by (subst get_next_ird.simps) (simp add: last_conv_nth)
  qed
qed

lemma ird_append_last:
  assumes "irds \<noteq> []"
  shows "ird_append irds (length irds - 1) s n =
    butlast irds @ [\<lparr>dirty_pages = dirty_pages (last irds) @ [(s, n)], dirty_blk_nr = add32 (dirty_blk_nr (last irds)) n\<rparr>]"
  using assms by (cases irds rule: rev_cases) (simp_all add: ird_append_def)

lemma ird_chain_append:
  assumes "ird_chain irds" "length (dirty_pages (last irds)) \<noteq> RANGE_DIRTY_ENT_MAX"
  shows "ird_chain (ird_append irds (length irds - 1) s n)"
    "ird_ranges (ird_append irds (length irds - 1) s n) = ird_ranges irds @ [(s, n)]"
    "length (ird_append irds (length irds - 1) s n) = length irds"
proof -
  have ne: "irds \<noteq> []" using assms(1) by (simp add: ird_chain_def)
  then show "ird_chain (ird_append irds (length irds - 1) s n)"
    using assms unfolding ird_append_last [OF ne] by (simp add: ird_chain_def)
  show "ird_ranges (ird_append irds (length irds - 1) s n) = ird_ranges irds @ [(s, n)]"
    using ne unfolding ird_append_last [OF ne] by (cases irds rule: rev_cases) (simp_all add: ird_ranges_def)
  show "length (ird_append irds (length irds - 1) s n) = length irds" by (simp add: ird_append_def)
qed

lemma ent_max_pos: "0 < RANGE_DIRTY_ENT_MAX"
  by (simp add: RANGE_DIRTY_ENT_MAX_def)

lemma ird_chain_extend:
  assumes "ird_chain irds" "length (dirty_pages (last irds)) = RANGE_DIRTY_ENT_MAX"
  shows "ird_chain (irds @ [empty_ird])" "ird_ranges (irds @ [empty_ird]) = ird_ranges irds"
    "length (dirty_pages (last (irds @ [empty_ird]))) \<noteq> RANGE_DIRTY_ENT_MAX"
proof -
  obtain xs x where i: "irds = xs @ [x]" using assms(1) by (cases irds rule: rev_cases) (simp_all add: ird_chain_def)
  show "ird_chain (irds @ [empty_ird])" "ird_ranges (irds @ [empty_ird]) = ird_ranges irds"
    "length (dirty_pages (last (irds @ [empty_ird]))) \<noteq> RANGE_DIRTY_ENT_MAX"
    using assms ent_max_pos by (simp_all add: i ird_chain_def ird_ranges_def empty_ird_def butlast_append)
qed

lemma get_next_ird_append:
  assumes "il_ok l" "alloc = (\<lambda>_. True)" "get_next_ird alloc (il_nodes l) (ird_from l) = Some (irds, i)"
  shows "ird_chain (ird_append irds i s n)" "ird_ranges (ird_append irds i s n) = ird_ranges (il_nodes l) @ [(s, n)]"
    "i < length irds"
proof -
  have c: "ird_chain (il_nodes l)" "ird_from l < length (il_nodes l)" using assms(1) by (simp_all add: il_ok_def)
  have "ird_chain (ird_append irds i s n) \<and> ird_ranges (ird_append irds i s n) = ird_ranges (il_nodes l) @ [(s, n)] \<and>
      i < length irds"
  proof (cases "length (dirty_pages (last (il_nodes l))) = RANGE_DIRTY_ENT_MAX")
    case True
    then have "irds = il_nodes l @ [empty_ird]" "i = length irds - 1"
      using assms(3) get_next_ird_last [OF c assms(2)] by auto
    then show ?thesis
      using ird_chain_extend [OF c(1) True] ird_chain_append [of irds s n] by simp
  next
    case False
    then have "irds = il_nodes l" "i = length irds - 1"
      using assms(3) get_next_ird_last [OF c assms(2)] by auto
    then show ?thesis
      using ird_chain_append [OF c(1) False, of s n] c by simp
  qed
  then show "ird_chain (ird_append irds i s n)" "ird_ranges (ird_append irds i s n) = ird_ranges (il_nodes l) @ [(s, n)]"
    "i < length irds" by simp_all
qed

lemma get_next_ird_Some:
  assumes "il_ok l" "alloc = (\<lambda>_. True)"
  obtains irds i where "get_next_ird alloc (il_nodes l) (ird_from l) = Some (irds, i)"
  using get_next_ird_last [of "il_nodes l" "ird_from l" alloc] assms by (fastforce simp: il_ok_def split: if_splits)

lemma il_ok_appended:
  "ird_chain (ird_append irds i s n) \<Longrightarrow> i < length irds \<Longrightarrow>
   il_ok \<lparr>il_nodes = ird_append irds i s n, il_tail = Some i\<rparr>"
  by (simp add: il_ok_def ird_from_def) (simp add: ird_append_def)

lemma add_range_dirty_appends:
  assumes ok: "dl_ok l" and a: "alloc = (\<lambda>_. True)" and n: "n \<noteq> 0"
  shows "dl_ok (add_range_dirty alloc l s n)"
    "lists_of (add_range_dirty alloc l s n) = map (\<lambda>rs. rs @ [(s, n)]) (lists_of l)"
proof -
  have "dl_ok (add_range_dirty alloc l s n) \<and>
    lists_of (add_range_dirty alloc l s n) = map (\<lambda>rs. rs @ [(s, n)]) (lists_of l)"
  proof (cases l)
    case (Staging il)
    then have il: "il_ok il" using ok by simp
    obtain irds i where g: "get_next_ird alloc (il_nodes il) (ird_from il) = Some (irds, i)"
      using get_next_ird_Some [OF il a] .
    show ?thesis
      using Staging n g get_next_ird_append(1,2) [OF il a g, of s n] get_next_ird_append(3) [OF il a g]
      by (simp add: add_range_dirty_staging_def il_ok_appended)
  next
    case (Journal d)
    then have il: "il_ok (jd_dirty d)" "il_ok (jd_waiting d)" using ok by simp_all
    obtain irds i where g: "get_next_ird alloc (il_nodes (jd_dirty d)) (ird_from (jd_dirty d)) = Some (irds, i)"
      using get_next_ird_Some [OF il(1) a] .
    obtain irds' i' where g': "get_next_ird alloc (il_nodes (jd_waiting d)) (ird_from (jd_waiting d)) = Some (irds', i')"
      using get_next_ird_Some [OF il(2) a] .
    show ?thesis
      using Journal n g g' get_next_ird_append(1,2) [OF il(1) a g, of s n] get_next_ird_append(3) [OF il(1) a g] get_next_ird_append(1,2) [OF il(2) a g', of s n] get_next_ird_append(3) [OF il(2) a g']
      by (simp add: add_range_dirty_journal_def il_ok_appended)
  qed
  then show "dl_ok (add_range_dirty alloc l s n)"
    "lists_of (add_range_dirty alloc l s n) = map (\<lambda>rs. rs @ [(s, n)]) (lists_of l)" by simp_all
qed

lemma reset_tails_ok: "dl_ok l \<Longrightarrow> dl_ok (reset_tails l) \<and> lists_of (reset_tails l) = lists_of l"
  by (cases l) (auto simp: il_ok_def ird_from_def ird_chain_def)

lemma ird_chain_empty: "ird_chain [empty_ird]" "ird_ranges [empty_ird] = []"
  by (simp_all add: ird_chain_def ird_ranges_def empty_ird_def)

text \<open>The memory after the first \<open>k\<close> pages of a block are collected: their dirty bits are
  clear and the bits of the dirty ones are added to the lock bits.\<close>

definition page_dirty :: "shm \<Rightarrow> nat \<Rightarrow> nat \<Rightarrow> bool" where
  "page_dirty m dl q = bit (m (dl + q div 8)) (q mod 8)"

definition page_locked :: "shm \<Rightarrow> nat \<Rightarrow> nat \<Rightarrow> bool" where
  "page_locked m dl q = bit (m (dl + BYTES_PER_STATE + q div 8)) (q mod 8)"

definition collected :: "shm \<Rightarrow> nat \<Rightarrow> nat \<Rightarrow> shm" where
  "collected m dl k a =
     (if dl \<le> a \<and> a < dl + BYTES_PER_STATE then m a AND NOT (mask (k - 8 * (a - dl)))
      else if dl + BYTES_PER_STATE \<le> a \<and> a < dl + 2 * BYTES_PER_STATE
      then m a OR (m (a - BYTES_PER_STATE) AND mask (k - 8 * (a - BYTES_PER_STATE - dl)))
      else m a)"

definition ranges_apart :: "(nat \<times> nat) list \<Rightarrow> bool" where
  "ranges_apart rs \<longleftrightarrow> sorted_wrt (\<lambda>r r'. fst r + snd r < fst r') rs \<and> (\<forall>r\<in>set rs. 0 < snd r)"

definition runs_inv :: "(nat \<Rightarrow> bool) \<Rightarrow> nat \<Rightarrow> nat \<Rightarrow> (nat \<times> nat) list \<Rightarrow> nat \<Rightarrow> nat \<Rightarrow> bool" where
  "runs_inv P base k rs pos count \<longleftrightarrow> ranges_apart rs \<and>
     range_pages rs @ [base + pos..<base + pos + count] = map (\<lambda>q. base + q) (filter P [0..<k]) \<and>
     (count \<noteq> 0 \<longrightarrow> pos + count = k) \<and>
     (\<forall>r\<in>set rs. fst r + snd r < base + (if count = 0 then k else pos))"

definition gather_inv :: "shm \<Rightarrow> nat \<Rightarrow> nat \<Rightarrow> (nat \<times> nat) list list \<Rightarrow> nat \<Rightarrow> gather \<Rightarrow> bool" where
  "gather_inv m dl bmap_idx ls k s \<longleftrightarrow> \<not> g_fail s \<and> dl_ok (g_lists s) \<and> g_shm s = collected m dl k \<and>
     (\<exists>rs. lists_of (g_lists s) = map (\<lambda>xs. xs @ rs) ls \<and>
           runs_inv (page_dirty m dl) (bmap_idx * NR_PAGES_IN_PEB) k rs (g_pos s) (g_count s))"

section \<open>Lemmas: runs\<close>

lemma range_pages_append [simp]: "range_pages (rs @ rs') = range_pages rs @ range_pages rs'"
  by (simp add: range_pages_def)

lemma range_pages_Cons [simp]: "range_pages ((s, n) # rs) = [s..<s + n] @ range_pages rs"
  by (simp add: range_pages_def)

lemma range_pages_Nil [simp]: "range_pages [] = []"
  by (simp add: range_pages_def)

lemma runs_inv_set:
  assumes "runs_inv P base k rs pos count" "P k"
  shows "runs_inv P base (Suc k) rs (if count = 0 then k else pos) (Suc count)"
  using assms by (auto simp: runs_inv_def)

lemma filter_upt_none:
  "(\<forall>q. k \<le> q \<and> q < k + n \<longrightarrow> \<not> P q) \<Longrightarrow> filter P [0..<k + n] = filter P [0..<k]"
  by (simp add: upt_add_eq_append [of 0 k n])

lemma runs_inv_clear:
  assumes "runs_inv P base k rs pos count" "\<forall>q. k \<le> q \<and> q < k + n \<longrightarrow> \<not> P q" "0 < n"
  shows "runs_inv P base (k + n) (rs @ (if count = 0 then [] else [(base + pos, count)])) pos 0"
proof (cases "count = 0")
  case True
  then show ?thesis using assms(1,3) filter_upt_none [OF assms(2)] by (fastforce simp: runs_inv_def)
next
  case False
  then have "ranges_apart (rs @ [(base + pos, count)])"
    using assms(1) by (auto simp: runs_inv_def ranges_apart_def sorted_wrt_append)
  then show ?thesis
    using False assms(1,3) filter_upt_none [OF assms(2)] by (force simp: runs_inv_def)
qed

section \<open>Lemmas: memory\<close>

lemma bit_mask8: "bit (mask n :: 8 word) b \<longleftrightarrow> b < 8 \<and> b < n"
  by (auto simp: bit_mask_iff)

lemma collected_0: "collected m dl 0 = m"
  by (simp add: fun_eq_iff collected_def)

lemma collected_later: "dl \<le> a \<Longrightarrow> a < dl + BYTES_PER_STATE \<Longrightarrow> k \<le> 8 * (a - dl) \<Longrightarrow> collected m dl k a = m a"
  by (simp add: collected_def)

lemma collected_same:
  assumes "\<forall>q. k \<le> q \<and> q < k + n \<longrightarrow> \<not> page_dirty m dl q"
  shows "collected m dl (k + n) = collected m dl k"
proof
  fix a
  have *: "\<not> bit (m c) b" if "k \<le> 8 * (c - dl) + b" "8 * (c - dl) + b < k + n" "dl \<le> c" "b < 8" for b c
    using assms [rule_format, of "8 * (c - dl) + b"] that by (simp add: page_dirty_def)
  have d: "m a AND NOT (mask (k + n - 8 * (a - dl))) = m a AND NOT (mask (k - 8 * (a - dl)))" if "dl \<le> a"
    using *[of a] that by (intro byte_ext) (auto simp: bit_simps bit_mask8)
  have **: "b < k - 8 * (c - dl)" if "bit (m c) b" "b < k + n - 8 * (c - dl)" "dl \<le> c" "b < 8" for b c
    using *[of c b] that by linarith
  have l: "m c AND mask (k + n - 8 * (c - dl)) = m c AND mask (k - 8 * (c - dl))" if "dl \<le> c" for c
    using **[of c] that by (intro byte_ext) (auto simp: bit_simps bit_mask8)
  show "collected m dl (k + n) a = collected m dl k a"
    using d l [of "a - BYTES_PER_STATE"] le_diff_conv2 [of BYTES_PER_STATE a dl] by (auto simp: collected_def)
qed

lemma less_offset8:
  "b < 8 \<Longrightarrow> r < 8 \<Longrightarrow> b < Suc (8 * q + r) - 8 * c \<longleftrightarrow> b < 8 * q + r - 8 * c \<or> (c = q \<and> b = (r :: nat))"
  by (cases "c = q"; cases "c < q") auto

lemma collected_step:
  assumes "page_dirty m dl k" "k < NR_PAGES_IN_PEB"
  shows "(collected m dl k)
      (dl + k div 8 := collected m dl k (dl + k div 8) AND NOT (push_bit (k mod 8) 1),
       dl + BYTES_PER_STATE + k div 8 := collected m dl k (dl + BYTES_PER_STATE + k div 8) OR push_bit (k mod 8) 1) =
    collected m dl (Suc k)"
proof
  fix a
  have k: "k = 8 * (k div 8) + k mod 8" "k div 8 < BYTES_PER_STATE" "k mod 8 < 8"
    using assms(2) by (simp_all add: shm_consts)
  have lt: "b < Suc k - 8 * c \<longleftrightarrow> b < k - 8 * c \<or> (c = k div 8 \<and> b = k mod 8)" if "b < 8" for b c
    using that less_offset8 [of b "k mod 8" "k div 8" c] by simp
  consider "a = dl + k div 8" | "a = dl + BYTES_PER_STATE + k div 8"
    | "a \<noteq> dl + k div 8" "a \<noteq> dl + BYTES_PER_STATE + k div 8" by blast
  then show "((collected m dl k)
      (dl + k div 8 := collected m dl k (dl + k div 8) AND NOT (push_bit (k mod 8) 1),
       dl + BYTES_PER_STATE + k div 8 := collected m dl k (dl + BYTES_PER_STATE + k div 8) OR push_bit (k mod 8) 1)) a =
    collected m dl (Suc k) a"
  proof cases
    case 1
    have "(m a AND NOT (mask (k - 8 * (k div 8)))) AND NOT (push_bit (k mod 8) 1) = m a AND NOT (mask (Suc k - 8 * (k div 8)))"
      by (intro byte_ext) (auto simp: bit_simps bit_mask8 lt)
    then show ?thesis using 1 k(2) by (simp add: collected_def)
  next
    case 2
    have "(m a OR (m (dl + k div 8) AND mask (k - 8 * (k div 8)))) OR push_bit (k mod 8) 1 =
        m a OR (m (dl + k div 8) AND mask (Suc k - 8 * (k div 8)))"
      using assms(1) k(3) by (intro byte_ext) (auto simp: bit_simps bit_mask8 lt page_dirty_def)
    then show ?thesis using 2 k(2) by (simp add: collected_def)
  next
    case 3
    have d: "m a AND NOT (mask (k - 8 * (a - dl))) = m a AND NOT (mask (Suc k - 8 * (a - dl)))" if "dl \<le> a"
      using 3 that by (intro byte_ext) (auto simp: bit_simps bit_mask8 lt)
    let ?c = "a - BYTES_PER_STATE"
    have l: "m ?c AND mask (k - 8 * (?c - dl)) = m ?c AND mask (Suc k - 8 * (?c - dl))" if "dl + BYTES_PER_STATE \<le> a"
      using 3 that by (intro byte_ext) (auto simp: bit_simps bit_mask8 lt)
    show ?thesis using 3 d l by (simp add: collected_def)
  qed
qed

lemma collected_lock:
  assumes "k < NR_PAGES_IN_PEB"
  shows "bit (collected m dl k (dl + BYTES_PER_STATE + k div 8)) (k mod 8) = page_locked m dl k"
proof -
  have "k div 8 < BYTES_PER_STATE" "\<not> k mod 8 < k - 8 * (k div 8)"
    using assms by (simp_all add: shm_consts minus_mult_div_eq_mod)
  then show ?thesis by (simp add: collected_def page_locked_def bit_simps bit_mask8)
qed

section \<open>Lemmas: the collection of one block\<close>

lemma flush_run_inv:
  assumes inv: "gather_inv m dl idx ls k s" and a: "alloc = (\<lambda>_. True)"
    and clear: "\<forall>q. k \<le> q \<and> q < k + n \<longrightarrow> \<not> page_dirty m dl q" and n: "0 < n"
  shows "gather_inv m dl idx ls (k + n) (flush_run alloc idx s)"
proof -
  obtain rs where rs: "lists_of (g_lists s) = map (\<lambda>xs. xs @ rs) ls"
    "runs_inv (page_dirty m dl) (idx * NR_PAGES_IN_PEB) k rs (g_pos s) (g_count s)"
    and ok: "\<not> g_fail s" "dl_ok (g_lists s)" "g_shm s = collected m dl k"
    using inv by (auto simp: gather_inv_def)
  note r = runs_inv_clear [OF rs(2) clear n]
  have c: "collected m dl (k + n) = collected m dl k" using clear by (rule collected_same)
  show ?thesis
  proof (cases "g_count s = 0")
    case True
    then show ?thesis using r rs ok c by (auto simp: gather_inv_def flush_run_def)
  next
    case False
    then have "lists_of (add_range_dirty alloc (g_lists s) (g_pos s + idx * NR_PAGES_IN_PEB) (g_count s)) =
        map (\<lambda>xs. xs @ rs @ [(idx * NR_PAGES_IN_PEB + g_pos s, g_count s)]) ls"
      using add_range_dirty_appends(2) [OF ok(2) a False] rs(1) by (simp add: add.commute)
    then show ?thesis
      using False r ok c add_range_dirty_appends(1) [OF ok(2) a False] by (auto simp: gather_inv_def flush_run_def)
  qed
qed

lemma gather_bit_inv:
  assumes inv: "gather_inv m dl idx ls (8 * j + b) s" and a: "alloc = (\<lambda>_. True)"
    and b: "b < 8" "j < BYTES_PER_STATE" and w: "w = m (dl + j)"
    and lk: "page_dirty m dl (8 * j + b) \<Longrightarrow> \<not> page_locked m dl (8 * j + b)"
  shows "gather_inv m dl idx ls (Suc (8 * j + b)) (gather_bit alloc dl idx j w b s)"
proof -
  let ?k = "8 * j + b"
  have k: "?k div 8 = j" "?k mod 8 = b" "?k < NR_PAGES_IN_PEB" using b by (simp_all add: shm_consts)
  have d: "bit w b = page_dirty m dl ?k" unfolding w page_dirty_def k ..
  obtain rs where rs: "lists_of (g_lists s) = map (\<lambda>xs. xs @ rs) ls"
    "runs_inv (page_dirty m dl) (idx * NR_PAGES_IN_PEB) ?k rs (g_pos s) (g_count s)"
    and ok: "\<not> g_fail s" "dl_ok (g_lists s)" "g_shm s = collected m dl ?k"
    using inv by (auto simp: gather_inv_def)
  show ?thesis
  proof (cases "bit w b")
    case True
    then have "\<not> bit (g_shm s (dl + j + BYTES_PER_STATE)) b"
      using lk d collected_lock [OF k(3), of m dl] k ok(3) by (simp add: add.commute add.left_commute)
    moreover have "(g_shm s)(dl + j := g_shm s (dl + j) AND NOT (push_bit b 1),
        dl + j + BYTES_PER_STATE := g_shm s (dl + j + BYTES_PER_STATE) OR push_bit b 1) = collected m dl (Suc ?k)"
      using collected_step [of m dl ?k] True d k ok(3) by (simp add: add.assoc add.commute [of BYTES_PER_STATE])
    moreover have "runs_inv (page_dirty m dl) (idx * NR_PAGES_IN_PEB) (Suc ?k) rs
        (if g_count s = 0 then ?k else g_pos s) (Suc (g_count s))"
      using runs_inv_set [OF rs(2)] True d by simp
    moreover have "dl + j + BYTES_PER_STATE \<noteq> dl + j" by (simp add: shm_consts)
    ultimately show ?thesis
      using True ok rs(1) by (auto simp: gather_inv_def gather_bit_def Let_def BITS_IN_BYTE_def algebra_simps)
  next
    case False
    then have "\<forall>q. ?k \<le> q \<and> q < ?k + 1 \<longrightarrow> \<not> page_dirty m dl q" using d by (auto simp: le_less_Suc_eq)
    then show ?thesis
      using flush_run_inv [OF inv a _ zero_less_one] False ok(1) by (simp add: gather_bit_def)
  qed
qed

lemma fold_inv_upt:
  assumes "I 0 s" "\<And>k s. k < n \<Longrightarrow> I k s \<Longrightarrow> I (Suc k) (f k s)"
  shows "I n (fold f [0..<n] s)"
  using assms by (induction n) auto

lemma gather_byte_inv:
  assumes inv: "gather_inv m dl idx ls (8 * j) s" and a: "alloc = (\<lambda>_. True)"
    and j: "j < BYTES_PER_STATE" and w: "w (dl + j) = m (dl + j)"
    and lk: "\<forall>q<8 * Suc j. \<not> (page_dirty m dl q \<and> page_locked m dl q)"
  shows "gather_inv m dl idx ls (8 * Suc j) (gather_byte alloc dl idx w j s)"
proof (cases "m (dl + j) = 0")
  case True
  have "\<not> page_dirty m dl q" if "8 * j \<le> q" "q < 8 * j + 8" for q
  proof -
    have "q div 8 = j" using that by simp
    then show ?thesis using True by (simp add: page_dirty_def)
  qed
  then have "gather_inv m dl idx ls (8 * j + 8) (flush_run alloc idx s)"
    by (intro flush_run_inv [OF inv a]) auto
  then have "gather_inv m dl idx ls (8 * Suc j) (flush_run alloc idx s)" by (simp add: add.commute)
  moreover have "\<not> g_fail s" using inv by (simp add: gather_inv_def)
  ultimately show ?thesis using True w by (simp add: gather_byte_def)
next
  case False
  have "gather_inv m dl idx ls (8 * j + 8) (fold (gather_bit alloc dl idx j (m (dl + j))) [0..<8] s)"
  proof (rule fold_inv_upt [where I = "\<lambda>b. gather_inv m dl idx ls (8 * j + b)"])
    show "gather_inv m dl idx ls (8 * j + 0) s" using inv by simp
    fix b s assume b: "b < 8" and s: "gather_inv m dl idx ls (8 * j + b) s"
    have "8 * j + b < 8 * Suc j" using b by simp
    then show "gather_inv m dl idx ls (8 * j + Suc b) (gather_bit alloc dl idx j (m (dl + j)) b s)"
      using gather_bit_inv [OF s a b j refl] lk by auto
  qed
  then have "gather_inv m dl idx ls (8 * Suc j) (fold (gather_bit alloc dl idx j (m (dl + j))) [0..<8] s)"
    by (simp add: add.commute)
  moreover have "\<not> g_fail s" using inv by (simp add: gather_inv_def)
  ultimately show ?thesis using False w by (simp add: gather_byte_def)
qed

lemma gather_word_inv:
  assumes inv: "gather_inv m dl idx ls (64 * i) s" and a: "alloc = (\<lambda>_. True)"
    and i: "i < BYTES_PER_STATE div 8"
    and lk: "\<forall>q<64 * Suc i. \<not> (page_dirty m dl q \<and> page_locked m dl q)"
  shows "gather_inv m dl idx ls (64 * Suc i) (gather_word alloc dl idx i s)"
proof -
  have i8: "i * 8 + k < BYTES_PER_STATE" if "k < 8" for k using i that by (simp add: shm_consts)
  have s: "\<not> g_fail s" "g_shm s = collected m dl (64 * i)" using inv by (simp_all add: gather_inv_def)
  have w: "g_shm s (dl + (i * 8 + k)) = m (dl + (i * 8 + k))" if "k < 8" for k
    using i8 [OF that] s(2) by (simp add: collected_later)
  show ?thesis
  proof (cases "\<forall>k\<in>set [0..<8]. g_shm s (dl + i * 8 + k) = 0")
    case True
    have "\<not> page_dirty m dl q" if "64 * i \<le> q" "q < 64 * i + 64" for q
    proof -
      have q: "q div 8 = i * 8 + (q div 8 - i * 8)" "q div 8 - i * 8 < 8" using that by auto
      then have "g_shm s (dl + q div 8) = 0" using True [rule_format, of "q div 8 - i * 8"] by (simp add: add.assoc)
      then have "m (dl + q div 8) = 0" using w [OF q(2)] q(1) by simp
      then show ?thesis by (simp add: page_dirty_def)
    qed
    then have "gather_inv m dl idx ls (64 * i + 64) (flush_run alloc idx s)"
      by (intro flush_run_inv [OF inv a]) auto
    then show ?thesis using True s(1) by (simp add: gather_word_def Let_def add.commute)
  next
    case False
    have "gather_inv m dl idx ls (8 * (i * 8 + 8)) (fold (\<lambda>k. gather_byte alloc dl idx (g_shm s) (i * 8 + k)) [0..<8] s)"
    proof (rule fold_inv_upt [where I = "\<lambda>k. gather_inv m dl idx ls (8 * (i * 8 + k))"])
      show "gather_inv m dl idx ls (8 * (i * 8 + 0)) s" using inv by simp
      fix k s' assume k: "k < 8" and s': "gather_inv m dl idx ls (8 * (i * 8 + k)) s'"
      show "gather_inv m dl idx ls (8 * (i * 8 + Suc k)) (gather_byte alloc dl idx (g_shm s) (i * 8 + k) s')"
        using gather_byte_inv [OF s' a i8 [OF k], of "g_shm s"] w [OF k] lk k by simp
    qed
    moreover have "8 * (i * 8 + 8) = 64 * Suc i" by simp
    ultimately show ?thesis unfolding gather_word_def Let_def if_not_P [OF s(1)] if_not_P [OF False] by (simp only:)
  qed
qed

lemma runs_inv_close:
  assumes "runs_inv P base k rs pos count"
  shows "ranges_apart (rs @ (if count = 0 then [] else [(base + pos, count)]))"
    "range_pages (rs @ (if count = 0 then [] else [(base + pos, count)])) = map (\<lambda>q. base + q) (filter P [0..<k])"
  using assms by (auto simp: runs_inv_def ranges_apart_def sorted_wrt_append)

lemma gather_inv_init:
  assumes "dl_ok l"
  shows "gather_inv m dl idx (lists_of l) 0
    \<lparr>g_shm = m, g_count = 0, g_pos = 0, g_lists = reset_tails l, g_fail = False\<rparr>"
proof -
  have "lists_of (reset_tails l) = map (\<lambda>xs. xs @ []) (lists_of l)" using reset_tails_ok [OF assms] by simp
  then show ?thesis
    using reset_tails_ok [OF assms]
    by (auto simp: gather_inv_def collected_0 runs_inv_def ranges_apart_def intro!: exI [of _ "[]"])
qed

lemma gather_dirty_bits_collects:
  assumes ok: "dl_ok l" and a: "alloc = (\<lambda>_. True)" and dl: "dl = get_dirty_lock_bmap maxfs idx"
    and lk: "\<forall>q<NR_PAGES_IN_PEB. \<not> (page_dirty m dl q \<and> page_locked m dl q)"
  obtains rs l' where "gather_dirty_bits maxfs alloc m l idx = (collected m dl NR_PAGES_IN_PEB, l', False)"
    "dl_ok l'" "lists_of l' = map (\<lambda>xs. xs @ rs) (lists_of l)" "ranges_apart rs"
    "range_pages rs = map (\<lambda>q. idx * NR_PAGES_IN_PEB + q) (filter (page_dirty m dl) [0..<NR_PAGES_IN_PEB])"
proof -
  let ?s0 = "\<lparr>g_shm = m, g_count = 0, g_pos = 0, g_lists = reset_tails l, g_fail = False\<rparr>"
  let ?n = "BYTES_PER_STATE div 8"
  define s where "s = fold (gather_word alloc dl idx) [0..<?n] ?s0"
  have "gather_inv m dl idx (lists_of l) (64 * 0) ?s0" using gather_inv_init [OF ok] by simp
  then have "gather_inv m dl idx (lists_of l) (64 * ?n) s"
    unfolding s_def
  proof (rule fold_inv_upt [where I = "\<lambda>k. gather_inv m dl idx (lists_of l) (64 * k)"])
    fix k s assume k: "k < ?n" "gather_inv m dl idx (lists_of l) (64 * k) s"
    then have "64 * Suc k \<le> NR_PAGES_IN_PEB" by (simp add: shm_consts)
    then have "\<forall>q<64 * Suc k. \<not> (page_dirty m dl q \<and> page_locked m dl q)" using lk by auto
    then show "gather_inv m dl idx (lists_of l) (64 * Suc k) (gather_word alloc dl idx k s)"
      by (rule gather_word_inv [OF k(2) a k(1)])
  qed
  then have inv: "gather_inv m dl idx (lists_of l) NR_PAGES_IN_PEB s" by (simp add: shm_consts)
  obtain rs where rs: "lists_of (g_lists s) = map (\<lambda>xs. xs @ rs) (lists_of l)"
    "runs_inv (page_dirty m dl) (idx * NR_PAGES_IN_PEB) NR_PAGES_IN_PEB rs (g_pos s) (g_count s)"
    and s: "\<not> g_fail s" "dl_ok (g_lists s)" "g_shm s = collected m dl NR_PAGES_IN_PEB"
    using inv by (auto simp: gather_inv_def)
  let ?rs = "rs @ (if g_count s = 0 then [] else [(idx * NR_PAGES_IN_PEB + g_pos s, g_count s)])"
  have "gather_dirty_bits maxfs alloc m l idx = (collected m dl NR_PAGES_IN_PEB, g_lists (flush_run alloc idx s), False)"
    using s by (simp add: gather_dirty_bits_def Let_def dl [symmetric] s_def [symmetric]) (simp add: flush_run_def)
  moreover have "dl_ok (g_lists (flush_run alloc idx s))"
    "lists_of (g_lists (flush_run alloc idx s)) = map (\<lambda>xs. xs @ ?rs) (lists_of l)"
    using s rs(1) add_range_dirty_appends [OF s(2) a, of "g_count s"]
    by (cases "g_count s = 0"; simp add: flush_run_def add.commute)+
  ultimately show ?thesis using that runs_inv_close [OF rs(2)] by blast
qed

section \<open>Lemmas: all groups\<close>

definition group_bit :: "nat \<Rightarrow> shm \<Rightarrow> nat \<Rightarrow> bool" where
  "group_bit maxfs m g = bit (m (get_dirty_group_bmap maxfs + g div 8)) (g mod 8)"

abbreviation peb :: "nat \<Rightarrow> nat \<Rightarrow> nat" where
  "peb maxfs g \<equiv> get_dirty_lock_bmap maxfs g"

definition NR_GROUPS :: nat where "NR_GROUPS = BITS_IN_PAGE"

lemma takeWhile_upt_before: "k < length (takeWhile P [0..<n]) \<Longrightarrow> P k"
  using nth_mem [of k "takeWhile P [0..<n]"] takeWhile_nth [of k P "[0..<n]"] set_takeWhileD
  by (metis add_0 length_takeWhile_le length_upt diff_zero less_le_trans nth_upt)

lemma next_group:
  assumes nz: "get_le 8 (get_dirty_group_bmap maxfs + i * 8) m \<noteq> 0"
    and k: "k = first_set_byte m (get_dirty_group_bmap maxfs + i * 8)"
    and c: "clear_first_set_bit m (get_dirty_group_bmap maxfs + (i * 8 + k)) = (m1, b)"
    and h: "h = b + (i * 8 + k) * BITS_IN_BYTE"
  shows "64 * i \<le> h" "h < 64 * Suc i" "group_bit maxfs m h" "\<And>g. 64 * i \<le> g \<Longrightarrow> g < h \<Longrightarrow> \<not> group_bit maxfs m g"
    "m1 = m(get_dirty_group_bmap maxfs + h div 8 := m (get_dirty_group_bmap maxfs + h div 8) AND NOT (push_bit (h mod 8) 1))"
proof -
  let ?p = "get_dirty_group_bmap maxfs"
  have k8: "k < 8" "m (?p + i * 8 + k) \<noteq> 0" using first_set_byte [OF nz] k by simp_all
  have b: "b = first_set_bit (m (?p + (i * 8 + k)))" and m1: "m1 = m(?p + (i * 8 + k) := m (?p + (i * 8 + k)) AND NOT (push_bit b 1))"
    using c by (auto simp: clear_first_set_bit_def Let_def)
  have b8: "b < 8" "bit (m (?p + (i * 8 + k))) b" using first_set_bit k8(2) unfolding b by (simp_all add: add.assoc)
  define x where "x = i * 8 + k"
  have "h = b + x * 8" using h by (simp add: x_def BITS_IN_BYTE_def)
  then have hd: "h div 8 = i * 8 + k" "h mod 8 = b" unfolding x_def [symmetric] using b8(1) by simp_all
  show "64 * i \<le> h" "h < 64 * Suc i" using h k8(1) b8(1) by (simp_all add: BITS_IN_BYTE_def)
  show "group_bit maxfs m h" using b8(2) by (simp add: group_bit_def hd)
  show "m1 = m(?p + h div 8 := m (?p + h div 8) AND NOT (push_bit (h mod 8) 1))" using m1 by (simp add: hd)
  fix g assume g: "64 * i \<le> g" "g < h"
  then have le: "g div 8 \<le> h div 8" "i * 8 \<le> g div 8" by (simp_all add: div_le_mono)
  have "g mod 8 < h mod 8" if "g div 8 = h div 8"
    using g(2) mult_div_mod_eq [of 8 g] mult_div_mod_eq [of 8 h] that by linarith
  then consider "g div 8 = h div 8" "g mod 8 < h mod 8" | "g div 8 - i * 8 < k" "g div 8 = i * 8 + (g div 8 - i * 8)"
    using le hd(1) by linarith
  then show "\<not> group_bit maxfs m g"
  proof cases
    case 1
    have "\<not> bit (m (?p + (i * 8 + k))) (g mod 8)"
      using takeWhile_upt_before [of "g mod 8" "\<lambda>b. \<not> bit (m (?p + (i * 8 + k))) b" 8] 1(2) hd(2) b
      by (simp only: first_set_bit_def simp_thms)
    then show ?thesis using 1(1) by (simp add: group_bit_def hd)
  next
    case 2
    have "m (?p + i * 8 + (g div 8 - i * 8)) = 0"
      using takeWhile_upt_before [of "g div 8 - i * 8" "\<lambda>k. m (?p + i * 8 + k) = 0" 8] 2(1) k
      by (simp only: first_set_byte_def)
    then show ?thesis using 2(2) by (simp add: group_bit_def add.assoc)
  qed
qed

text \<open>After the groups below \<open>g\<close>: their bits are clear, the blocks of those that were dirty are
  collected, and the ranges hold their dirty pages.\<close>

definition group_dirty :: "nat \<Rightarrow> shm \<Rightarrow> nat \<Rightarrow> nat list" where
  "group_dirty maxfs m g = map (\<lambda>q. g * NR_PAGES_IN_PEB + q) (filter (page_dirty m (peb maxfs g)) [0..<NR_PAGES_IN_PEB])"

lemma page_dirty_cong:
  assumes "\<forall>a. dl \<le> a \<and> a < dl + PAGE_SIZE \<longrightarrow> m' a = m a" "q < NR_PAGES_IN_PEB"
  shows "page_dirty m' dl q = page_dirty m dl q" "page_locked m' dl q = page_locked m dl q"
  using assms by (simp_all add: page_dirty_def page_locked_def shm_consts)

lemma collected_cong:
  assumes "\<forall>a. dl \<le> a \<and> a < dl + PAGE_SIZE \<longrightarrow> m' a = m a" "dl \<le> a" "a < dl + PAGE_SIZE"
  shows "collected m' dl k a = collected m dl k a"
proof -
  have "m' (a - BYTES_PER_STATE) = m (a - BYTES_PER_STATE)" if "dl + BYTES_PER_STATE \<le> a"
    using that assms(3) by (intro assms(1) [rule_format]) auto
  then show ?thesis using assms by (simp add: collected_def)
qed

lemma group_bmap_below_peb: "h < NR_GROUPS \<Longrightarrow> get_dirty_group_bmap maxfs + h div 8 < peb maxfs g"
  by (simp add: get_dirty_group_bmap_def get_dirty_lock_bmap_def PDB_DIRTY_GROUP_NR_def NR_GROUPS_def shm_consts)

lemma peb_disjoint: "peb maxfs g \<le> a \<Longrightarrow> a < peb maxfs g + PAGE_SIZE \<Longrightarrow> peb maxfs h \<le> a \<Longrightarrow> a < peb maxfs h + PAGE_SIZE \<Longrightarrow> g = h"
  by (simp add: get_dirty_lock_bmap_def shm_consts)

lemma group_bit_clear:
  "group_bit maxfs (m(get_dirty_group_bmap maxfs + h div 8 :=
     m (get_dirty_group_bmap maxfs + h div 8) AND NOT (push_bit (h mod 8) 1))) g = (group_bit maxfs m g \<and> g \<noteq> h)"
proof -
  have "g = h \<longleftrightarrow> g div 8 = h div 8 \<and> g mod 8 = h mod 8" by (metis div_mult_mod_eq)
  then show ?thesis
    using bit_clear_bit [of "m (get_dirty_group_bmap maxfs + h div 8)" "h mod 8" "g mod 8"]
    by (auto simp: group_bit_def simp del: push_bit_of_1)
qed

lemma range_pages_bounds:
  assumes "r \<in> set rs" "0 < snd r" "\<forall>p\<in>set (range_pages rs). lo \<le> p \<and> p < hi"
  shows "lo \<le> fst r \<and> fst r + snd r \<le> hi"
proof -
  have "set [fst r..<fst r + snd r] \<subseteq> set (range_pages rs)" using assms(1) by (force simp: range_pages_def)
  then have "fst r \<in> set (range_pages rs)" "fst r + snd r - 1 \<in> set (range_pages rs)"
    using assms(2) by (auto simp: subset_iff)
  then show ?thesis using assms(2,3) by fastforce
qed

lemma group_dirty_bounds: "p \<in> set (group_dirty maxfs m h) \<Longrightarrow> h * NR_PAGES_IN_PEB \<le> p \<and> p < Suc h * NR_PAGES_IN_PEB"
  by (auto simp: group_dirty_def)

text \<open>One group: what the collection of its block does to the memory and to the ranges.\<close>

lemma groups_inv_step_mem:
  assumes gb: "\<forall>g<NR_GROUPS. group_bit maxfs m' g = (group_bit maxfs m g \<and> h \<le> g)"
    and pb: "\<forall>g<NR_GROUPS. \<forall>a. peb maxfs g \<le> a \<and> a < peb maxfs g + PAGE_SIZE \<longrightarrow>
        m' a = (if g < h \<and> group_bit maxfs m g then collected m (peb maxfs g) NR_PAGES_IN_PEB a else m a)"
    and h: "h < NR_GROUPS" "group_bit maxfs m' h"
    and m1: "m1 = m'(get_dirty_group_bmap maxfs + h div 8 := m' (get_dirty_group_bmap maxfs + h div 8) AND NOT (push_bit (h mod 8) 1))"
  shows "\<forall>a. peb maxfs h \<le> a \<and> a < peb maxfs h + PAGE_SIZE \<longrightarrow> m1 a = m a"
    "g < NR_GROUPS \<Longrightarrow> group_bit maxfs (collected m1 (peb maxfs h) NR_PAGES_IN_PEB) g = (group_bit maxfs m g \<and> Suc h \<le> g)"
    "g < NR_GROUPS \<Longrightarrow> peb maxfs g \<le> a \<Longrightarrow> a < peb maxfs g + PAGE_SIZE \<Longrightarrow>
       collected m1 (peb maxfs h) NR_PAGES_IN_PEB a =
       (if g < Suc h \<and> group_bit maxfs m g then collected m (peb maxfs g) NR_PAGES_IN_PEB a else m a)"
proof -
  let ?dl = "peb maxfs h"
  have m1a: "m1 a = m' a" if "peb maxfs g \<le> a" for a g
    using that group_bmap_below_peb [OF h(1), of maxfs g] by (simp add: m1)
  show m1h: "\<forall>a. ?dl \<le> a \<and> a < ?dl + PAGE_SIZE \<longrightarrow> m1 a = m a" using pb h(1) m1a by auto
  have out: "collected m1 ?dl NR_PAGES_IN_PEB a = m1 a" if "a < ?dl \<or> ?dl + PAGE_SIZE \<le> a" for a
    using that by (auto simp: collected_def shm_consts)
  show "group_bit maxfs (collected m1 ?dl NR_PAGES_IN_PEB) g = (group_bit maxfs m g \<and> Suc h \<le> g)" if "g < NR_GROUPS"
  proof -
    have "group_bit maxfs (collected m1 ?dl NR_PAGES_IN_PEB) g = group_bit maxfs m1 g"
      using out group_bmap_below_peb [OF that] by (simp add: group_bit_def)
    also have "\<dots> = (group_bit maxfs m' g \<and> g \<noteq> h)" unfolding m1 by (rule group_bit_clear)
    finally show ?thesis using gb that by auto
  qed
  show "collected m1 ?dl NR_PAGES_IN_PEB a =
      (if g < Suc h \<and> group_bit maxfs m g then collected m (peb maxfs g) NR_PAGES_IN_PEB a else m a)"
    if "g < NR_GROUPS" "peb maxfs g \<le> a" "a < peb maxfs g + PAGE_SIZE"
  proof (cases "g = h")
    case True
    then show ?thesis using that h gb collected_cong [OF m1h] by simp
  next
    case False
    then have "a < ?dl \<or> ?dl + PAGE_SIZE \<le> a" using peb_disjoint [OF that(2,3), of h] by fastforce
    then have "collected m1 ?dl NR_PAGES_IN_PEB a = m' a" using out m1a [OF that(2)] by simp
    then show ?thesis using False pb that by auto
  qed
qed

definition ranges_up_to :: "(nat \<times> nat) list \<Rightarrow> nat \<Rightarrow> bool" where
  "ranges_up_to rs p \<longleftrightarrow> sorted_wrt (\<lambda>r r'. fst r + snd r \<le> fst r') rs \<and> (\<forall>r\<in>set rs. 0 < snd r \<and> fst r + snd r \<le> p)"

lemma ranges_up_to_append:
  assumes "ranges_up_to rs lo" "ranges_apart rs'" "\<forall>p\<in>set (range_pages rs'). lo \<le> p \<and> p < hi" "lo \<le> hi"
  shows "ranges_up_to (rs @ rs') hi"
proof -
  have pos: "\<forall>r\<in>set rs'. 0 < snd r" and s: "sorted_wrt (\<lambda>r r'. fst r + snd r < fst r') rs'"
    using assms(2) by (simp_all add: ranges_apart_def)
  have b: "\<forall>r\<in>set rs'. lo \<le> fst r \<and> fst r + snd r \<le> hi"
    using pos range_pages_bounds assms(3) by blast
  have "sorted_wrt (\<lambda>r r'. fst r + snd r \<le> fst r') rs'"
    using s by (rule sorted_wrt_mono_rel [rotated]) simp
  then have "sorted_wrt (\<lambda>r r'. fst r + snd r \<le> fst r') (rs @ rs')"
    using assms(1) b by (fastforce simp: sorted_wrt_append ranges_up_to_def)
  then show ?thesis using assms(1,4) pos b by (fastforce simp: ranges_up_to_def)
qed

definition groups_inv :: "nat \<Rightarrow> shm \<Rightarrow> (nat \<times> nat) list list \<Rightarrow> nat \<Rightarrow> shm \<times> dirty_lists \<Rightarrow> bool" where
  "groups_inv maxfs m ls g s \<longleftrightarrow> dl_ok (snd s) \<and>
     (\<forall>h<NR_GROUPS. group_bit maxfs (fst s) h = (group_bit maxfs m h \<and> g \<le> h)) \<and>
     (\<forall>h<NR_GROUPS. \<forall>a. peb maxfs h \<le> a \<and> a < peb maxfs h + PAGE_SIZE \<longrightarrow>
        fst s a = (if h < g \<and> group_bit maxfs m h then collected m (peb maxfs h) NR_PAGES_IN_PEB a else m a)) \<and>
     (\<exists>rs. lists_of (snd s) = map (\<lambda>xs. xs @ rs) ls \<and> ranges_up_to rs (g * NR_PAGES_IN_PEB) \<and>
        range_pages rs = concat (map (group_dirty maxfs m) (filter (group_bit maxfs m) [0..<g])))"

lemma groups_inv_skip:
  assumes inv: "groups_inv maxfs m ls g s" and none: "\<forall>h. g \<le> h \<and> h < g + n \<longrightarrow> \<not> group_bit maxfs m h"
  shows "groups_inv maxfs m ls (g + n) s"
proof -
  have f: "filter (group_bit maxfs m) [0..<g + n] = filter (group_bit maxfs m) [0..<g]"
    using none by (rule filter_upt_none)
  have e: "group_bit maxfs m h \<and> g + n \<le> h \<longleftrightarrow> group_bit maxfs m h \<and> g \<le> h"
    "h < g + n \<and> group_bit maxfs m h \<longleftrightarrow> h < g \<and> group_bit maxfs m h" for h
    using none by (metis add_leD1 leI le_less_trans, metis leI trans_less_add1)
  have "ranges_up_to rs ((g + n) * NR_PAGES_IN_PEB)" if "ranges_up_to rs (g * NR_PAGES_IN_PEB)" for rs
    using that by (auto simp: ranges_up_to_def add_mult_distrib intro: trans_le_add1)
  then show ?thesis using inv unfolding groups_inv_def e f by blast
qed

lemma groups_inv_step:
  assumes inv: "groups_inv maxfs m ls h (m', l)" and h: "h < NR_GROUPS" "group_bit maxfs m' h"
    and m1: "m1 = m'(get_dirty_group_bmap maxfs + h div 8 := m' (get_dirty_group_bmap maxfs + h div 8) AND NOT (push_bit (h mod 8) 1))"
    and a: "alloc = (\<lambda>_. True)"
    and lk: "\<forall>q<NR_PAGES_IN_PEB. \<not> (page_dirty m (peb maxfs h) q \<and> page_locked m (peb maxfs h) q)"
    and g: "gather_dirty_bits maxfs alloc m1 l h = (m2, l2, e)"
  shows "groups_inv maxfs m ls (Suc h) (m2, l2)"
proof -
  let ?dl = "peb maxfs h"
  have ok: "dl_ok l" and gb: "\<forall>g<NR_GROUPS. group_bit maxfs m' g = (group_bit maxfs m g \<and> h \<le> g)"
    and pb: "\<forall>g<NR_GROUPS. \<forall>a. peb maxfs g \<le> a \<and> a < peb maxfs g + PAGE_SIZE \<longrightarrow>
        m' a = (if g < h \<and> group_bit maxfs m g then collected m (peb maxfs g) NR_PAGES_IN_PEB a else m a)"
    using inv by (simp_all add: groups_inv_def)
  obtain rs where rs: "lists_of l = map (\<lambda>xs. xs @ rs) ls" "ranges_up_to rs (h * NR_PAGES_IN_PEB)"
    "range_pages rs = concat (map (group_dirty maxfs m) (filter (group_bit maxfs m) [0..<h]))"
    using inv by (auto simp: groups_inv_def)
  note mem = groups_inv_step_mem [OF gb pb h m1]
  have lk1: "\<forall>q<NR_PAGES_IN_PEB. \<not> (page_dirty m1 ?dl q \<and> page_locked m1 ?dl q)"
    using lk page_dirty_cong [OF mem(1)] by simp
  obtain rs' where r: "m2 = collected m1 ?dl NR_PAGES_IN_PEB" "dl_ok l2" "lists_of l2 = map (\<lambda>xs. xs @ rs') (lists_of l)"
    "ranges_apart rs'" "range_pages rs' = map (\<lambda>q. h * NR_PAGES_IN_PEB + q) (filter (page_dirty m1 ?dl) [0..<NR_PAGES_IN_PEB])"
    using gather_dirty_bits_collects [OF ok a refl lk1] g by auto
  have pages: "range_pages rs' = group_dirty maxfs m h"
    unfolding r(5) group_dirty_def using page_dirty_cong(1) [OF mem(1)] by (auto intro!: filter_cong)
  have "ranges_up_to (rs @ rs') (Suc h * NR_PAGES_IN_PEB)"
    using ranges_up_to_append [OF rs(2) r(4)] group_dirty_bounds unfolding pages by simp
  moreover have "range_pages (rs @ rs') = concat (map (group_dirty maxfs m) (filter (group_bit maxfs m) [0..<Suc h]))"
    using rs(3) pages h gb by simp
  moreover have "lists_of l2 = map (\<lambda>xs. xs @ rs @ rs') ls" using r(3) rs(1) by simp
  ultimately show ?thesis using r(2) mem(2,3) unfolding groups_inv_def r(1) fst_conv snd_conv by blast
qed

lemma get_le_eq_0D: "get_le n off m = 0 \<Longrightarrow> k < n \<Longrightarrow> m (off + k) = 0"
proof (induction n arbitrary: off k)
  case (Suc n)
  then show ?case using Suc.IH [of "Suc off" "k - 1"] by (cases k) (auto simp: unat_eq_zero)
qed simp

lemma gather_group_word_inv:
  assumes "groups_inv maxfs m0 ls g (m, l)" "64 * i \<le> g" "g \<le> 64 * Suc i" "i < PAGE_SIZE div 8"
    and a: "alloc = (\<lambda>_. True)"
    and lk: "\<forall>h<NR_GROUPS. \<forall>q<NR_PAGES_IN_PEB. \<not> (page_dirty m0 (peb maxfs h) q \<and> page_locked m0 (peb maxfs h) q)"
  shows "groups_inv maxfs m0 ls (64 * Suc i) (gather_group_word maxfs alloc i m l)"
  using assms
proof (induction maxfs alloc i m l arbitrary: g rule: gather_group_word.induct)
  case (1 maxfs alloc i m l)
  let ?p = "get_dirty_group_bmap maxfs"
  have i: "64 * Suc i \<le> NR_GROUPS" using 1(5) by (simp add: NR_GROUPS_def shm_consts)
  have gb: "group_bit maxfs m h = (group_bit maxfs m0 h \<and> g \<le> h)" if "h < NR_GROUPS" for h
    using 1(2) that by (simp add: groups_inv_def)
  show ?case
  proof (cases "get_le 8 (?p + i * 8) m = 0")
    case True
    have none: "\<not> group_bit maxfs m h" if "64 * i \<le> h" "h < 64 * Suc i" for h
    proof -
      have "h div 8 = i * 8 + (h div 8 - i * 8)" "h div 8 - i * 8 < 8" using that by auto
      then have "m (?p + h div 8) = 0" using get_le_eq_0D [OF True] by (metis add.assoc)
      then show ?thesis by (simp add: group_bit_def)
    qed
    have "\<not> group_bit maxfs m0 h" if "g \<le> h" "h < 64 * Suc i" for h
      using none [of h] gb [of h] that i 1(3) by simp
    then have "\<forall>h. g \<le> h \<and> h < g + (64 * Suc i - g) \<longrightarrow> \<not> group_bit maxfs m0 h"
      using 1(4) by simp
    then have "groups_inv maxfs m0 ls (64 * Suc i) (m, l)" using groups_inv_skip [OF 1(2)] 1(4) by fastforce
    then show ?thesis using True by (simp add: gather_group_word.simps [of maxfs alloc i])
  next
    case False
    define k where "k = first_set_byte m (?p + i * 8)"
    obtain m1 b where c: "clear_first_set_bit m (?p + (i * 8 + k)) = (m1, b)" by fastforce
    define h where "h = b + (i * 8 + k) * BITS_IN_BYTE"
    obtain m2 l2 e where g2: "gather_dirty_bits maxfs alloc m1 l h = (m2, l2, e)" by (metis prod_cases3)
    note n = next_group [OF False k_def c h_def]
    have hN: "h < NR_GROUPS" using n(2) i by simp
    have gh: "g \<le> h" using n(3) gb [OF hN] by simp
    have "\<not> group_bit maxfs m0 h'" if "g \<le> h'" "h' < h" for h'
      using n(4) [of h'] gb [of h'] that hN 1(3) by simp
    then have "\<forall>h'. g \<le> h' \<and> h' < g + (h - g) \<longrightarrow> \<not> group_bit maxfs m0 h'"
      using gh by simp
    then have "groups_inv maxfs m0 ls h (m, l)" using groups_inv_skip [OF 1(2)] gh by fastforce
    then have "groups_inv maxfs m0 ls (Suc h) (m2, l2)"
      using groups_inv_step [OF _ hN n(3) n(5) 1(6) _ g2] 1(7) hN by simp
    then have "groups_inv maxfs m0 ls (64 * Suc i) (gather_group_word maxfs alloc i m2 l2)"
      using 1(1) [OF _ k_def c [symmetric] refl g2 [unfolded h_def, symmetric] refl] False 1(3,5-7) n(1,2) by simp
    then show ?thesis
      using False 1(5) c g2 k_def h_def by (simp add: gather_group_word.simps [of maxfs alloc i m])
  qed
qed
section \<open>Lemmas: pages\<close>

lemma get_page_bits_eq:
  assumes "q < NR_PAGES_IN_PEB"
  shows "get_page_bits maxfs (g * NR_PAGES_IN_PEB + q) ty = peb maxfs g + q div 8 + state_start ty"
proof -
  have "(g * NR_PAGES_IN_PEB + q) * PAGE_SIZE div PEB_COVERAGE = g"
    using assms by (simp add: shm_consts)
  then show ?thesis using assms by (simp add: get_page_bits_def get_dirty_lock_bmap_def Let_def BITS_IN_BYTE_def algebra_simps)
qed

lemma page_bit_eq:
  assumes "q < NR_PAGES_IN_PEB"
  shows "page_bit maxfs m (g * NR_PAGES_IN_PEB + q) ty = bit (m (peb maxfs g + q div 8 + state_start ty)) (q mod 8)"
proof -
  have "(g * NR_PAGES_IN_PEB + q) mod 8 = q mod 8" by (simp add: shm_consts mod_add_left_eq [symmetric] mod_mult_right_eq [symmetric])
  then show ?thesis by (simp add: page_bit_def get_page_bits_eq [OF assms] BITS_IN_BYTE_def)
qed

lemma page_bit_dirty: "q < NR_PAGES_IN_PEB \<Longrightarrow> page_bit maxfs m (g * NR_PAGES_IN_PEB + q) DIRTYBIT = page_dirty m (peb maxfs g) q"
  by (simp add: page_bit_eq page_dirty_def)

lemma page_bit_locked: "q < NR_PAGES_IN_PEB \<Longrightarrow> page_bit maxfs m (g * NR_PAGES_IN_PEB + q) LOCKBIT = page_locked m (peb maxfs g) q"
  by (simp add: page_bit_eq page_locked_def add.assoc add.commute [of BYTES_PER_STATE])

lemma page_split:
  assumes "p < NR_GROUPS * NR_PAGES_IN_PEB"
  obtains g q where "p = g * NR_PAGES_IN_PEB + q" "g < NR_GROUPS" "q < NR_PAGES_IN_PEB" "g = p div NR_PAGES_IN_PEB"
proof
  have "0 < NR_PAGES_IN_PEB" by (simp add: shm_consts)
  then show "p mod NR_PAGES_IN_PEB < NR_PAGES_IN_PEB" by simp
  show "p div NR_PAGES_IN_PEB < NR_GROUPS" using assms by (simp add: less_mult_imp_div_less)
qed simp_all

lemma group_dirty_eq:
  "group_dirty maxfs m g = filter (\<lambda>p. page_bit maxfs m p DIRTYBIT) [g * NR_PAGES_IN_PEB..<Suc g * NR_PAGES_IN_PEB]"
proof -
  have "[g * NR_PAGES_IN_PEB..<Suc g * NR_PAGES_IN_PEB] = map (\<lambda>q. g * NR_PAGES_IN_PEB + q) [0..<NR_PAGES_IN_PEB]"
    by (rule nth_equalityI) simp_all
  then show ?thesis by (auto simp: group_dirty_def filter_map page_bit_dirty o_def intro!: filter_cong arg_cong [where f = "map _"])
qed

lemma concat_group_dirty:
  assumes "\<forall>p<n * NR_PAGES_IN_PEB. page_bit maxfs m p DIRTYBIT \<longrightarrow> group_bit maxfs m (p div NR_PAGES_IN_PEB)"
  shows "concat (map (group_dirty maxfs m) (filter (group_bit maxfs m) [0..<n])) =
    filter (\<lambda>p. page_bit maxfs m p DIRTYBIT) [0..<n * NR_PAGES_IN_PEB]"
  using assms
proof (induction n)
  case (Suc n)
  have "[0..<Suc n * NR_PAGES_IN_PEB] = [0..<n * NR_PAGES_IN_PEB] @ [n * NR_PAGES_IN_PEB..<Suc n * NR_PAGES_IN_PEB]"
    using upt_add_eq_append [of 0 "n * NR_PAGES_IN_PEB" NR_PAGES_IN_PEB] by (simp add: add.commute)
  moreover have "group_dirty maxfs m n = []" if "\<not> group_bit maxfs m n"
  proof -
    have "\<not> page_bit maxfs m (n * NR_PAGES_IN_PEB + q) DIRTYBIT" if "q < NR_PAGES_IN_PEB" for q
      using Suc.prems [rule_format, of "n * NR_PAGES_IN_PEB + q"] \<open>\<not> group_bit maxfs m n\<close> that by auto
    then show ?thesis by (auto simp: group_dirty_def filter_empty_conv page_bit_dirty)
  qed
  ultimately show ?case using Suc by (auto simp: group_dirty_eq)
qed simp

lemma collected_page_bits:
  assumes "q < NR_PAGES_IN_PEB"
  shows "bit (collected m (peb maxfs g) NR_PAGES_IN_PEB (peb maxfs g + q div 8 + state_start ty)) (q mod 8) =
    (case ty of DIRTYBIT \<Rightarrow> False
     | LOCKBIT \<Rightarrow> page_bit maxfs m (g * NR_PAGES_IN_PEB + q) LOCKBIT \<or> page_bit maxfs m (g * NR_PAGES_IN_PEB + q) DIRTYBIT
     | _ \<Rightarrow> page_bit maxfs m (g * NR_PAGES_IN_PEB + q) ty)"
proof -
  have q: "q div 8 < BYTES_PER_STATE" "q mod 8 < NR_PAGES_IN_PEB - 8 * (q div 8)"
    using assms mult_div_mod_eq [of 8 q] by (simp add: shm_consts, simp add: less_diff_conv)
  show ?thesis
    using q by (cases ty) (simp_all add: page_bit_eq [OF assms] collected_def bit_simps bit_mask8 add.assoc)
qed

lemma inode_gather_collects:
  assumes ok: "dl_ok l"
    and lk: "\<forall>p<NR_GROUPS * NR_PAGES_IN_PEB. \<not> (page_bit maxfs m p DIRTYBIT \<and> page_bit maxfs m p LOCKBIT)"
    and gr: "\<forall>p<NR_GROUPS * NR_PAGES_IN_PEB. page_bit maxfs m p DIRTYBIT \<longrightarrow> group_bit maxfs m (p div NR_PAGES_IN_PEB)"
  obtains m' l' rs where "inode_gather_dirty_pagebits maxfs (\<lambda>_. True) m l = (m', l')" "dl_ok l'"
    "lists_of l' = map (\<lambda>xs. xs @ rs) (lists_of l)" "ranges_up_to rs (NR_GROUPS * NR_PAGES_IN_PEB)"
    "range_pages rs = filter (\<lambda>p. page_bit maxfs m p DIRTYBIT) [0..<NR_GROUPS * NR_PAGES_IN_PEB]"
    "\<And>h. h < NR_GROUPS \<Longrightarrow> \<not> group_bit maxfs m' h"
    "\<And>p ty. p < NR_GROUPS * NR_PAGES_IN_PEB \<Longrightarrow> page_bit maxfs m' p ty =
       (case ty of DIRTYBIT \<Rightarrow> False | LOCKBIT \<Rightarrow> page_bit maxfs m p LOCKBIT \<or> page_bit maxfs m p DIRTYBIT
        | _ \<Rightarrow> page_bit maxfs m p ty)"
proof -
  let ?f = "\<lambda>i (m, l). gather_group_word maxfs (\<lambda>_. True) i m l"
  obtain m' l' where r: "inode_gather_dirty_pagebits maxfs (\<lambda>_. True) m l = (m', l')" by fastforce
  have lk': "\<forall>h<NR_GROUPS. \<forall>q<NR_PAGES_IN_PEB. \<not> (page_dirty m (peb maxfs h) q \<and> page_locked m (peb maxfs h) q)"
  proof (intro allI impI)
    fix h q assume h: "h < NR_GROUPS" and q: "q < NR_PAGES_IN_PEB"
    have "h * NR_PAGES_IN_PEB + q < Suc h * NR_PAGES_IN_PEB" using q by simp
    also have "\<dots> \<le> NR_GROUPS * NR_PAGES_IN_PEB" using h by (intro mult_le_mono) simp_all
    finally show "\<not> (page_dirty m (peb maxfs h) q \<and> page_locked m (peb maxfs h) q)"
      using lk page_bit_dirty [OF q] page_bit_locked [OF q] by blast
  qed
  have l0: "dl_ok (reset_waiting_nr l)" "lists_of (reset_waiting_nr l) = lists_of l" using ok by (cases l; simp)+
  then have "groups_inv maxfs m (lists_of l) (64 * 0) (m, reset_waiting_nr l)"
    by (auto simp: groups_inv_def ranges_up_to_def intro!: exI [of _ "[]"])
  then have "groups_inv maxfs m (lists_of l) (64 * (PAGE_SIZE div 8)) (fold ?f [0..<PAGE_SIZE div 8] (m, reset_waiting_nr l))"
  proof (rule fold_inv_upt [where I = "\<lambda>k. groups_inv maxfs m (lists_of l) (64 * k)"])
    fix k s assume "k < PAGE_SIZE div 8" "groups_inv maxfs m (lists_of l) (64 * k) s"
    then show "groups_inv maxfs m (lists_of l) (64 * Suc k) (?f k s)"
      using gather_group_word_inv [OF _ _ _ _ refl lk'] by (cases s) simp
  qed
  moreover have "64 * (PAGE_SIZE div 8) = NR_GROUPS" by (simp add: NR_GROUPS_def shm_consts)
  ultimately have inv: "groups_inv maxfs m (lists_of l) NR_GROUPS (m', l')"
    using r by (simp add: inode_gather_dirty_pagebits_def)
  obtain rs where rs: "lists_of l' = map (\<lambda>xs. xs @ rs) (lists_of l)" "ranges_up_to rs (NR_GROUPS * NR_PAGES_IN_PEB)"
    "range_pages rs = concat (map (group_dirty maxfs m) (filter (group_bit maxfs m) [0..<NR_GROUPS]))"
    using inv by (auto simp: groups_inv_def)
  have "page_bit maxfs m' p ty = (case ty of DIRTYBIT \<Rightarrow> False
      | LOCKBIT \<Rightarrow> page_bit maxfs m p LOCKBIT \<or> page_bit maxfs m p DIRTYBIT | _ \<Rightarrow> page_bit maxfs m p ty)"
    if p: "p < NR_GROUPS * NR_PAGES_IN_PEB" for p ty
  proof -
    obtain g q where g: "p = g * NR_PAGES_IN_PEB + q" "g < NR_GROUPS" "q < NR_PAGES_IN_PEB" "g = p div NR_PAGES_IN_PEB"
      using page_split [OF p] .
    let ?a = "peb maxfs g + q div 8 + state_start ty"
    have "peb maxfs g \<le> ?a \<and> ?a < peb maxfs g + PAGE_SIZE" using g(3) by (cases ty) (simp_all add: shm_consts)
    then have "m' ?a = (if group_bit maxfs m g then collected m (peb maxfs g) NR_PAGES_IN_PEB ?a else m ?a)"
      using inv g(2) by (simp add: groups_inv_def)
    moreover have "group_bit maxfs m g \<or> \<not> page_bit maxfs m p DIRTYBIT" using gr p g(4) by blast
    ultimately show ?thesis
      using collected_page_bits [OF g(3), of m maxfs g ty] page_bit_eq [OF g(3), of maxfs _ g ty] unfolding g(1)
      by (cases ty) auto
  qed
  then show ?thesis
    using that [OF r _ rs(1,2)] rs(3) concat_group_dirty [OF gr] inv by (auto simp: groups_inv_def)
qed

section \<open>Lemmas: a dirty page that is locked\<close>

definition gather_failed :: "shm \<Rightarrow> nat \<Rightarrow> nat \<Rightarrow> (nat \<times> nat) list list \<Rightarrow> nat \<Rightarrow> gather \<Rightarrow> bool" where
  "gather_failed m dl idx ls p s' \<longleftrightarrow> g_fail s' \<and>
     (\<exists>s. gather_inv m dl idx ls p s \<and> g_lists s' = g_lists s \<and>
          g_shm s' = (collected m dl p)(dl + p div 8 := collected m dl p (dl + p div 8) AND NOT (push_bit (p mod 8) 1)))"

lemma fold_stuck: "(\<And>x s. g_fail s \<Longrightarrow> f x s = s) \<Longrightarrow> g_fail s \<Longrightarrow> fold f xs s = s"
  by (induction xs) simp_all

lemma fold_upt_fails:
  assumes "I 0 s" "\<And>k s. k < n \<Longrightarrow> I k s \<Longrightarrow> I (Suc k) (f k s)" "\<And>s. I n s \<Longrightarrow> gather_failed m dl idx ls p (f n s)"
    "\<And>x s. g_fail s \<Longrightarrow> f x s = s" "n < N"
  shows "gather_failed m dl idx ls p (fold f [0..<N] s)"
proof -
  have "[0..<N] = [0..<n] @ n # [Suc n..<N]" 
    using assms(5) upt_add_eq_append [of 0 n "N - n"] upt_conv_Cons [of n N] by simp
  moreover have "I n (fold f [0..<n] s)" using assms(1,2) by (rule fold_inv_upt)
  ultimately show ?thesis
    using assms(3,4) fold_stuck [of f "f n (fold f [0..<n] s)"] by (simp add: gather_failed_def)
qed

lemma gather_bit_fails:
  assumes inv: "gather_inv m dl idx ls (8 * j + b) s" and b: "b < 8" "j < BYTES_PER_STATE"
    and p: "page_dirty m dl (8 * j + b)" "page_locked m dl (8 * j + b)"
  shows "gather_failed m dl idx ls (8 * j + b) (gather_bit alloc dl idx j (m (dl + j)) b s)"
proof -
  let ?k = "8 * j + b"
  have k: "?k div 8 = j" "?k mod 8 = b" "?k < NR_PAGES_IN_PEB" using b by (simp_all add: shm_consts)
  have s: "\<not> g_fail s" "g_shm s = collected m dl ?k" using inv by (simp_all add: gather_inv_def)
  have "bit (m (dl + j)) b" using p(1) unfolding page_dirty_def k .
  moreover have "bit (collected m dl ?k (dl + j + BYTES_PER_STATE)) b"
    using collected_lock [OF k(3), of m dl] p(2) unfolding k by (simp add: add.assoc add.commute [of BYTES_PER_STATE])
  ultimately show ?thesis
    using inv s unfolding gather_failed_def k by (auto simp: gather_bit_def Let_def shm_consts)
qed

lemma gather_byte_fails:
  assumes inv: "gather_inv m dl idx ls (8 * j) s" and a: "alloc = (\<lambda>_. True)" and j: "j < BYTES_PER_STATE"
    and w: "w (dl + j) = m (dl + j)" and p: "p div 8 = j" "page_dirty m dl p" "page_locked m dl p"
    and lk: "\<forall>q<p. \<not> (page_dirty m dl q \<and> page_locked m dl q)"
  shows "gather_failed m dl idx ls p (gather_byte alloc dl idx w j s)"
proof -
  let ?f = "gather_bit alloc dl idx j (m (dl + j))"
  have pj: "p = 8 * j + p mod 8" "p mod 8 < 8" using p(1) mult_div_mod_eq [of 8 p] by simp_all
  have nz: "m (dl + j) \<noteq> 0" using p by (auto simp: page_dirty_def)
  have "gather_failed m dl idx ls p (fold ?f [0..<8] s)"
  proof (rule fold_upt_fails [where n = "p mod 8" and I = "\<lambda>b. gather_inv m dl idx ls (8 * j + b)"])
    show "gather_inv m dl idx ls (8 * j + 0) s" using inv by simp
    show "gather_inv m dl idx ls (8 * j + Suc b) (?f b s)" if "b < p mod 8" "gather_inv m dl idx ls (8 * j + b) s" for b s
      using gather_bit_inv [OF that(2) a _ j refl] that(1) pj lk by simp
    show "gather_failed m dl idx ls p (?f (p mod 8) s)" if "gather_inv m dl idx ls (8 * j + p mod 8) s" for s
      using gather_bit_fails [OF that pj(2) j] p pj(1) by simp
  qed (simp_all add: gather_bit_def)
  then show ?thesis using nz w inv by (simp add: gather_byte_def gather_inv_def)
qed

lemma gather_word_fails:
  assumes inv: "gather_inv m dl idx ls (64 * i) s" and a: "alloc = (\<lambda>_. True)" and i: "i < BYTES_PER_STATE div 8"
    and p: "p div 64 = i" "page_dirty m dl p" "page_locked m dl p"
    and lk: "\<forall>q<p. \<not> (page_dirty m dl q \<and> page_locked m dl q)"
  shows "gather_failed m dl idx ls p (gather_word alloc dl idx i s)"
proof -
  let ?f = "\<lambda>k. gather_byte alloc dl idx (g_shm s) (i * 8 + k)"
  define n where "n = p div 8 - i * 8"
  have n: "p div 8 = i * 8 + n" "n < 8" using p(1) by (auto simp: n_def)
  have i8: "i * 8 + k < BYTES_PER_STATE" if "k < 8" for k using i that by (simp add: shm_consts)
  have s: "\<not> g_fail s" "g_shm s = collected m dl (64 * i)" using inv by (simp_all add: gather_inv_def)
  have w: "g_shm s (dl + (i * 8 + k)) = m (dl + (i * 8 + k))" if "k < 8" for k
    using i8 [OF that] s(2) by (simp add: collected_later)
  have "m (dl + p div 8) \<noteq> 0" using p(2) by (auto simp: page_dirty_def)
  then have "g_shm s (dl + i * 8 + n) \<noteq> 0" using w [OF n(2)] n(1) by (simp add: add.assoc)
  then have nz: "\<not> (\<forall>k\<in>set [0..<8]. g_shm s (dl + i * 8 + k) = 0)" using n(2) by (auto simp del: upt_rec_numeral)
  have "gather_failed m dl idx ls p (fold ?f [0..<8] s)"
  proof (rule fold_upt_fails [where n = n and I = "\<lambda>k. gather_inv m dl idx ls (8 * (i * 8 + k))"])
    show "gather_inv m dl idx ls (8 * (i * 8 + 0)) s" using inv by simp
    show "gather_inv m dl idx ls (8 * (i * 8 + Suc k)) (?f k s')"
      if "k < n" "gather_inv m dl idx ls (8 * (i * 8 + k)) s'" for k s'
    proof -
      have "8 * Suc (i * 8 + k) \<le> 8 * (p div 8)" unfolding n(1) using that(1) by simp
      then have "8 * Suc (i * 8 + k) \<le> p" by (rule le_trans) simp
      then show ?thesis
        using gather_byte_inv [OF that(2) a i8, of "g_shm s"] w that(1) n(2) lk by simp
    qed
    show "gather_failed m dl idx ls p (?f n s')" if "gather_inv m dl idx ls (8 * (i * 8 + n)) s'" for s'
      using gather_byte_fails [OF that a i8 [OF n(2)] _ n(1) p(2,3) lk, of "g_shm s"] w [OF n(2)] by simp
  qed (simp_all add: gather_byte_def n(2))
  then show ?thesis unfolding gather_word_def Let_def if_not_P [OF s(1)] if_not_P [OF nz] .
qed

lemma runs_inv_split:
  assumes "runs_inv P base k rs pos count"
  obtains c where "c \<le> k" "\<forall>q. c \<le> q \<and> q < k \<longrightarrow> P q" "range_pages rs = map (\<lambda>q. base + q) (filter P [0..<c])"
    "c = 0 \<or> \<not> P (c - 1)"
proof
  have e: "range_pages rs @ [base + pos..<base + pos + count] = map (\<lambda>q. base + q) (filter P [0..<k])"
    and k: "count \<noteq> 0 \<longrightarrow> pos + count = k" and r: "\<forall>r\<in>set rs. fst r + snd r < base + (if count = 0 then k else pos)"
    using assms by (simp_all add: runs_inv_def)
  show "k - count \<le> k" by simp
  show "\<forall>q. k - count \<le> q \<and> q < k \<longrightarrow> P q"
  proof (intro allI impI)
    fix q assume q: "k - count \<le> q \<and> q < k"
    then have "base + q \<in> set [base + pos..<base + pos + count]" using k by auto
    then have "base + q \<in> (\<lambda>q. base + q) ` set (filter P [0..<k])" using e by (metis Un_iff set_append set_map)
    then show "P q" by auto
  qed
  show rp: "range_pages rs = map (\<lambda>q. base + q) (filter P [0..<k - count])"
  proof (cases "count = 0")
    case True
    then show ?thesis using e by simp
  next
    case False
    then have kp: "k = pos + count" using k by simp
    then have "filter P [0..<k] = filter P [0..<pos] @ filter P [pos..<k]"
      by (simp add: upt_add_eq_append [of 0 pos count])
    moreover have "filter P [pos..<k] = [pos..<k]"
      using \<open>\<forall>q. k - count \<le> q \<and> q < k \<longrightarrow> P q\<close> kp by (auto simp: filter_id_conv)
    moreover have "map (\<lambda>q. base + q) [pos..<k] = [base + pos..<base + pos + count]"
      using kp by (intro nth_equalityI) simp_all
    ultimately show ?thesis using e kp by simp
  qed
  show "k - count = 0 \<or> \<not> P (k - count - 1)"
  proof (rule ccontr)
    assume "\<not> (k - count = 0 \<or> \<not> P (k - count - 1))"
    then have c: "0 < k - count" "P (k - count - 1)" by auto
    then have "base + (k - count - 1) \<in> (\<lambda>q. base + q) ` set (filter P [0..<k - count])" by (intro imageI) simp
    then have "base + (k - count - 1) \<in> set (range_pages rs)" unfolding rp by (simp only: set_map)
    then obtain r where "r \<in> set rs" "base + (k - count - 1) < fst r + snd r" by (auto simp: range_pages_def)
    moreover have "(if count = 0 then k else pos) = k - count" using k by auto
    ultimately show False using r c(1) by fastforce
  qed
qed
lemma gather_dirty_bits_fails:
  assumes ok: "dl_ok l" and a: "alloc = (\<lambda>_. True)" and dl: "dl = get_dirty_lock_bmap maxfs idx"
    and p: "p < NR_PAGES_IN_PEB" "page_dirty m dl p" "page_locked m dl p"
    and lk: "\<forall>q<p. \<not> (page_dirty m dl q \<and> page_locked m dl q)"
  obtains s where "gather_dirty_bits maxfs alloc m l idx = (g_shm s, g_lists s, True)"
    "gather_failed m dl idx (lists_of l) p s"
proof -
  let ?s0 = "\<lparr>g_shm = m, g_count = 0, g_pos = 0, g_lists = reset_tails l, g_fail = False\<rparr>"
  let ?n = "BYTES_PER_STATE div 8"
  define s where "s = fold (gather_word alloc dl idx) [0..<?n] ?s0"
  have pn: "p div 64 < ?n" using p(1) by (simp add: shm_consts)
  have "gather_failed m dl idx (lists_of l) p s"
    unfolding s_def
  proof (rule fold_upt_fails [where n = "p div 64" and I = "\<lambda>k. gather_inv m dl idx (lists_of l) (64 * k)"])
    show "gather_inv m dl idx (lists_of l) (64 * 0) ?s0" using gather_inv_init [OF ok] by simp
    show "gather_inv m dl idx (lists_of l) (64 * Suc k) (gather_word alloc dl idx k s)"
      if "k < p div 64" "gather_inv m dl idx (lists_of l) (64 * k) s" for k s
    proof -
      have "64 * Suc k \<le> 64 * (p div 64)" using that(1) by simp
      then have "64 * Suc k \<le> p" by (rule le_trans) simp
      then show ?thesis using gather_word_inv [OF that(2) a] that(1) pn lk by simp
    qed
    show "gather_failed m dl idx (lists_of l) p (gather_word alloc dl idx (p div 64) s)"
      if "gather_inv m dl idx (lists_of l) (64 * (p div 64)) s" for s
      using gather_word_fails [OF that a pn refl p(2,3) lk] .
  qed (simp_all add: gather_word_def pn)
  moreover have "gather_dirty_bits maxfs alloc m l idx = (g_shm s, g_lists s, True)"
    using calculation by (simp add: gather_dirty_bits_def Let_def dl [symmetric] s_def [symmetric] gather_failed_def)
  ultimately show ?thesis using that by blast
qed

section \<open>Lemmas: state bits are independent\<close>

lemma page_parts:
  obtains g q where "p = g * NR_PAGES_IN_PEB + q" "q < NR_PAGES_IN_PEB"
proof
  show "p = p div NR_PAGES_IN_PEB * NR_PAGES_IN_PEB + p mod NR_PAGES_IN_PEB" by simp
  show "p mod NR_PAGES_IN_PEB < NR_PAGES_IN_PEB" by (rule mod_less_divisor) (simp add: shm_consts)
qed

lemma page_byte_inject:
  assumes "get_page_bits maxfs p ty = get_page_bits maxfs q ty'" "p mod 8 = q mod 8"
  shows "p = q \<and> ty = ty'"
proof -
  obtain g a where p: "p = g * NR_PAGES_IN_PEB + a" "a < NR_PAGES_IN_PEB"
    using page_parts .
  obtain h b where q: "q = h * NR_PAGES_IN_PEB + b" "b < NR_PAGES_IN_PEB"
    using page_parts .
  have ab: "a div 8 < BYTES_PER_STATE" "b div 8 < BYTES_PER_STATE" using p(2) q(2) by (simp_all add: shm_consts)
  have e: "peb maxfs g + a div 8 + state_start ty = peb maxfs h + b div 8 + state_start ty'"
    using assms(1) unfolding p(1) q(1) get_page_bits_eq [OF p(2)] get_page_bits_eq [OF q(2)] .
  have "g = h"
    using e ab by (cases ty; cases ty'; simp add: get_dirty_lock_bmap_def shm_consts)
  moreover have "ty = ty' \<and> a div 8 = b div 8"
    using e ab calculation by (cases ty; cases ty'; simp add: shm_consts)
  moreover have "a mod 8 = b mod 8"
    using assms(2) unfolding p(1) q(1) by (simp add: shm_consts mod_add_left_eq [symmetric] mod_mult_right_eq [symmetric])
  ultimately have "ty = ty'" "g = h" "a = b" by (blast, blast, metis div_mult_mod_eq)
  then show ?thesis using p(1) q(1) by simp
qed

lemma page_bit_set: "page_bit maxfs (set_page_state maxfs m p ty) q ty' \<longleftrightarrow> page_bit maxfs m q ty' \<or> (p = q \<and> ty = ty')"
proof (cases "get_page_bits maxfs p ty = get_page_bits maxfs q ty'")
  case True
  have "(p = q \<and> ty = ty') = (p mod 8 = q mod 8)" using page_byte_inject [OF True] by blast
  then show ?thesis
    unfolding page_bit_def set_page_state_def Let_def True BITS_IN_BYTE_def fun_upd_same bit_set_bit by auto
next
  case False
  then show ?thesis by (auto simp: page_bit_def set_page_state_def Let_def)
qed

lemma page_bit_clear: "page_bit maxfs (clear_page_state maxfs m p ty) q ty' \<longleftrightarrow> page_bit maxfs m q ty' \<and> \<not> (p = q \<and> ty = ty')"
proof (cases "get_page_bits maxfs p ty = get_page_bits maxfs q ty'")
  case True
  have "(p = q \<and> ty = ty') = (p mod 8 = q mod 8)" using page_byte_inject [OF True] by blast
  then show ?thesis
    unfolding page_bit_def clear_page_state_def Let_def True BITS_IN_BYTE_def fun_upd_same bit_clear_bit by auto
next
  case False
  then show ?thesis by (auto simp: page_bit_def clear_page_state_def Let_def)
qed

lemma PDB_NR: "0 < maxfs \<Longrightarrow> maxfs \<le> PEB_COVERAGE * BITS_IN_PAGE \<Longrightarrow> PDB_ALLOC_CHECK_NR maxfs = 1 \<and> PDB_DIRTY_GROUP_NR maxfs = 1"
  by (simp add: PDB_ALLOC_CHECK_NR_def PDB_DIRTY_GROUP_NR_def shm_consts)

lemma get_page_bits_ge: "peb maxfs 0 \<le> get_page_bits maxfs p ty"
  by (simp add: get_page_bits_def get_dirty_lock_bmap_def Let_def shm_consts)

lemma page_bit_group: "page_bit maxfs (dirty_page_group m p) q ty = page_bit maxfs m q ty"
proof -
  have "get_page_bits maxfs q ty \<noteq> 2 * PAGE_SIZE + n div 8" if "n < BITS_IN_PAGE" for n
    using get_page_bits_ge [of maxfs q ty] that
    by (simp add: get_dirty_lock_bmap_def PDB_DIRTY_GROUP_NR_def PDB_ALLOC_CHECK_NR_def shm_consts)
  then show ?thesis by (auto simp: page_bit_def dirty_page_group_def shm_page_set_bit_def not_le)
qed

lemma page_group: "p * PAGE_SIZE div PEB_COVERAGE = p div NR_PAGES_IN_PEB"
  by (simp add: shm_consts)

lemma group_bit_group:
  assumes "PDB_ALLOC_CHECK_NR maxfs = 1" "p < NR_GROUPS * NR_PAGES_IN_PEB"
  shows "group_bit maxfs (dirty_page_group m p) g \<longleftrightarrow> group_bit maxfs m g \<or> g = p div NR_PAGES_IN_PEB"
proof -
  let ?h = "p div NR_PAGES_IN_PEB"
  have h: "?h < BITS_IN_PAGE" using assms(2) by (simp add: NR_GROUPS_def less_mult_imp_div_less)
  have b: "get_dirty_group_bmap maxfs = 2 * PAGE_SIZE" using assms(1) by (simp add: get_dirty_group_bmap_def)
  have "g = ?h \<longleftrightarrow> g div 8 = ?h div 8 \<and> g mod 8 = ?h mod 8" by (metis div_mult_mod_eq)
  then show ?thesis
    using h unfolding group_bit_def dirty_page_group_def shm_page_set_bit_def page_group b
    by (auto simp: bit_set_bit simp del: push_bit_of_1)
qed

lemma group_bit_page_state:
  assumes "g < NR_GROUPS"
  shows "group_bit maxfs (set_page_state maxfs m p ty) g = group_bit maxfs m g"
    "group_bit maxfs (clear_page_state maxfs m p ty) g = group_bit maxfs m g"
proof -
  have "get_dirty_group_bmap maxfs + g div 8 \<noteq> get_page_bits maxfs p ty"
    using group_bmap_below_peb [OF assms, of maxfs 0] get_page_bits_ge [of maxfs p ty] by simp
  then show "group_bit maxfs (set_page_state maxfs m p ty) g = group_bit maxfs m g"
    "group_bit maxfs (clear_page_state maxfs m p ty) g = group_bit maxfs m g"
    by (simp_all add: group_bit_def set_page_state_def clear_page_state_def Let_def)
qed

lemma collected_dirty_cleared:
  assumes "q \<le> p" "p < NR_PAGES_IN_PEB"
  shows "\<not> page_dirty ((collected m dl p)(dl + p div 8 := collected m dl p (dl + p div 8) AND NOT (push_bit (p mod 8) 1))) dl q"
proof -
  have q: "q div 8 < BYTES_PER_STATE" using assms by (simp add: shm_consts)
  have "\<not> page_dirty (collected m dl p) dl q" if "q < p"
  proof -
    have "q mod 8 < p - 8 * (q div 8)" using that mult_div_mod_eq [of 8 q] by linarith
    then show ?thesis using q by (simp add: page_dirty_def collected_def bit_simps bit_mask8)
  qed
  moreover have "q < p \<or> q = p" using assms(1) by auto
  ultimately show ?thesis by (auto simp: page_dirty_def bit_clear_bit simp del: push_bit_of_1)
qed

section \<open>Properties\<close>

text \<open>C19. Collecting the dirty pages of a file, when every dirty page has its group bit set and none is
  locked: the ranges added to the lists hold exactly the dirty pages in ascending order, the dirty bits
  are cleared, the pages that were dirty are locked, and no other state bit changes.\<close>

theorem inode_gather_dirty_pages:
  assumes "dl_ok l"
    and "\<forall>p<NR_GROUPS * NR_PAGES_IN_PEB. \<not> (page_bit maxfs m p DIRTYBIT \<and> page_bit maxfs m p LOCKBIT)"
    and "\<forall>p<NR_GROUPS * NR_PAGES_IN_PEB. page_bit maxfs m p DIRTYBIT \<longrightarrow> group_bit maxfs m (p div NR_PAGES_IN_PEB)"
  shows "\<exists>m' l' rs. inode_gather_dirty_pagebits maxfs (\<lambda>_. True) m l = (m', l') \<and> dl_ok l' \<and>
    lists_of l' = map (\<lambda>xs. xs @ rs) (lists_of l) \<and>
    range_pages rs = filter (\<lambda>p. page_bit maxfs m p DIRTYBIT) [0..<NR_GROUPS * NR_PAGES_IN_PEB] \<and>
    (\<forall>p<NR_GROUPS * NR_PAGES_IN_PEB. \<forall>ty. page_bit maxfs m' p ty =
       (case ty of DIRTYBIT \<Rightarrow> False | LOCKBIT \<Rightarrow> page_bit maxfs m p LOCKBIT \<or> page_bit maxfs m p DIRTYBIT
        | _ \<Rightarrow> page_bit maxfs m p ty))"
  using inode_gather_collects [OF assms] by metis

text \<open>A file of two groups with the dirty pages 3, 4 and 9000.\<close>

definition shm_sample :: shm where
  "shm_sample = dirty_page_group (dirty_page_group
     (set_page_state 4096 (set_page_state 4096 (set_page_state 4096 (\<lambda>_. 0) 3 DIRTYBIT) 4 DIRTYBIT) 9000 DIRTYBIT) 3) 9000"

lemma shm_sample_page_bit: "page_bit 4096 shm_sample p ty \<longleftrightarrow> ty = DIRTYBIT \<and> p \<in> {3, 4, 9000}"
  by (auto simp: shm_sample_def page_bit_group page_bit_set) (simp_all add: page_bit_def)

lemma shm_sample_group_bit: "g < NR_GROUPS \<Longrightarrow> group_bit 4096 shm_sample g \<longleftrightarrow> g = 0 \<or> g = 1"
  by (auto simp: shm_sample_def group_bit_page_state group_bit_group PDB_ALLOC_CHECK_NR_def NR_GROUPS_def shm_consts)
    (simp_all add: group_bit_def)

lemma filter_upt_eq:
  assumes "sorted xs" "distinct xs" "\<forall>x\<in>set xs. x < n \<and> P x" "\<forall>x<n. P x \<longrightarrow> x \<in> set xs"
  shows "filter P [0..<n] = xs"
  using assms by (intro sorted_distinct_set_unique) (auto simp: sorted_wrt_filter)

theorem inode_gather_dirty_pages_witness:
  "\<exists>m' l' rs. inode_gather_dirty_pagebits 4096 (\<lambda>_. True) shm_sample (Staging \<lparr>il_nodes = [empty_ird], il_tail = None\<rparr>) = (m', l') \<and>
    lists_of l' = [rs] \<and> range_pages rs = [3, 4, 9000] \<and> page_bit 4096 m' 4 LOCKBIT \<and> \<not> page_bit 4096 m' 4 DIRTYBIT"
proof -
  let ?l = "Staging \<lparr>il_nodes = [empty_ird], il_tail = None\<rparr>"
  let ?n = "NR_GROUPS * NR_PAGES_IN_PEB"
  have ok: "dl_ok ?l" using ird_chain_empty(1) by (simp add: il_ok_def ird_from_def)
  have n: "9000 < ?n" by (simp add: NR_GROUPS_def shm_consts)
  have lk: "\<forall>p<?n. \<not> (page_bit 4096 shm_sample p DIRTYBIT \<and> page_bit 4096 shm_sample p LOCKBIT)"
    by (simp add: shm_sample_page_bit)
  have gr: "\<forall>p<?n. page_bit 4096 shm_sample p DIRTYBIT \<longrightarrow> group_bit 4096 shm_sample (p div NR_PAGES_IN_PEB)"
    by (auto simp: shm_sample_page_bit shm_sample_group_bit NR_GROUPS_def shm_consts)
  have f: "filter (\<lambda>p. page_bit 4096 shm_sample p DIRTYBIT) [0..<?n] = [3, 4, 9000]"
    using n by (intro filter_upt_eq) (auto simp: shm_sample_page_bit)
  obtain m' l' rs where r: "inode_gather_dirty_pagebits 4096 (\<lambda>_. True) shm_sample ?l = (m', l')"
      "lists_of l' = map (\<lambda>xs. xs @ rs) (lists_of ?l)" "range_pages rs = [3, 4, 9000]"
    and b: "\<forall>p<?n. \<forall>ty. page_bit 4096 m' p ty =
       (case ty of DIRTYBIT \<Rightarrow> False | LOCKBIT \<Rightarrow> page_bit 4096 shm_sample p LOCKBIT \<or> page_bit 4096 shm_sample p DIRTYBIT
        | _ \<Rightarrow> page_bit 4096 shm_sample p ty)"
    using inode_gather_dirty_pages [OF ok lk gr] unfolding f by blast
  have "page_bit 4096 m' 4 LOCKBIT" "\<not> page_bit 4096 m' 4 DIRTYBIT"
    using b n by (simp_all add: shm_sample_page_bit)
  moreover have "lists_of l' = [rs]" using r(2) ird_chain_empty(2) by simp
  ultimately show ?thesis using r(1,3) by blast
qed
text \<open>C20. When the collector meets a dirty page that is locked it gives up: the ranges hold only the dirty
  pages before the current run, and all pages of the run lose their dirty bits without being in any
  range.  The run starts at \<open>c\<close>: the pages from \<open>c\<close> up to the locked one are dirty, the page before
  \<open>c\<close> is not.\<close>

theorem gather_dirty_bits_locked_page:
  assumes "dl_ok l" "p < NR_PAGES_IN_PEB"
    and "page_bit maxfs m (idx * NR_PAGES_IN_PEB + p) DIRTYBIT" "page_bit maxfs m (idx * NR_PAGES_IN_PEB + p) LOCKBIT"
    and "\<forall>q<p. \<not> (page_bit maxfs m (idx * NR_PAGES_IN_PEB + q) DIRTYBIT \<and> page_bit maxfs m (idx * NR_PAGES_IN_PEB + q) LOCKBIT)"
  shows "\<exists>m' l' rs c. gather_dirty_bits maxfs (\<lambda>_. True) m l idx = (m', l', True) \<and>
    lists_of l' = map (\<lambda>xs. xs @ rs) (lists_of l) \<and> c \<le> p \<and>
    (c = 0 \<or> \<not> page_bit maxfs m (idx * NR_PAGES_IN_PEB + (c - 1)) DIRTYBIT) \<and>
    range_pages rs = map (\<lambda>q. idx * NR_PAGES_IN_PEB + q)
      (filter (\<lambda>q. page_bit maxfs m (idx * NR_PAGES_IN_PEB + q) DIRTYBIT) [0..<c]) \<and>
    (\<forall>q. c \<le> q \<and> q \<le> p \<longrightarrow> page_bit maxfs m (idx * NR_PAGES_IN_PEB + q) DIRTYBIT \<and>
       \<not> page_bit maxfs m' (idx * NR_PAGES_IN_PEB + q) DIRTYBIT)"
proof -
  let ?dl = "peb maxfs idx" and ?B = "idx * NR_PAGES_IN_PEB"
  have d: "page_dirty m ?dl q = page_bit maxfs m (?B + q) DIRTYBIT" "page_locked m ?dl q = page_bit maxfs m (?B + q) LOCKBIT"
    if "q \<le> p" for q m using that assms(2) by (simp_all add: page_bit_dirty page_bit_locked)
  have p: "page_dirty m ?dl p" "page_locked m ?dl p" "\<forall>q<p. \<not> (page_dirty m ?dl q \<and> page_locked m ?dl q)"
    using assms(3-5) d by simp_all
  obtain s where s: "gather_dirty_bits maxfs (\<lambda>_. True) m l idx = (g_shm s, g_lists s, True)"
    "gather_failed m ?dl idx (lists_of l) p s"
    using gather_dirty_bits_fails [OF assms(1) refl refl assms(2) p] .
  obtain rs pos count where rs: "lists_of (g_lists s) = map (\<lambda>xs. xs @ rs) (lists_of l)"
    "runs_inv (page_dirty m ?dl) ?B p rs pos count"
    using s(2) unfolding gather_failed_def gather_inv_def by metis
  obtain c where c: "c \<le> p" "\<forall>q. c \<le> q \<and> q < p \<longrightarrow> page_dirty m ?dl q"
    "range_pages rs = map (\<lambda>q. ?B + q) (filter (page_dirty m ?dl) [0..<c])" "c = 0 \<or> \<not> page_dirty m ?dl (c - 1)"
    using runs_inv_split [OF rs(2)] .
  have "\<not> page_dirty (g_shm s) ?dl q" if "q \<le> p" for q
    using s(2) that collected_dirty_cleared assms(2) by (auto simp: gather_failed_def)
  moreover have "filter (page_dirty m ?dl) [0..<c] = filter (\<lambda>q. page_bit maxfs m (?B + q) DIRTYBIT) [0..<c]"
    using c(1) d by (intro filter_cong) auto
  moreover have "page_dirty m ?dl q" if "c \<le> q" "q \<le> p" for q
    using that c(2) assms(3) d(1) [of p] by (cases "q = p") auto
  moreover have "c = 0 \<or> \<not> page_bit maxfs m (?B + (c - 1)) DIRTYBIT" using c(1,4) d(1) [of "c - 1" m] by auto
  ultimately show ?thesis using s(1) rs(1) c(1,3) d by auto
qed

theorem gather_dirty_bits_locked_page_witness:
  "\<exists>m' l'. gather_dirty_bits 4096 (\<lambda>_. True) (set_page_state 4096 shm_sample 4 LOCKBIT)
      (Staging \<lparr>il_nodes = [empty_ird], il_tail = None\<rparr>) 0 = (m', l', True) \<and>
    concat (map range_pages (lists_of l')) = [] \<and> \<not> page_bit 4096 m' 3 DIRTYBIT \<and> \<not> page_bit 4096 m' 4 DIRTYBIT"
proof -
  let ?l = "Staging \<lparr>il_nodes = [empty_ird], il_tail = None\<rparr>" and ?m = "set_page_state 4096 shm_sample 4 LOCKBIT"
  have ok: "dl_ok ?l" using ird_chain_empty(1) by (simp add: il_ok_def ird_from_def)
  have pb: "page_bit 4096 ?m q DIRTYBIT \<longleftrightarrow> q \<in> {3, 4, 9000}" for q by (auto simp: page_bit_set shm_sample_page_bit)
  have h: "4 < NR_PAGES_IN_PEB" "page_bit 4096 ?m (0 * NR_PAGES_IN_PEB + 4) DIRTYBIT"
    "page_bit 4096 ?m (0 * NR_PAGES_IN_PEB + 4) LOCKBIT"
    "\<forall>q<4. \<not> (page_bit 4096 ?m (0 * NR_PAGES_IN_PEB + q) DIRTYBIT \<and> page_bit 4096 ?m (0 * NR_PAGES_IN_PEB + q) LOCKBIT)"
    by (auto simp: page_bit_set shm_sample_page_bit shm_consts)
  obtain m' l' rs c where g: "gather_dirty_bits 4096 (\<lambda>_. True) ?m ?l 0 = (m', l', True)"
    "lists_of l' = map (\<lambda>xs. xs @ rs) (lists_of ?l)" "c \<le> 4" "c = 0 \<or> \<not> page_bit 4096 ?m (0 * NR_PAGES_IN_PEB + (c - 1)) DIRTYBIT"
    "range_pages rs = map (\<lambda>q. 0 * NR_PAGES_IN_PEB + q) (filter (\<lambda>q. page_bit 4096 ?m (0 * NR_PAGES_IN_PEB + q) DIRTYBIT) [0..<c])"
    "\<forall>q. c \<le> q \<and> q \<le> 4 \<longrightarrow> page_bit 4096 ?m (0 * NR_PAGES_IN_PEB + q) DIRTYBIT \<and> \<not> page_bit 4096 m' (0 * NR_PAGES_IN_PEB + q) DIRTYBIT"
    using gather_dirty_bits_locked_page [OF ok h] by blast
  have "c \<in> {3, 4}" using g(3,6) pb [of c] by auto
  then have c: "c = 3" using g(4) pb [of "c - 1"] by auto
  then have "range_pages rs = []" using g(5) by (simp add: pb filter_empty_conv)
  then show ?thesis using g(1,2,6) c ird_chain_empty(2) by auto
qed

end
