(* ===== verification/Ox_Ird.thy ===== *)
theory Ox_Ird
  imports Ox_Shm
begin

text \<open>
  The dump of a list of dirty ranges in the stage area (\<^verbatim>\<open>serialize_and_fill_ird_list\<close> of
  \<^verbatim>\<open>secure_daemon/src/fs/sync.c\<close>) and its way back (\<^verbatim>\<open>deserialize_ird_compact\<close> of
  \<^verbatim>\<open>secure_daemon/src/libfs/shm.c\<close>), with the number of blocks reserved for it.
\<close>

section \<open>Dumping a list of ranges\<close>

text \<open>The compact frames of \<^verbatim>\<open>serialize_and_fill_ird_list\<close> (\<^verbatim>\<open>sync.c\<close>): the first page of
  the frame, the number of entries, and per range its distance to the end of the previous one and its
  length.  \<open>init n\<close> is the content of the \<open>n\<close>-th block the stage buffer gives.\<close>

definition sizeof_ird_frame_header :: nat where "sizeof_ird_frame_header = 10"
definition sizeof_ird_frame_entry :: nat where "sizeof_ird_frame_entry = 8"

definition ents_per_block :: nat where
  "ents_per_block = (PAGE_SIZE - sizeof_ird_frame_header) div sizeof_ird_frame_entry"

abbreviation hdr_base_pg :: "block \<Rightarrow> nat" where "hdr_base_pg \<equiv> get_le 8 0"
abbreviation hdr_n_entries :: "block \<Rightarrow> nat" where "hdr_n_entries \<equiv> get_le 2 8"

definition ent_ofs :: "nat \<Rightarrow> nat" where
  "ent_ofs i = sizeof_ird_frame_header + sizeof_ird_frame_entry * i"

record ser_state =
  sr_blks :: "block list"
  sr_first :: bool
  sr_idx :: nat
  sr_prev :: nat

definition ser_open :: "(nat \<Rightarrow> block) \<Rightarrow> nat \<Rightarrow> ser_state \<Rightarrow> ser_state" where
  "ser_open init start st =
     (if sr_first st
      then \<lparr>sr_blks = sr_blks st @ [put_le 2 8 0 (put_le 8 0 start (init (length (sr_blks st))))],
            sr_first = False, sr_idx = 0, sr_prev = start\<rparr>
      else st)"

definition ser_put :: "nat \<Rightarrow> nat \<Rightarrow> ser_state \<Rightarrow> ser_state" where
  "ser_put start len st =
     (let delta = (if start \<ge> sr_prev st then start - sr_prev st else 0);
          b = put_le 4 (ent_ofs (sr_idx st) + 4) len (put_le 4 (ent_ofs (sr_idx st)) delta (last (sr_blks st)))
      in st\<lparr>sr_blks := butlast (sr_blks st) @ [put_le 2 8 (sr_idx st + 1) b],
            sr_idx := sr_idx st + 1, sr_prev := add64 start len\<rparr>)"

definition ser_range :: "(nat \<Rightarrow> block) \<Rightarrow> nat \<times> nat \<Rightarrow> ser_state \<Rightarrow> ser_state" where
  "ser_range init r st =
     (case r of (start, len) \<Rightarrow>
        if len = 0 then st
        else let st1 = ser_open init start st
             in if sr_idx st1 = ents_per_block
                then ser_put start len (ser_open init start (st1\<lparr>sr_first := True\<rparr>))
                else ser_put start len st1)"

definition serialize_and_fill_ird_list :: "(nat \<Rightarrow> block) \<Rightarrow> inode_range_dirty list \<Rightarrow> block list" where
  "serialize_and_fill_ird_list init irds =
     sr_blks (fold (\<lambda>ird. fold (ser_range init) (dirty_pages ird)) irds
       \<lparr>sr_blks = [], sr_first = True, sr_idx = 0, sr_prev = 0\<rparr>)"

definition count_ird_dump_blocks :: "inode_range_dirty list \<Rightarrow> nat" where
  "count_ird_dump_blocks irds =
     (let total_entries = sum_list (map (\<lambda>ird. length (dirty_pages ird)) irds)
      in u32 ((total_entries + ents_per_block - 1) div ents_per_block))"

text \<open>\<^verbatim>\<open>deserialize_ird_compact\<close> fills a list from the frames; it fails on a frame with too many
  entries or when no node can be had.\<close>

definition ird_push :: "(nat \<Rightarrow> bool) \<Rightarrow> inode_range_dirty list \<Rightarrow> nat \<Rightarrow> nat \<Rightarrow> inode_range_dirty list option" where
  "ird_push alloc irds start len =
     (if length (dirty_pages (last irds)) = RANGE_DIRTY_ENT_MAX
      then if alloc (length irds) then Some (ird_append (irds @ [empty_ird]) (length irds) start len) else None
      else Some (ird_append irds (length irds - 1) start len))"

fun deser_entries ::
  "(nat \<Rightarrow> bool) \<Rightarrow> nat \<Rightarrow> (nat \<times> nat) list \<Rightarrow> inode_range_dirty list \<Rightarrow> inode_range_dirty list option" where
  "deser_entries alloc cur [] irds = Some irds"
| "deser_entries alloc cur ((delta, len) # es) irds =
     (let start = add64 cur delta
      in case ird_push alloc irds start len of
           None \<Rightarrow> None
         | Some irds' \<Rightarrow> deser_entries alloc (add64 start len) es irds')"

definition frame_entries :: "block \<Rightarrow> (nat \<times> nat) list" where
  "frame_entries b = map (\<lambda>i. (get_le 4 (ent_ofs i) b, get_le 4 (ent_ofs i + 4) b)) [0..<hdr_n_entries b]"

fun deser_frames :: "(nat \<Rightarrow> bool) \<Rightarrow> block list \<Rightarrow> inode_range_dirty list \<Rightarrow> inode_range_dirty list option" where
  "deser_frames alloc [] irds = Some irds"
| "deser_frames alloc (b # bs) irds =
     (if sizeof_ird_frame_header + hdr_n_entries b * sizeof_ird_frame_entry > PAGE_SIZE then None
      else case deser_entries alloc (hdr_base_pg b) (frame_entries b) irds of
             None \<Rightarrow> None
           | Some irds' \<Rightarrow> deser_frames alloc bs irds')"

definition deserialize_ird_compact :: "(nat \<Rightarrow> bool) \<Rightarrow> block list \<Rightarrow> inode_range_dirty list option" where
  "deserialize_ird_compact alloc bs = deser_frames alloc bs [empty_ird]"

section \<open>Lemmas: frames\<close>

fun entry_ranges :: "nat \<Rightarrow> (nat \<times> nat) list \<Rightarrow> (nat \<times> nat) list" where
  "entry_ranges cur [] = []"
| "entry_ranges cur ((delta, len) # es) = (add64 cur delta, len) # entry_ranges (add64 (add64 cur delta) len) es"

definition frame_ranges :: "block \<Rightarrow> (nat \<times> nat) list" where
  "frame_ranges b = entry_ranges (hdr_base_pg b) (frame_entries b)"

fun entries_end :: "nat \<Rightarrow> (nat \<times> nat) list \<Rightarrow> nat" where
  "entries_end cur [] = cur"
| "entries_end cur ((delta, len) # es) = entries_end (add64 (add64 cur delta) len) es"

lemma entry_ranges_append:
  "entry_ranges cur (es @ es') = entry_ranges cur es @ entry_ranges (entries_end cur es) es'"
  by (induction cur es rule: entry_ranges.induct) simp_all

lemma entries_end_append: "entries_end cur (es @ es') = entries_end (entries_end cur es) es'"
  by (induction cur es rule: entry_ranges.induct) simp_all

lemma ird_push_ok:
  assumes "ird_chain irds" "alloc = (\<lambda>_. True)"
  obtains irds' where "ird_push alloc irds s n = Some irds'" "ird_chain irds'" "ird_ranges irds' = ird_ranges irds @ [(s, n)]"
proof (cases "length (dirty_pages (last irds)) = RANGE_DIRTY_ENT_MAX")
  case True
  then show ?thesis
    using that ird_chain_extend [OF assms(1) True] ird_chain_append [of "irds @ [empty_ird]" s n] assms(2)
    by (simp add: ird_push_def)
next
  case False
  then show ?thesis using that ird_chain_append [OF assms(1) False, of s n] by (simp add: ird_push_def)
qed

lemma deser_entries_ok:
  assumes "ird_chain irds" "alloc = (\<lambda>_. True)"
  shows "\<exists>irds'. deser_entries alloc cur es irds = Some irds' \<and> ird_chain irds' \<and>
    ird_ranges irds' = ird_ranges irds @ entry_ranges cur es"
  using assms
proof (induction es arbitrary: cur irds)
  case (Cons e es)
  obtain delta len where e: "e = (delta, len)" by fastforce
  obtain i1 where p: "ird_push alloc irds (add64 cur delta) len = Some i1" "ird_chain i1"
    "ird_ranges i1 = ird_ranges irds @ [(add64 cur delta, len)]"
    using ird_push_ok [OF Cons.prems] by blast
  show ?case using Cons.IH [OF p(2) Cons.prems(2), of "add64 (add64 cur delta) len"] p(1,3) by (simp add: e)
qed simp

lemma deser_frames_ok:
  assumes "ird_chain irds" "alloc = (\<lambda>_. True)" "\<forall>b\<in>set bs. hdr_n_entries b \<le> ents_per_block"
  shows "\<exists>irds'. deser_frames alloc bs irds = Some irds' \<and> ird_chain irds' \<and>
    ird_ranges irds' = ird_ranges irds @ concat (map frame_ranges bs)"
  using assms
proof (induction bs arbitrary: irds)
  case (Cons b bs)
  obtain i1 where p: "deser_entries alloc (hdr_base_pg b) (frame_entries b) irds = Some i1" "ird_chain i1"
    "ird_ranges i1 = ird_ranges irds @ frame_ranges b"
    using deser_entries_ok [OF Cons.prems(1,2)] unfolding frame_ranges_def by blast
  have "\<not> sizeof_ird_frame_header + hdr_n_entries b * sizeof_ird_frame_entry > PAGE_SIZE"
    using Cons.prems(3) by (simp add: ents_per_block_def sizeof_ird_frame_header_def sizeof_ird_frame_entry_def shm_consts)
  then show ?case using Cons.IH [OF p(2) Cons.prems(2)] Cons.prems(3) p(1,3) by simp
qed simp

section \<open>Lemmas: serialisation\<close>

lemma frame_entries_put:
  assumes "hdr_n_entries b = k" "k < ents_per_block"
  shows "frame_entries (put_le 2 8 (k + 1) (put_le 4 (ent_ofs k + 4) len (put_le 4 (ent_ofs k) delta b))) =
    frame_entries b @ [(delta mod 2 ^ 32, len mod 2 ^ 32)]" (is "frame_entries ?b = _")
    "hdr_base_pg (put_le 2 8 (k + 1) (put_le 4 (ent_ofs k + 4) len (put_le 4 (ent_ofs k) delta b))) = hdr_base_pg b"
    "hdr_n_entries (put_le 2 8 (k + 1) (put_le 4 (ent_ofs k + 4) len (put_le 4 (ent_ofs k) delta b))) = k + 1"
proof -
  have k: "k + 1 < 2 ^ 16" using assms(2)
    by (simp add: ents_per_block_def sizeof_ird_frame_header_def sizeof_ird_frame_entry_def shm_consts)
  then show n: "hdr_n_entries ?b = k + 1" by simp
  show "hdr_base_pg ?b = hdr_base_pg b" by (simp add: ent_ofs_def sizeof_ird_frame_header_def)
  have "get_le 4 (ent_ofs i) ?b = get_le 4 (ent_ofs i) b \<and> get_le 4 (ent_ofs i + 4) ?b = get_le 4 (ent_ofs i + 4) b" if "i < k" for i
  proof -
    have "ent_ofs i + 8 \<le> ent_ofs k" using that by (simp add: ent_ofs_def sizeof_ird_frame_entry_def)
    moreover have "10 \<le> ent_ofs i" by (simp add: ent_ofs_def sizeof_ird_frame_header_def)
    ultimately show ?thesis by simp
  qed
  moreover have "get_le 4 (ent_ofs k) ?b = delta mod 2 ^ 32" "get_le 4 (ent_ofs k + 4) ?b = len mod 2 ^ 32"
  proof -
    have "10 \<le> ent_ofs k" by (simp add: ent_ofs_def sizeof_ird_frame_header_def)
    then show "get_le 4 (ent_ofs k) ?b = delta mod 2 ^ 32" "get_le 4 (ent_ofs k + 4) ?b = len mod 2 ^ 32" by simp_all
  qed
  ultimately show "frame_entries ?b = frame_entries b @ [(delta mod 2 ^ 32, len mod 2 ^ 32)]"
    unfolding frame_entries_def n assms(1) by simp
qed

definition ser_inv :: "ser_state \<Rightarrow> (nat \<times> nat) list \<Rightarrow> bool" where
  "ser_inv st rs \<longleftrightarrow> concat (map frame_ranges (sr_blks st)) = rs \<and>
     (\<forall>b\<in>set (butlast (sr_blks st)). hdr_n_entries b = ents_per_block) \<and>
     (if sr_blks st = [] then sr_first st
      else \<not> sr_first st \<and> sr_idx st = hdr_n_entries (last (sr_blks st)) \<and> 0 < sr_idx st \<and> sr_idx st \<le> ents_per_block \<and>
           sr_prev st = entries_end (hdr_base_pg (last (sr_blks st))) (frame_entries (last (sr_blks st))))"

lemma ser_put_frame:
  assumes b: "sr_blks st = bs @ [b]" "\<not> sr_first st" "sr_idx st = hdr_n_entries b" "sr_idx st < ents_per_block"
      "sr_prev st = entries_end (hdr_base_pg b) (frame_entries b)"
    and bs: "\<forall>b\<in>set bs. hdr_n_entries b = ents_per_block"
    and r: "0 < len" "len < 2 ^ 32" "start + len < 2 ^ 64" "sr_prev st \<le> start" "start - sr_prev st < 2 ^ 32"
  shows "ser_inv (ser_put start len st) (concat (map frame_ranges (sr_blks st)) @ [(start, len)])"
    "sr_prev (ser_put start len st) = start + len"
proof -
  let ?k = "hdr_n_entries b" and ?d = "start - sr_prev st"
  let ?b = "put_le 2 8 (?k + 1) (put_le 4 (ent_ofs ?k + 4) len (put_le 4 (ent_ofs ?k) ?d b))"
  have p: "sr_blks (ser_put start len st) = bs @ [?b]" "sr_idx (ser_put start len st) = ?k + 1"
    "sr_first (ser_put start len st) = sr_first st" "sr_prev (ser_put start len st) = start + len"
    using b(1,3) r by (simp_all add: ser_put_def Let_def c_arith)
  note e = frame_entries_put [OF refl b(4) [unfolded b(3)], of len ?d]
  have d: "?d mod 2 ^ 32 = ?d" "len mod 2 ^ 32 = len" using r by simp_all
  have a: "add64 (sr_prev st) ?d = start" "add64 start len = start + len" using r by (simp_all add: c_arith)
  have "frame_ranges ?b = frame_ranges b @ [(start, len)]"
    unfolding frame_ranges_def e d entry_ranges_append b(5) [symmetric] by (simp add: a)
  moreover have "entries_end (hdr_base_pg ?b) (frame_entries ?b) = start + len"
    unfolding e d entries_end_append b(5) [symmetric] by (simp add: a)
  ultimately show "ser_inv (ser_put start len st) (concat (map frame_ranges (sr_blks st)) @ [(start, len)])"
    unfolding ser_inv_def p using b bs e(3) by simp
  show "sr_prev (ser_put start len st) = start + len" by (rule p(4))
qed

lemma ser_open_frame:
  assumes "sr_first st" "start < 2 ^ 64"
  shows "\<exists>b. sr_blks (ser_open init start st) = sr_blks st @ [b] \<and> hdr_n_entries b = 0 \<and> hdr_base_pg b = start \<and>
    frame_entries b = [] \<and> \<not> sr_first (ser_open init start st) \<and> sr_idx (ser_open init start st) = 0 \<and>
    sr_prev (ser_open init start st) = start"
  using assms by (simp add: ser_open_def frame_entries_def)

lemma ser_fresh_frame:
  assumes "sr_first st" "\<forall>b\<in>set (sr_blks st). hdr_n_entries b = ents_per_block"
    and r: "0 < len" "len < 2 ^ 32" "start + len < 2 ^ 64"
  shows "ser_inv (ser_put start len (ser_open init start st)) (concat (map frame_ranges (sr_blks st)) @ [(start, len)])"
    "sr_prev (ser_put start len (ser_open init start st)) = start + len"
proof -
  obtain b where b: "sr_blks (ser_open init start st) = sr_blks st @ [b]" "hdr_n_entries b = 0" "hdr_base_pg b = start"
    "frame_entries b = []" "\<not> sr_first (ser_open init start st)" "sr_idx (ser_open init start st) = 0"
    "sr_prev (ser_open init start st) = start"
    using ser_open_frame [OF assms(1), of start init] r(3) by auto
  have "0 < ents_per_block"
    by (simp add: ents_per_block_def sizeof_ird_frame_header_def sizeof_ird_frame_entry_def shm_consts)
  then show "ser_inv (ser_put start len (ser_open init start st)) (concat (map frame_ranges (sr_blks st)) @ [(start, len)])"
    "sr_prev (ser_put start len (ser_open init start st)) = start + len"
    using ser_put_frame [OF b(1,5), of len start] b assms(2) r by (simp_all add: frame_ranges_def)
qed

lemma ser_range_inv:
  assumes inv: "ser_inv st rs" and r: "0 < len" "len < 2 ^ 32" "start + len < 2 ^ 64"
    and prev: "sr_blks st \<noteq> [] \<Longrightarrow> sr_prev st \<le> start \<and> start - sr_prev st < 2 ^ 32"
  shows "ser_inv (ser_range init (start, len) st) (rs @ [(start, len)])"
    "sr_prev (ser_range init (start, len) st) = start + len"
proof -
  have e0: "0 < ents_per_block"
    by (simp add: ents_per_block_def sizeof_ird_frame_header_def sizeof_ird_frame_entry_def shm_consts)
  have "ser_inv (ser_range init (start, len) st) (rs @ [(start, len)]) \<and>
    sr_prev (ser_range init (start, len) st) = start + len"
  proof (cases "sr_blks st = []")
    case True
    then have "sr_first st" "rs = []" using inv by (auto simp: ser_inv_def)
    moreover have "sr_idx (ser_open init start st) = 0" using calculation by (simp add: ser_open_def)
    ultimately show ?thesis using ser_fresh_frame [of st len start init] True r e0 by (simp add: ser_range_def Let_def)
  next
    case False
    then obtain bs b where b: "sr_blks st = bs @ [b]" by (cases "sr_blks st" rule: rev_cases) auto
    have i: "\<not> sr_first st" "sr_idx st = hdr_n_entries b" "sr_idx st \<le> ents_per_block"
      "sr_prev st = entries_end (hdr_base_pg b) (frame_entries b)" "\<forall>b\<in>set bs. hdr_n_entries b = ents_per_block"
      "concat (map frame_ranges (sr_blks st)) = rs"
      using inv b by (auto simp: ser_inv_def)
    have o: "ser_open init start st = st" using i(1) by (simp add: ser_open_def)
    show ?thesis
    proof (cases "sr_idx st = ents_per_block")
      case True
      then show ?thesis
        using ser_fresh_frame [of "st\<lparr>sr_first := True\<rparr>" len start init] i b r o
        by (auto simp: ser_range_def Let_def)
    next
      case False
      then show ?thesis
        using ser_put_frame [OF b i(1,2) _ i(4,5), of len start] i r prev b o by (auto simp: ser_range_def Let_def)
    qed
  qed
  then show "ser_inv (ser_range init (start, len) st) (rs @ [(start, len)])"
    "sr_prev (ser_range init (start, len) st) = start + len" by simp_all
qed

lemma fold_ser_range:
  assumes "ser_inv st rs" "ranges_up_to rs' (2 ^ 31)" "sr_blks st \<noteq> [] \<Longrightarrow> \<forall>r\<in>set rs'. sr_prev st \<le> fst r"
  shows "ser_inv (fold (ser_range init) rs' st) (rs @ rs')"
  using assms
proof (induction rs' arbitrary: st rs)
  case (Cons r rs')
  obtain start len where [simp]: "r = (start, len)" by fastforce
  have r: "0 < len" "start + len \<le> 2 ^ 31" "\<forall>r\<in>set rs'. start + len \<le> fst r" "ranges_up_to rs' (2 ^ 31)"
    using Cons.prems(2) by (auto simp: ranges_up_to_def)
  have prev: "sr_prev st \<le> start \<and> start - sr_prev st < 2 ^ 32" if "sr_blks st \<noteq> []"
    using Cons.prems(3) [OF that] r(2) by simp
  have i: "ser_inv (ser_range init r st) (rs @ [r])" "sr_prev (ser_range init r st) = start + len"
    using ser_range_inv [OF Cons.prems(1) r(1) _ _ prev] r(2) by simp_all
  show ?case using Cons.IH [OF i(1) r(4)] i(2) r(3) by simp
qed simp

lemma length_entry_ranges [simp]: "length (entry_ranges cur es) = length es"
  by (induction es arbitrary: cur) auto

lemma length_frame_ranges [simp]: "length (frame_ranges b) = hdr_n_entries b"
  by (simp add: frame_ranges_def frame_entries_def)

lemma ser_inv_length:
  assumes "ser_inv st rs"
  shows "length (sr_blks st) = (length rs + ents_per_block - 1) div ents_per_block"
proof (cases "sr_blks st" rule: rev_cases)
  case Nil
  then show ?thesis
    using assms by (simp add: ser_inv_def ents_per_block_def sizeof_ird_frame_header_def sizeof_ird_frame_entry_def shm_consts)
next
  case (snoc bs b)
  let ?e = ents_per_block
  have b: "\<forall>b\<in>set bs. hdr_n_entries b = ?e" "0 < hdr_n_entries b" "hdr_n_entries b \<le> ?e"
    and rs: "rs = concat (map frame_ranges bs) @ frame_ranges b"
    using assms snoc by (auto simp: ser_inv_def)
  have "length (concat (map frame_ranges bs)) = ?e * length bs" using b(1) by (induction bs) simp_all
  then have "length rs + ?e - 1 = (hdr_n_entries b - 1) + ?e * Suc (length bs)" using rs b(2) by simp
  moreover have "hdr_n_entries b - 1 < ?e" using b(2,3) by simp
  ultimately have "(length rs + ?e - 1) div ?e = Suc (length bs)" by (simp only: div_mult_self2 div_less)
  then show ?thesis using snoc by simp
qed

lemma fold_fold_concat: "fold (\<lambda>x. fold f (g x)) xs s = fold f (concat (map g xs)) s"
  by (induction xs arbitrary: s) simp_all

lemma serialize_inv:
  assumes "ranges_up_to (ird_ranges irds) (2 ^ 31)"
  obtains st where "serialize_and_fill_ird_list init irds = sr_blks st" "ser_inv st (ird_ranges irds)"
proof -
  have "ser_inv \<lparr>sr_blks = [], sr_first = True, sr_idx = 0, sr_prev = 0\<rparr> []" by (simp add: ser_inv_def)
  from fold_ser_range [OF this assms, of init] show ?thesis
    using that by (simp add: serialize_and_fill_ird_list_def fold_fold_concat ird_ranges_def)
qed

lemma ser_inv_entries: "ser_inv st rs \<Longrightarrow> b \<in> set (sr_blks st) \<Longrightarrow> hdr_n_entries b \<le> ents_per_block"
  by (cases "sr_blks st" rule: rev_cases) (auto simp: ser_inv_def)

text \<open>C21. Dumping a list of dirty ranges and reading it back gives the same ranges, in as many blocks
  as \<^verbatim>\<open>count_ird_dump_blocks\<close> reserves, when the ranges are sorted and below page 2^31.\<close>

theorem ird_dump_round_trip:
  assumes "ranges_up_to (ird_ranges irds) (2 ^ 31)" "length (ird_ranges irds) < 2 ^ 31"
  shows "\<exists>irds'. deserialize_ird_compact (\<lambda>_. True) (serialize_and_fill_ird_list init irds) = Some irds' \<and>
      ird_ranges irds' = ird_ranges irds \<and> ird_chain irds' \<and>
      length (serialize_and_fill_ird_list init irds) = count_ird_dump_blocks irds"
proof -
  obtain st where st: "serialize_and_fill_ird_list init irds = sr_blks st" "ser_inv st (ird_ranges irds)"
    using serialize_inv [OF assms(1)] .
  have "length (sr_blks st) = count_ird_dump_blocks irds"
    unfolding ser_inv_length [OF st(2)] count_ird_dump_blocks_def Let_def using assms(2)
    by (simp add: ird_ranges_def length_concat o_def ents_per_block_def sizeof_ird_frame_header_def
        sizeof_ird_frame_entry_def shm_consts c_arith)
  moreover have "concat (map frame_ranges (sr_blks st)) = ird_ranges irds" using st(2) by (simp add: ser_inv_def)
  ultimately show ?thesis
    using deser_frames_ok [OF ird_chain_empty(1) refl, of "sr_blks st"] ser_inv_entries [OF st(2)]
    unfolding deserialize_ird_compact_def st(1) by (auto simp: ird_chain_empty(2))
qed

theorem ird_dump_round_trip_witness:
  "let irds = [\<lparr>dirty_pages = [(5, 3), (8, 1), (100, 50)], dirty_blk_nr = 54\<rparr>] in
   ranges_up_to (ird_ranges irds) (2 ^ 31) \<and>
   (\<exists>irds'. deserialize_ird_compact (\<lambda>_. True) (serialize_and_fill_ird_list (\<lambda>_ _. 7) irds) = Some irds' \<and>
     ird_ranges irds' = [(5, 3), (8, 1), (100, 50)] \<and> ird_chain irds' \<and>
     length (serialize_and_fill_ird_list (\<lambda>_ _. 7) irds) = count_ird_dump_blocks irds)"
proof -
  let ?irds = "[\<lparr>dirty_pages = [(5, 3), (8, 1), (100, 50)], dirty_blk_nr = 54\<rparr>]"
  have r: "ird_ranges ?irds = [(5, 3), (8, 1), (100, 50)]" by (simp add: ird_ranges_def)
  have h: "ranges_up_to (ird_ranges ?irds) (2 ^ 31)" "length (ird_ranges ?irds) < 2 ^ 31"
    unfolding r by (simp_all add: ranges_up_to_def)
  show ?thesis using ird_dump_round_trip [OF h, of "\<lambda>_ _. 7"] h(1) unfolding r Let_def by simp
qed

end
