(* ===== verification/Ox_Dirty.thy ===== *)
theory Ox_Dirty
  imports Ox_Prelude
begin

text \<open>
  The counters of dirty pages (\<^verbatim>\<open>devfs/src/common/dirty_mgmt.c\<close>) with which the library file
  systems tell the daemon when to journal.  The code is lock-free: a process has a counter and the value
  at its last update of the global counter, and its threads access them one atomic operation at a time.
  The operations are first given as they run without interference (the library's write calls them so),
  then as steps of a relation over any number of threads of a process, other processes, and the daemon.
\<close>

section \<open>Counters\<close>

text \<open>The counter of the process, its value at the last update of the global counter, and the global
  counter, whose own \<^verbatim>\<open>prev_count\<close> is never read.\<close>

record dirty_page_counters =
  dc_count :: nat
  dc_prev_count :: nat
  dc_global :: nat

definition DIRTY_PAGE_UPDATE_GLOBAL_THRESHOLD :: nat where "DIRTY_PAGE_UPDATE_GLOBAL_THRESHOLD = 1024"
definition DIRTY_PAGE_THRESHOLD :: nat where "DIRTY_PAGE_THRESHOLD = 4096"

definition increment_dirty_page_count :: "nat \<Rightarrow> dirty_page_counters \<Rightarrow> dirty_page_counters" where
  "increment_dirty_page_count n c =
     (let priv_total_prev = dc_prev_count c;
          priv_total_cur = add64 (dc_count c) n;
          diff = (if priv_total_cur \<ge> priv_total_prev then priv_total_cur - priv_total_prev else 0);
          c = c\<lparr>dc_count := priv_total_cur\<rparr>
      in if diff \<ge> DIRTY_PAGE_UPDATE_GLOBAL_THRESHOLD
         then c\<lparr>dc_prev_count := priv_total_cur,
                dc_global := add64 (dc_global c)
                  (diff div DIRTY_PAGE_UPDATE_GLOBAL_THRESHOLD * DIRTY_PAGE_UPDATE_GLOBAL_THRESHOLD)\<rparr>
         else c)"

definition clear_process_dirty_counter :: "dirty_page_counters \<Rightarrow> dirty_page_counters" where
  "clear_process_dirty_counter c =
     (let to_subtract = dc_prev_count c div DIRTY_PAGE_UPDATE_GLOBAL_THRESHOLD * DIRTY_PAGE_UPDATE_GLOBAL_THRESHOLD
      in \<lparr>dc_count = 0, dc_prev_count = 0,
          dc_global = (if dc_global c \<ge> to_subtract then dc_global c - to_subtract else 0)\<rparr>)"

definition check_and_reset_global_dirty_threshold :: "dirty_page_counters \<Rightarrow> bool \<times> dirty_page_counters" where
  "check_and_reset_global_dirty_threshold c =
     (if dc_global c \<ge> DIRTY_PAGE_THRESHOLD then (True, c\<lparr>dc_global := 0\<rparr>) else (False, c))"

definition init_dirty_mgmt :: "dirty_page_counters" where
  "init_dirty_mgmt = \<lparr>dc_count = 0, dc_prev_count = 0, dc_global = 0\<rparr>"

section \<open>Steps\<close>

text \<open>Where a thread is in \<^verbatim>\<open>increment_dirty_page_count(1)\<close>: before the load of
  \<^verbatim>\<open>prev_count\<close>, before the addition to \<^verbatim>\<open>count\<close>, before the store of \<^verbatim>\<open>prev_count\<close>
  (with the new count and the difference), before the addition to the global counter.\<close>

datatype inc_pc = Idle | Loaded nat | Crossed nat nat | Adding nat

text \<open>\<open>dr_check\<close> is the value the daemon has loaded.  The last four fields are auxiliary and no step
  depends on them: the value of \<^verbatim>\<open>prev_count\<close> each addition to \<^verbatim>\<open>count\<close> has seen, what this
  process and what the others have added to the global counter, and what resets and other processes
  took away.\<close>

record dirty_run =
  dr_c :: dirty_page_counters
  dr_pc :: "nat \<Rightarrow> inc_pc"
  dr_check :: "nat option"
  dr_seen :: "nat list"
  dr_own :: nat
  dr_others :: nat
  dr_lost :: nat

definition inc_load :: "nat \<Rightarrow> dirty_run \<Rightarrow> dirty_run" where
  "inc_load t s = s\<lparr>dr_pc := (dr_pc s)(t := Loaded (dc_prev_count (dr_c s)))\<rparr>"

definition inc_count :: "nat \<Rightarrow> nat \<Rightarrow> dirty_run \<Rightarrow> dirty_run" where
  "inc_count t prev s =
     (let cur = add64 (dc_count (dr_c s)) 1;
          diff = (if cur \<ge> prev then cur - prev else 0)
      in s\<lparr>dr_c := (dr_c s)\<lparr>dc_count := cur\<rparr>,
           dr_pc := (dr_pc s)(t := if diff \<ge> DIRTY_PAGE_UPDATE_GLOBAL_THRESHOLD then Crossed cur diff else Idle),
           dr_seen := dr_seen s @ [prev]\<rparr>)"

definition inc_store :: "nat \<Rightarrow> nat \<Rightarrow> nat \<Rightarrow> dirty_run \<Rightarrow> dirty_run" where
  "inc_store t cur diff s = s\<lparr>dr_c := (dr_c s)\<lparr>dc_prev_count := cur\<rparr>, dr_pc := (dr_pc s)(t := Adding diff)\<rparr>"

definition inc_global :: "nat \<Rightarrow> nat \<Rightarrow> dirty_run \<Rightarrow> dirty_run" where
  "inc_global t diff s =
     (let n = diff div DIRTY_PAGE_UPDATE_GLOBAL_THRESHOLD * DIRTY_PAGE_UPDATE_GLOBAL_THRESHOLD
      in s\<lparr>dr_c := (dr_c s)\<lparr>dc_global := add64 (dc_global (dr_c s)) n\<rparr>, dr_pc := (dr_pc s)(t := Idle), dr_own := dr_own s + n\<rparr>)"

definition check_load :: "dirty_run \<Rightarrow> dirty_run" where
  "check_load s = s\<lparr>dr_check := Some (dc_global (dr_c s))\<rparr>"

definition check_store :: "nat \<Rightarrow> dirty_run \<Rightarrow> dirty_run" where
  "check_store g s =
     (if g \<ge> DIRTY_PAGE_THRESHOLD
      then s\<lparr>dr_c := (dr_c s)\<lparr>dc_global := 0\<rparr>, dr_check := None, dr_lost := dr_lost s + dc_global (dr_c s)\<rparr>
      else s\<lparr>dr_check := None\<rparr>)"

text \<open>The process has \<open>T\<close> threads.  Other processes add to the global counter, and take from it when they
  clear their counter or set the global one to 0 at their start (at most what it holds).\<close>

inductive dirty_step :: "nat \<Rightarrow> dirty_run \<Rightarrow> dirty_run \<Rightarrow> bool" for T where
  load: "t < T \<Longrightarrow> dr_pc s t = Idle \<Longrightarrow> dirty_step T s (inc_load t s)"
| count: "t < T \<Longrightarrow> dr_pc s t = Loaded prev \<Longrightarrow> dirty_step T s (inc_count t prev s)"
| store: "t < T \<Longrightarrow> dr_pc s t = Crossed cur diff \<Longrightarrow> dirty_step T s (inc_store t cur diff s)"
| add_global: "t < T \<Longrightarrow> dr_pc s t = Adding diff \<Longrightarrow> dirty_step T s (inc_global t diff s)"
| others: "dirty_step T s (s\<lparr>dr_c := (dr_c s)\<lparr>dc_global := add64 (dc_global (dr_c s)) n\<rparr>, dr_others := dr_others s + n\<rparr>)"
| take: "n \<le> dc_global (dr_c s) \<Longrightarrow>
    dirty_step T s (s\<lparr>dr_c := (dr_c s)\<lparr>dc_global := dc_global (dr_c s) - n\<rparr>, dr_lost := dr_lost s + n\<rparr>)"
| check: "dr_check s = None \<Longrightarrow> dirty_step T s (check_load s)"
| reset: "dr_check s = Some g \<Longrightarrow> dirty_step T s (check_store g s)"


section \<open>Lemmas: one thread alone\<close>

text \<open>Without interference the steps are the operations.\<close>

lemma increment_alone:
  assumes "t < T" "dr_pc s t = Idle"
  shows "\<exists>s'. (dirty_step T)\<^sup>*\<^sup>* s s' \<and> dr_pc s' = dr_pc s \<and> dr_c s' = increment_dirty_page_count 1 (dr_c s)"
proof -
  let ?p = "dc_prev_count (dr_c s)" and ?cur = "add64 (dc_count (dr_c s)) 1"
  let ?diff = "if ?cur \<ge> ?p then ?cur - ?p else 0"
  let ?s2 = "inc_count t ?p (inc_load t s)"
  have "dirty_step T s (inc_load t s)" using assms by (intro dirty_step.load)
  moreover have "dirty_step T (inc_load t s) ?s2" using assms(1) by (intro dirty_step.count) (simp_all add: inc_load_def)
  ultimately have r: "(dirty_step T)\<^sup>*\<^sup>* s ?s2" by (rule converse_rtranclp_into_rtranclp [OF _ r_into_rtranclp])
  have up: "(dr_pc s)(t := Idle) = dr_pc s" using assms(2) by auto
  show ?thesis
  proof (cases "?diff \<ge> DIRTY_PAGE_UPDATE_GLOBAL_THRESHOLD")
    case True
    let ?s3 = "inc_store t ?cur ?diff ?s2" and ?s4 = "inc_global t ?diff (inc_store t ?cur ?diff ?s2)"
    have pc: "dr_pc ?s2 t = Crossed ?cur ?diff" using True by (simp add: inc_count_def inc_load_def Let_def del: One_nat_def)
    have "dirty_step T ?s2 ?s3" using assms(1) pc by (rule dirty_step.store)
    moreover have "dirty_step T ?s3 ?s4" using assms(1) by (rule dirty_step.add_global) (simp add: inc_store_def)
    ultimately have "(dirty_step T)\<^sup>*\<^sup>* s ?s4" using r by (meson rtranclp.rtrancl_into_rtrancl)
    moreover have "dr_pc ?s4 = dr_pc s" using up by (simp add: inc_global_def inc_store_def inc_count_def inc_load_def Let_def)
    moreover have "dr_c ?s4 = increment_dirty_page_count 1 (dr_c s)"
      using True by (simp add: inc_global_def inc_store_def inc_count_def inc_load_def increment_dirty_page_count_def Let_def del: One_nat_def)
    ultimately show ?thesis by blast
  next
    case False
    then have "dr_pc ?s2 = dr_pc s" "dr_c ?s2 = increment_dirty_page_count 1 (dr_c s)"
      using up by (simp_all add: inc_count_def inc_load_def increment_dirty_page_count_def Let_def del: One_nat_def)
    then show ?thesis using r by blast
  qed
qed

section \<open>Lemmas: what the additions are worth\<close>

text \<open>The addition with index \<open>i\<close> made the count \<open>i + 1\<close> and has seen \<open>h ! i\<close>.\<close>

definition worth :: "nat list \<Rightarrow> nat \<Rightarrow> nat" where
  "worth h i = (Suc i - h ! i) div 1024 * 1024"







section \<open>Lemmas: the invariant\<close>





lemma worth_append [simp]: "i < length h \<Longrightarrow> worth (h @ h') i = worth h i"
  by (simp add: worth_def nth_append)









section \<open>Property\<close>








end
