(* ===== verification/Ox_Libfs.thy ===== *)
theory Ox_Libfs
  imports Ox_Shm Ox_Dirty
begin

unbundle bit_operations_syntax

text \<open>
  Reading and writing an open file in the library file system (\<^verbatim>\<open>libfs/src/filesystem/read_write.c\<close>,
  \<^verbatim>\<open>journal.c\<close>, the calls of \<^verbatim>\<open>libfs/src/posix/posix_interface.c\<close>).  A write copies into the mapped file page by page, under
  the lock bit of each page, and leaves the dirty bits that the daemon collects (\<^verbatim>\<open>Ox_Shm\<close>).
\<close>

section \<open>Open files\<close>

text \<open>What the process shares with the daemon about a file: its mapped bytes, the shared memory with the
  page states, the size and the state word; and the position of the open file.  The mappings exist.\<close>

record lfs_file =
  lf_pos :: nat
  lf_data :: "nat \<Rightarrow> 8 word"
  lf_shm :: shm
  lf_size :: nat
  lf_state :: "64 word"
  lf_counters :: dirty_page_counters

definition SHM_USE_JOURNAL :: "64 word" where "SHM_USE_JOURNAL = push_bit 12 1"
definition SHM_RUNNING_TX :: "64 word" where "SHM_RUNNING_TX = push_bit 13 1"
definition SHM_I_DELETED :: "64 word" where "SHM_I_DELETED = push_bit 14 1"
definition SHM_DATA_DIRTY :: "64 word" where "SHM_DATA_DIRTY = push_bit 15 1"
definition SHM_RUNNING_TX_REQUESTED :: "64 word" where "SHM_RUNNING_TX_REQUESTED = push_bit 16 1"

definition shared_data_dirty :: "lfs_file \<Rightarrow> lfs_file" where
  "shared_data_dirty f = f\<lparr>lf_state := lf_state f OR SHM_DATA_DIRTY\<rparr>"

text \<open>\<open>sd\<close> is what the daemon does to the state word when the request to add the file to the running
  transaction arrives.  \<^verbatim>\<open>libfs_journal_end\<close> spins until the daemon has answered.\<close>

definition libfs_journal_start :: "(64 word \<Rightarrow> 64 word) \<Rightarrow> lfs_file \<Rightarrow> bool \<times> lfs_file" where
  "libfs_journal_start sd f =
     (if lf_state f AND (SHM_RUNNING_TX OR SHM_RUNNING_TX_REQUESTED) \<noteq> 0 then (False, f)
      else (True, f\<lparr>lf_state := sd (lf_state f OR SHM_RUNNING_TX_REQUESTED)\<rparr>))"

definition libfs_journal_end :: "lfs_file \<Rightarrow> ox_error + lfs_file" where
  "libfs_journal_end f =
     (if lf_state f AND (SHM_RUNNING_TX OR SHM_I_DELETED) = 0 then Inl Blocked
      else Inr (f\<lparr>lf_state := lf_state f AND NOT SHM_RUNNING_TX_REQUESTED\<rparr>))"

section \<open>Writing\<close>

text \<open>The groups of the pages of a write.  Writes above 32 MiB walk in steps of a group.\<close>

function dirty_groups_from :: "shm \<Rightarrow> nat \<Rightarrow> nat \<Rightarrow> shm" where
  "dirty_groups_from m pg end_pg =
     (if pg < end_pg then dirty_groups_from (dirty_page_group m pg) (pg + PEB_COVERAGE div PAGE_SIZE) end_pg else m)"
  by pat_completeness auto
termination by (relation "measure (\<lambda>(m, pg, end_pg). end_pg - pg)") (auto simp: shm_consts)

declare dirty_groups_from.simps [simp del]

definition dirty_groups :: "shm \<Rightarrow> nat \<Rightarrow> nat \<Rightarrow> nat \<Rightarrow> shm" where
  "dirty_groups m count start_pg end_pg =
     (if count > PEB_COVERAGE then dirty_groups_from m start_pg end_pg
      else let m = dirty_page_group m start_pg
           in if end_pg \<noteq> start_pg then dirty_page_group m end_pg else m)"

text \<open>One page of a write: the loop variables are the bytes that remain, the file offset and the
  offset in the buffer.\<close>

definition libfs_write_page ::
  "nat \<Rightarrow> (nat \<Rightarrow> 8 word) \<Rightarrow> nat \<Rightarrow> nat \<Rightarrow> nat \<Rightarrow> lfs_file \<times> nat \<times> nat \<times> nat \<Rightarrow>
   ox_error + (lfs_file \<times> nat \<times> nat \<times> nat)" where
  "libfs_write_page maxfs buf f_size f_last_page pi st =
     (case st of (f, bytes_remain, cur_ofs, buf_ofs) \<Rightarrow>
        let ofs_in_page = sub64 cur_ofs (pi * PAGE_SIZE);
            bytes_to_copy = u32 (sub64 PAGE_SIZE ofs_in_page);
            bytes_to_copy = (if bytes_to_copy > bytes_remain then bytes_remain else bytes_to_copy)
        in case lock_page_bit maxfs (lf_shm f) pi of
             Inl e \<Rightarrow> Inl e
           | Inr m \<Rightarrow>
               let m = (if pi > f_last_page \<or> (f_last_page = 0 \<and> f_size = 0) then set_skipread_bit maxfs m pi
                        else if bytes_to_copy = PAGE_SIZE then set_skipread_bit maxfs m pi
                        else clear_skipread_bit maxfs m pi);
                   data = copy_bytes bytes_to_copy cur_ofs (lf_data f) buf_ofs buf;
                   m = uptodate_page_bit maxfs m pi;
                   (m, was_clean) = dirty_page_bit maxfs m pi;
                   c = (if was_clean then increment_dirty_page_count 1 (lf_counters f) else lf_counters f);
                   m = unlock_page_bit maxfs m pi
               in Inr (f\<lparr>lf_data := data, lf_shm := m, lf_counters := c\<rparr>,
                       sub32 bytes_remain bytes_to_copy, add64 cur_ofs bytes_to_copy, add64 buf_ofs bytes_to_copy))"

fun libfs_write_pages ::
  "nat \<Rightarrow> (nat \<Rightarrow> 8 word) \<Rightarrow> nat \<Rightarrow> nat \<Rightarrow> nat list \<Rightarrow> lfs_file \<times> nat \<times> nat \<times> nat \<Rightarrow>
   ox_error + (lfs_file \<times> nat \<times> nat \<times> nat)" where
  "libfs_write_pages maxfs buf f_size f_last_page [] st = Inr st"
| "libfs_write_pages maxfs buf f_size f_last_page (pi # pis) st =
     (case libfs_write_page maxfs buf f_size f_last_page pi st of
        Inl e \<Rightarrow> Inl e
      | Inr st' \<Rightarrow> libfs_write_pages maxfs buf f_size f_last_page pis st')"

text \<open>\<^verbatim>\<open>libfs_write\<close>: the number of bytes, the new position and the file.  \<open>journalled0\<close> is the
  value of the uninitialised variable \<^verbatim>\<open>journalled\<close>.\<close>

definition libfs_write ::
  "nat \<Rightarrow> (64 word \<Rightarrow> 64 word) \<Rightarrow> bool \<Rightarrow> lfs_file \<Rightarrow> (nat \<Rightarrow> 8 word) \<Rightarrow> nat \<Rightarrow> nat \<Rightarrow>
   ox_error + (nat \<times> nat \<times> lfs_file)" where
  "libfs_write maxfs sd journalled0 f buf count pos =
     (let start_pg_idx = pos div PAGE_SIZE;
          end_pg_idx = sub64 (add64 pos count) 1 div PAGE_SIZE;
          f = f\<lparr>lf_shm := fold (\<lambda>pi m. shm_alloc_check m pi) [start_pg_idx..<end_pg_idx + 1] (lf_shm f)\<rparr>;
          f = shared_data_dirty f;
          (journalled, f) = (if lf_state f AND SHM_USE_JOURNAL \<noteq> 0 then libfs_journal_start sd f else (journalled0, f));
          f_size = lf_size f;
          size_updated = (add64 pos count > f_size);
          f_last_page = (if f_size \<noteq> 0 then (f_size - 1) div PAGE_SIZE else 0);
          f = f\<lparr>lf_shm := dirty_groups (lf_shm f) count start_pg_idx end_pg_idx\<rparr>
      in case libfs_write_pages maxfs buf f_size f_last_page [start_pg_idx..<end_pg_idx + 1] (f, u32 count, pos, 0) of
           Inl e \<Rightarrow> Inl e
         | Inr (f, _) \<Rightarrow>
             let f = (if size_updated then f\<lparr>lf_size := add64 pos count\<rparr> else f)
             in case (if journalled then libfs_journal_end f else Inr f) of
                  Inl e \<Rightarrow> Inl e
                | Inr f \<Rightarrow> Inr (count, add64 pos count, f))"

section \<open>Reading\<close>

definition libfs_read_page ::
  "(nat \<Rightarrow> 8 word) \<Rightarrow> nat \<Rightarrow> (nat \<Rightarrow> 8 word) \<times> nat \<times> nat \<times> nat \<Rightarrow> (nat \<Rightarrow> 8 word) \<times> nat \<times> nat \<times> nat" where
  "libfs_read_page data pg_idx st =
     (case st of (buf, bytes_remain, cur_ofs, buf_ofs) \<Rightarrow>
        let ofs_in_page = sub64 cur_ofs (pg_idx * PAGE_SIZE);
            bytes_to_copy = sub64 PAGE_SIZE ofs_in_page;
            bytes_to_copy = (if bytes_to_copy > bytes_remain then bytes_remain else bytes_to_copy)
        in (copy_bytes bytes_to_copy buf_ofs buf cur_ofs data,
            bytes_remain - bytes_to_copy, add64 cur_ofs bytes_to_copy, add64 buf_ofs bytes_to_copy))"

definition libfs_read ::
  "lfs_file \<Rightarrow> (nat \<Rightarrow> 8 word) \<Rightarrow> nat \<Rightarrow> nat \<Rightarrow> ox_error + (nat \<times> nat \<times> (nat \<Rightarrow> 8 word))" where
  "libfs_read f buf count pos =
     (let start_pg_idx = pos div PAGE_SIZE;
          end_pg_idx = sub64 (add64 pos count) 1 div PAGE_SIZE;
          sz = lf_size f
      in if sz < pos then Inl Invalid_arg
         else let read_bytes = (if add64 pos count > sz then sz - pos else count);
                  (buf', _) = fold (libfs_read_page (lf_data f)) [start_pg_idx..<end_pg_idx + 1] (buf, read_bytes, pos, 0)
              in Inr (read_bytes, add64 pos read_bytes, buf'))"

section \<open>System calls\<close>

text \<open>The calls on an open file.  A result \<open>Inl\<close> stands for \<open>-1\<close> with \<^verbatim>\<open>errno\<close>.\<close>

definition libfs_posix_read :: "lfs_file \<Rightarrow> (nat \<Rightarrow> 8 word) \<Rightarrow> nat \<Rightarrow> ox_error + (nat \<times> lfs_file \<times> (nat \<Rightarrow> 8 word))" where
  "libfs_posix_read f buf count =
     (case libfs_read f buf count (lf_pos f) of
        Inl e \<Rightarrow> Inl e
      | Inr (n, pos, buf') \<Rightarrow> Inr (n, if n > 0 then f\<lparr>lf_pos := pos\<rparr> else f, buf'))"

definition libfs_posix_pread64 :: "lfs_file \<Rightarrow> (nat \<Rightarrow> 8 word) \<Rightarrow> nat \<Rightarrow> nat \<Rightarrow> ox_error + (nat \<times> (nat \<Rightarrow> 8 word))" where
  "libfs_posix_pread64 f buf count pos =
     (case libfs_read f buf count pos of Inl e \<Rightarrow> Inl e | Inr (n, _, buf') \<Rightarrow> Inr (n, buf'))"

definition libfs_posix_write ::
  "nat \<Rightarrow> (64 word \<Rightarrow> 64 word) \<Rightarrow> bool \<Rightarrow> lfs_file \<Rightarrow> (nat \<Rightarrow> 8 word) \<Rightarrow> nat \<Rightarrow> ox_error + (nat \<times> lfs_file)" where
  "libfs_posix_write maxfs sd j0 f buf count =
     (if add64 (lf_pos f) count > maxfs then Inl No_space
      else case libfs_write maxfs sd j0 f buf count (lf_pos f) of
             Inl e \<Rightarrow> Inl e
           | Inr (n, pos, f') \<Rightarrow> Inr (n, if n > 0 then f'\<lparr>lf_pos := pos\<rparr> else f'))"

definition libfs_posix_pwrite64 ::
  "nat \<Rightarrow> (64 word \<Rightarrow> 64 word) \<Rightarrow> bool \<Rightarrow> lfs_file \<Rightarrow> (nat \<Rightarrow> 8 word) \<Rightarrow> nat \<Rightarrow> nat \<Rightarrow> ox_error + (nat \<times> lfs_file)" where
  "libfs_posix_pwrite64 maxfs sd j0 f buf count pos =
     (if add64 pos count > maxfs then Inl No_space
      else case libfs_write maxfs sd j0 f buf count pos of Inl e \<Rightarrow> Inl e | Inr (n, _, f') \<Rightarrow> Inr (n, f'))"

datatype seek_origin = SEEK_SET | SEEK_CUR | SEEK_END | SEEK_invalid

fun libfs_posix_lseek :: "lfs_file \<Rightarrow> nat \<Rightarrow> seek_origin \<Rightarrow> ox_error + (nat \<times> lfs_file)" where
  "libfs_posix_lseek f offset SEEK_SET = Inr (u32 offset, f\<lparr>lf_pos := offset\<rparr>)"
| "libfs_posix_lseek f offset SEEK_CUR = Inr (u32 (add64 (lf_pos f) offset), f\<lparr>lf_pos := add64 (lf_pos f) offset\<rparr>)"
| "libfs_posix_lseek f offset SEEK_END = Inr (u32 (lf_size f), f\<lparr>lf_pos := lf_size f\<rparr>)"
| "libfs_posix_lseek f offset SEEK_invalid = Inl Invalid_arg"

section \<open>Lemmas: pages of a write\<close>

lemma copy_bytes_append:
  "copy_bytes n2 (pos + n1) (copy_bytes n1 pos d 0 buf) n1 buf = copy_bytes (n1 + n2) pos d 0 buf"
  by (auto simp: copy_bytes_def fun_eq_iff)

lemma copy_bytes_0 [simp]: "copy_bytes 0 off d so src = d"
  by (auto simp: copy_bytes_def fun_eq_iff)

text \<open>The offset reached after the pages below \<open>pi\<close>.\<close>

definition ofs_at :: "nat \<Rightarrow> nat \<Rightarrow> nat \<Rightarrow> nat" where
  "ofs_at pos count pi = max pos (min (pos + count) (pi * PAGE_SIZE))"

lemma page_chunk:
  assumes "pos div PAGE_SIZE \<le> pi" "pi * PAGE_SIZE < pos + count"
  shows "ofs_at pos count pi = max pos (pi * PAGE_SIZE)" "ofs_at pos count (Suc pi) = min (pos + count) (Suc pi * PAGE_SIZE)"
    "pi * PAGE_SIZE \<le> ofs_at pos count pi" "ofs_at pos count pi < Suc pi * PAGE_SIZE" "pos \<le> ofs_at pos count pi"
    "ofs_at pos count pi \<le> ofs_at pos count (Suc pi)" "ofs_at pos count (Suc pi) \<le> pos + count"
proof -
  have "pos < Suc (pos div PAGE_SIZE) * PAGE_SIZE" by (simp add: PAGE_SIZE_def dividend_less_div_times)
  also have "\<dots> \<le> Suc pi * PAGE_SIZE" using assms(1) by (intro mult_le_mono) simp_all
  finally have "pos < Suc pi * PAGE_SIZE" .
  then show "ofs_at pos count pi = max pos (pi * PAGE_SIZE)" "ofs_at pos count (Suc pi) = min (pos + count) (Suc pi * PAGE_SIZE)"
    "pi * PAGE_SIZE \<le> ofs_at pos count pi" "ofs_at pos count pi < Suc pi * PAGE_SIZE" "pos \<le> ofs_at pos count pi"
    "ofs_at pos count pi \<le> ofs_at pos count (Suc pi)" "ofs_at pos count (Suc pi) \<le> pos + count"
    using assms(2) by (auto simp: ofs_at_def PAGE_SIZE_def)
qed

lemma chunk_size:
  assumes "pos div PAGE_SIZE \<le> pi" "pi * PAGE_SIZE < pos + count" "pos + count < 2 ^ 63" "cur = ofs_at pos count pi"
  shows "sub64 PAGE_SIZE (sub64 cur (pi * PAGE_SIZE)) = Suc pi * PAGE_SIZE - cur"
    "min (pos + count - cur) (Suc pi * PAGE_SIZE - cur) = ofs_at pos count (Suc pi) - cur"
    "Suc pi * PAGE_SIZE - cur \<le> PAGE_SIZE"
proof -
  note c = page_chunk [OF assms(1,2)]
  have "cur < 2 ^ 63" using c(6,7) assms(3,4) by simp
  then have "sub64 cur (pi * PAGE_SIZE) = cur - pi * PAGE_SIZE" using c(3) assms(4) by (simp add: c_arith)
  moreover have "cur - pi * PAGE_SIZE \<le> PAGE_SIZE" using c(4) assms(4) by simp
  ultimately show "sub64 PAGE_SIZE (sub64 cur (pi * PAGE_SIZE)) = Suc pi * PAGE_SIZE - cur"
    using c(3) assms(4) by (simp add: c_arith PAGE_SIZE_def)
  show "min (pos + count - cur) (Suc pi * PAGE_SIZE - cur) = ofs_at pos count (Suc pi) - cur"
    using c(2,5) assms(4) by simp
  show "Suc pi * PAGE_SIZE - cur \<le> PAGE_SIZE" using c(3) assms(4) by simp
qed

text \<open>The page states after the pages of a write below \<open>n\<close> are done.\<close>

definition skips_read :: "nat \<Rightarrow> nat \<Rightarrow> nat \<Rightarrow> nat \<Rightarrow> nat \<Rightarrow> bool" where
  "skips_read f_size f_last_page pos count pi \<longleftrightarrow> pi > f_last_page \<or> (f_last_page = 0 \<and> f_size = 0) \<or>
     (pos \<le> pi * PAGE_SIZE \<and> Suc pi * PAGE_SIZE \<le> pos + count)"

definition write_bits :: "nat \<Rightarrow> shm \<Rightarrow> nat \<Rightarrow> nat \<Rightarrow> nat \<Rightarrow> nat \<Rightarrow> nat \<Rightarrow> nat \<Rightarrow> page_state \<Rightarrow> bool" where
  "write_bits maxfs m f_size f_last_page pos count n p ty =
     (if pos div PAGE_SIZE \<le> p \<and> p < n
      then (case ty of DIRTYBIT \<Rightarrow> True | LOCKBIT \<Rightarrow> False | UPTODATEBIT \<Rightarrow> True
            | SKIPREAD_BIT \<Rightarrow> skips_read f_size f_last_page pos count p)
      else page_bit maxfs m p ty)"

definition write_inv ::
  "nat \<Rightarrow> (nat \<Rightarrow> 8 word) \<Rightarrow> nat \<Rightarrow> nat \<Rightarrow> lfs_file \<Rightarrow> nat \<Rightarrow> nat \<Rightarrow> nat \<Rightarrow> lfs_file \<times> nat \<times> nat \<times> nat \<Rightarrow> bool" where
  "write_inv maxfs buf f_size f_last f0 pos count n st \<longleftrightarrow>
     (case st of (f, bytes_remain, cur_ofs, buf_ofs) \<Rightarrow>
        cur_ofs = ofs_at pos count n \<and> bytes_remain = pos + count - cur_ofs \<and> buf_ofs = cur_ofs - pos \<and>
        lf_data f = copy_bytes (cur_ofs - pos) pos (lf_data f0) 0 buf \<and>
        (\<forall>p ty. page_bit maxfs (lf_shm f) p ty = write_bits maxfs (lf_shm f0) f_size f_last pos count n p ty) \<and>
        (\<forall>a<peb maxfs 0. lf_shm f a = lf_shm f0 a) \<and>
        lf_size f = lf_size f0 \<and> lf_state f = lf_state f0 \<and> lf_pos f = lf_pos f0)"

lemma page_state_below:
  "a < peb maxfs 0 \<Longrightarrow> set_page_state maxfs m p ty a = m a" "a < peb maxfs 0 \<Longrightarrow> clear_page_state maxfs m p ty a = m a"
  using get_page_bits_ge [of maxfs p ty] by (auto simp: set_page_state_def clear_page_state_def Let_def)

lemma write_page_bits:
  assumes "page_bit maxfs m pi LOCKBIT = False"
    "m1 = (if sk then set_skipread_bit maxfs (set_page_state maxfs m pi LOCKBIT) pi
           else clear_skipread_bit maxfs (set_page_state maxfs m pi LOCKBIT) pi)"
    "m' = unlock_page_bit maxfs (set_page_state maxfs (uptodate_page_bit maxfs m1 pi) pi DIRTYBIT) pi"
  shows "page_bit maxfs m' p ty = (if p = pi then (case ty of DIRTYBIT \<Rightarrow> True | LOCKBIT \<Rightarrow> False | UPTODATEBIT \<Rightarrow> True | SKIPREAD_BIT \<Rightarrow> sk)
      else page_bit maxfs m p ty)"
    "a < peb maxfs 0 \<Longrightarrow> m' a = m a"
  using assms
  by (cases ty; auto simp: unlock_page_bit_def uptodate_page_bit_def set_skipread_bit_def clear_skipread_bit_def
      page_bit_set page_bit_clear)
    (auto simp: unlock_page_bit_def uptodate_page_bit_def set_skipread_bit_def clear_skipread_bit_def page_state_below assms)

lemma libfs_write_page_inv:
  assumes inv: "write_inv maxfs buf f_size f_last f0 pos count pi st"
    and pi: "pos div PAGE_SIZE \<le> pi" "pi * PAGE_SIZE < pos + count" "pos + count < 2 ^ 63" "count < 2 ^ 32"
    and lk: "\<not> page_bit maxfs (lf_shm f0) pi LOCKBIT"
  shows "\<exists>st'. libfs_write_page maxfs buf f_size f_last pi st = Inr st' \<and> write_inv maxfs buf f_size f_last f0 pos count (Suc pi) st'"
proof -
  obtain f rem cur bo where st: "st = (f, rem, cur, bo)" by (metis prod_cases4)
  have i: "cur = ofs_at pos count pi" "rem = pos + count - cur" "bo = cur - pos"
    "lf_data f = copy_bytes (cur - pos) pos (lf_data f0) 0 buf"
    "\<And>p ty. page_bit maxfs (lf_shm f) p ty = write_bits maxfs (lf_shm f0) f_size f_last pos count pi p ty"
    "\<And>a. a < peb maxfs 0 \<Longrightarrow> lf_shm f a = lf_shm f0 a"
    "lf_size f = lf_size f0" "lf_state f = lf_state f0" "lf_pos f = lf_pos f0"
    using inv by (simp_all add: write_inv_def st)
  note c = page_chunk [OF pi(1,2)] and s = chunk_size [OF pi(1-3) i(1)]
  let ?n = "ofs_at pos count (Suc pi)"
  let ?sk = "skips_read f_size f_last pos count pi"
  have b: "(if u32 (sub64 PAGE_SIZE (sub64 cur (pi * PAGE_SIZE))) > rem then rem else u32 (sub64 PAGE_SIZE (sub64 cur (pi * PAGE_SIZE)))) = ?n - cur"
  proof -
    have "u32 (Suc pi * PAGE_SIZE - cur) = Suc pi * PAGE_SIZE - cur" using s(3) by (simp add: c_arith PAGE_SIZE_def)
    then show ?thesis using s(1,2) i(2) by (simp add: min_def split: if_splits)
  qed
  have le: "pos \<le> cur" "cur \<le> ?n" "?n \<le> pos + count" using c i(1) by simp_all
  have ar: "sub32 rem (?n - cur) = pos + count - ?n" "add64 cur (?n - cur) = ?n" "add64 bo (?n - cur) = ?n - pos"
    using le i(2,3) pi(3,4) by (simp_all add: c_arith)
  have full: "?n - cur = PAGE_SIZE \<longleftrightarrow> pos \<le> pi * PAGE_SIZE \<and> Suc pi * PAGE_SIZE \<le> pos + count"
    using c(1,2) i(1) pi(1,2) by (auto simp: PAGE_SIZE_def)
  have nl: "\<not> page_bit maxfs (lf_shm f) pi LOCKBIT" using lk by (simp add: i(5) write_bits_def)
  define m1 where "m1 = (if ?sk then set_skipread_bit maxfs (set_page_state maxfs (lf_shm f) pi LOCKBIT) pi
      else clear_skipread_bit maxfs (set_page_state maxfs (lf_shm f) pi LOCKBIT) pi)"
  define m' where "m' = unlock_page_bit maxfs (set_page_state maxfs (uptodate_page_bit maxfs m1 pi) pi DIRTYBIT) pi"
  have m1: "(if pi > f_last \<or> (f_last = 0 \<and> f_size = 0) then set_skipread_bit maxfs (set_page_state maxfs (lf_shm f) pi LOCKBIT) pi
      else if ?n - cur = PAGE_SIZE then set_skipread_bit maxfs (set_page_state maxfs (lf_shm f) pi LOCKBIT) pi
      else clear_skipread_bit maxfs (set_page_state maxfs (lf_shm f) pi LOCKBIT) pi) = m1"
    unfolding m1_def skips_read_def full by simp
  obtain c' where r: "libfs_write_page maxfs buf f_size f_last pi st =
      Inr (f\<lparr>lf_data := copy_bytes (?n - cur) cur (lf_data f) bo buf, lf_shm := m', lf_counters := c'\<rparr>,
           pos + count - ?n, ?n, ?n - pos)"
    using nl unfolding libfs_write_page_def st prod.case Let_def b lock_page_bit_def
    by (simp add: m1 ar m'_def dirty_page_bit_def split: prod.splits)
  have data: "copy_bytes (?n - cur) cur (lf_data f) bo buf = copy_bytes (?n - pos) pos (lf_data f0) 0 buf"
    using copy_bytes_append [of "?n - cur" pos "cur - pos" "lf_data f0" buf] le i(3,4) by simp
  have bits: "page_bit maxfs m' p ty = write_bits maxfs (lf_shm f0) f_size f_last pos count (Suc pi) p ty" for p ty
    using write_page_bits(1) [OF _ m1_def m'_def, of p ty] nl pi(1) by (auto simp: i(5) write_bits_def split: page_state.splits)
  have "m' a = lf_shm f0 a" if "a < peb maxfs 0" for a
    using write_page_bits(2) [OF _ m1_def m'_def that] nl i(6) [OF that] by simp
  then show ?thesis using r data bits i(7-9) by (simp add: write_inv_def)
qed

lemma libfs_write_pages_inv:
  assumes "write_inv maxfs buf f_size f_last f0 pos count n st" "pos div PAGE_SIZE \<le> n"
    and "pos + count < 2 ^ 63" "count < 2 ^ 32" "n \<le> e" "e * PAGE_SIZE < pos + count + PAGE_SIZE"
    and "\<forall>p. n \<le> p \<and> p < e \<longrightarrow> \<not> page_bit maxfs (lf_shm f0) p LOCKBIT"
  shows "\<exists>st'. libfs_write_pages maxfs buf f_size f_last [n..<e] st = Inr st' \<and>
    write_inv maxfs buf f_size f_last f0 pos count e st'"
  using assms
proof (induction "e - n" arbitrary: n st)
  case (Suc k)
  then have ne: "n < e" by simp
  have "Suc n * PAGE_SIZE \<le> e * PAGE_SIZE" using ne by (intro mult_le_mono) simp_all
  then have "n * PAGE_SIZE < pos + count" using Suc.prems(6) by simp
  then obtain st1 where s1: "libfs_write_page maxfs buf f_size f_last n st = Inr st1"
    "write_inv maxfs buf f_size f_last f0 pos count (Suc n) st1"
    using libfs_write_page_inv [OF Suc.prems(1,2) _ Suc.prems(3,4)] Suc.prems(7) ne by blast
  have "\<exists>st'. libfs_write_pages maxfs buf f_size f_last [Suc n..<e] st1 = Inr st' \<and>
      write_inv maxfs buf f_size f_last f0 pos count e st'"
    using Suc.hyps(1) [OF _ s1(2)] Suc.hyps(2) Suc.prems ne by simp
  then show ?case using s1(1) upt_conv_Cons [OF ne] by simp
qed simp

section \<open>Lemmas: allocation and groups\<close>

text \<open>The pages of a block that is not marked allocated have no state bit.\<close>

definition shm_wf :: "nat \<Rightarrow> shm \<Rightarrow> bool" where
  "shm_wf maxfs m \<longleftrightarrow> (\<forall>p<NR_GROUPS * NR_PAGES_IN_PEB. \<not> shm_page_check_bit m PAGE_SIZE (p div NR_PAGES_IN_PEB) \<longrightarrow>
     (\<forall>ty. \<not> page_bit maxfs m p ty))"

lemma peb_byte_zero:
  assumes "\<forall>q<NR_PAGES_IN_PEB. \<forall>ty. \<not> page_bit maxfs m (g * NR_PAGES_IN_PEB + q) ty"
    and a: "peb maxfs g \<le> a" "a < peb maxfs g + PAGE_SIZE"
  shows "m a = 0"
proof (rule byte_ext, intro allI impI)
  fix b :: nat assume b: "b < 8"
  define j where "j = (a - peb maxfs g) mod BYTES_PER_STATE"
  define k where "k = (a - peb maxfs g) div BYTES_PER_STATE"
  have k: "k < 4" "j < BYTES_PER_STATE" using a by (auto simp: k_def j_def shm_consts)
  obtain ty where ty: "state_start ty = BYTES_PER_STATE * k"
  proof -
    have "k = 0 \<or> k = 1 \<or> k = 2 \<or> k = 3" using k(1) by auto
    then show ?thesis using that [of DIRTYBIT] that [of LOCKBIT] that [of UPTODATEBIT] that [of SKIPREAD_BIT] by auto
  qed
  have "a = peb maxfs g + j + state_start ty" using a(1) by (simp add: ty j_def k_def)
  moreover have "8 * j + b < NR_PAGES_IN_PEB" "(8 * j + b) div 8 = j" "(8 * j + b) mod 8 = b"
    using k(2) b by (simp_all add: shm_consts)
  ultimately show "bit (m a) b = bit 0 b" using assms(1) page_bit_eq [of "8 * j + b" maxfs m g ty] by simp
qed

lemma check_bit_eq: "g < BITS_IN_PAGE \<Longrightarrow> shm_page_check_bit m page g = bit (m (page + g div 8)) (g mod 8)"
proof -
  assume "g < BITS_IN_PAGE"
  moreover have "m (page + g div 8) AND push_bit (g mod 8) 1 \<noteq> 0 \<longleftrightarrow> bit (m (page + g div 8)) (g mod 8)"
    using and_exp_eq_0_iff_not_bit [of "m (page + g div 8)" "g mod 8"] by simp
  ultimately show ?thesis by (simp add: shm_page_check_bit_def)
qed

lemma group_page_bound: "q < NR_PAGES_IN_PEB \<Longrightarrow> g < NR_GROUPS \<Longrightarrow> g * NR_PAGES_IN_PEB + q < NR_GROUPS * NR_PAGES_IN_PEB"
proof -
  assume "q < NR_PAGES_IN_PEB" "g < NR_GROUPS"
  then have "g * NR_PAGES_IN_PEB + q < Suc g * NR_PAGES_IN_PEB" "Suc g * NR_PAGES_IN_PEB \<le> NR_GROUPS * NR_PAGES_IN_PEB"
    by (simp, intro mult_le_mono) simp_all
  then show ?thesis by simp
qed

lemma alloc_bits_below:
  assumes "PDB_ALLOC_CHECK_NR maxfs = 1" "PDB_DIRTY_GROUP_NR maxfs = 1" "h < BITS_IN_PAGE"
  shows "PAGE_SIZE + h div 8 < get_dirty_group_bmap maxfs" "PAGE_SIZE + h div 8 < peb maxfs g"
    "PAGE_SIZE + (g + 2) * PAGE_SIZE = peb maxfs g" "get_dirty_group_bmap maxfs + h div 8 < peb maxfs g"
  using assms by (simp_all add: get_dirty_group_bmap_def get_dirty_lock_bmap_def shm_consts)

lemma shm_alloc_check_same:
  assumes wf: "shm_wf maxfs m" and nr: "PDB_ALLOC_CHECK_NR maxfs = 1" "PDB_DIRTY_GROUP_NR maxfs = 1"
    and p: "p < NR_GROUPS * NR_PAGES_IN_PEB"
  shows "shm_wf maxfs (shm_alloc_check m p)" "a \<ge> 2 * PAGE_SIZE \<Longrightarrow> shm_alloc_check m p a = m a"
    "shm_page_check_bit (shm_alloc_check m p) PAGE_SIZE (p div NR_PAGES_IN_PEB)"
    "g < NR_GROUPS \<Longrightarrow> shm_page_check_bit m PAGE_SIZE g \<Longrightarrow> shm_page_check_bit (shm_alloc_check m p) PAGE_SIZE g"
proof -
  let ?h = "p div NR_PAGES_IN_PEB"
  have h: "?h < BITS_IN_PAGE" "?h < NR_GROUPS" using p by (simp_all add: NR_GROUPS_def less_mult_imp_div_less)
  note b = alloc_bits_below [OF nr]
  let ?m1 = "shm_page_set_bit m PAGE_SIZE ?h"
  have eq: "shm_alloc_check m p = ?m1" if "\<not> shm_page_check_bit m PAGE_SIZE ?h"
  proof -
    have z: "m a = 0" if "peb maxfs ?h \<le> a" "a < peb maxfs ?h + PAGE_SIZE" for a
    proof (rule peb_byte_zero [OF _ that], intro allI impI)
      fix q ty assume q: "q < NR_PAGES_IN_PEB"
      then have "?h * NR_PAGES_IN_PEB + q < NR_GROUPS * NR_PAGES_IN_PEB" using h(2) by (rule group_page_bound)
      moreover have "(?h * NR_PAGES_IN_PEB + q) div NR_PAGES_IN_PEB = ?h" using q by simp
      ultimately show "\<not> page_bit maxfs m (?h * NR_PAGES_IN_PEB + q) ty"
        using wf \<open>\<not> shm_page_check_bit m PAGE_SIZE ?h\<close> unfolding shm_wf_def by metis
    qed
    have "?m1 a = m a" if "peb maxfs ?h \<le> a" for a using that b(2) [OF h(1), of ?h] h(1) by (simp add: shm_page_set_bit_def)
    then show ?thesis
      using that z b(3) [OF h(1), of ?h] unfolding shm_alloc_check_def page_group Let_def by (auto simp: fun_eq_iff)
  qed
  have chk: "shm_page_check_bit ?m1 PAGE_SIZE g = (shm_page_check_bit m PAGE_SIZE g \<or> g = ?h)" if "g < BITS_IN_PAGE" for g
  proof -
    have "g = ?h \<longleftrightarrow> g div 8 = ?h div 8 \<and> g mod 8 = ?h mod 8" by (metis div_mult_mod_eq)
    then show ?thesis
      unfolding check_bit_eq [OF that] using h(1) by (auto simp: shm_page_set_bit_def bit_set_bit simp del: push_bit_of_1)
  qed
  have far: "?m1 a = m a" if "a \<ge> 2 * PAGE_SIZE" for a
    using that h(1) by (auto simp: shm_page_set_bit_def shm_consts)
  have "shm_alloc_check m p = m" if "shm_page_check_bit m PAGE_SIZE ?h"
    using that by (simp add: shm_alloc_check_def page_group Let_def)
  then have cases: "shm_alloc_check m p = m \<and> shm_page_check_bit m PAGE_SIZE ?h \<or> shm_alloc_check m p = ?m1"
    using eq by blast
  show "a \<ge> 2 * PAGE_SIZE \<Longrightarrow> shm_alloc_check m p a = m a" using cases far by auto
  show "shm_page_check_bit (shm_alloc_check m p) PAGE_SIZE ?h" using cases chk [OF h(1)] by auto
  show "g < NR_GROUPS \<Longrightarrow> shm_page_check_bit m PAGE_SIZE g \<Longrightarrow> shm_page_check_bit (shm_alloc_check m p) PAGE_SIZE g"
    using cases chk [of g] by (auto simp: NR_GROUPS_def)
  have "shm_wf maxfs ?m1"
    unfolding shm_wf_def
  proof (intro allI impI)
    fix p' ty assume g: "p' < NR_GROUPS * NR_PAGES_IN_PEB" "\<not> shm_page_check_bit ?m1 PAGE_SIZE (p' div NR_PAGES_IN_PEB)"
    have "2 * PAGE_SIZE \<le> get_page_bits maxfs p' ty" using get_page_bits_ge [of maxfs p' ty] nr by (simp add: get_dirty_lock_bmap_def)
    then have "page_bit maxfs ?m1 p' ty = page_bit maxfs m p' ty" using far by (simp add: page_bit_def)
    moreover have "p' div NR_PAGES_IN_PEB < BITS_IN_PAGE" using g(1) by (simp add: NR_GROUPS_def less_mult_imp_div_less)
    ultimately show "\<not> page_bit maxfs ?m1 p' ty" using wf g chk unfolding shm_wf_def by simp
  qed
  then show "shm_wf maxfs (shm_alloc_check m p)" using cases wf by auto
qed

lemma fold_alloc_check:
  assumes "shm_wf maxfs m" "PDB_ALLOC_CHECK_NR maxfs = 1" "PDB_DIRTY_GROUP_NR maxfs = 1"
    "\<forall>p\<in>set ps. p < NR_GROUPS * NR_PAGES_IN_PEB"
  shows "shm_wf maxfs (fold (\<lambda>pi m. shm_alloc_check m pi) ps m) \<and>
    (\<forall>a\<ge>2 * PAGE_SIZE. fold (\<lambda>pi m. shm_alloc_check m pi) ps m a = m a) \<and>
    (\<forall>g<NR_GROUPS. shm_page_check_bit m PAGE_SIZE g \<longrightarrow> shm_page_check_bit (fold (\<lambda>pi m. shm_alloc_check m pi) ps m) PAGE_SIZE g) \<and>
    (\<forall>p\<in>set ps. shm_page_check_bit (fold (\<lambda>pi m. shm_alloc_check m pi) ps m) PAGE_SIZE (p div NR_PAGES_IN_PEB))"
  using assms
proof (induction ps arbitrary: m)
  case (Cons p ps)
  note s = shm_alloc_check_same [OF Cons.prems(1-3), of p]
  have p: "p < NR_GROUPS * NR_PAGES_IN_PEB" "p div NR_PAGES_IN_PEB < NR_GROUPS"
    using Cons.prems(4) by (simp_all add: less_mult_imp_div_less)
  show ?case using Cons.IH [OF s(1) [OF p(1)] Cons.prems(2,3)] Cons.prems(4) s [OF p(1)] p(2) by simp
qed simp

lemma dirty_page_group_outside:
  "a < 2 * PAGE_SIZE \<or> 3 * PAGE_SIZE \<le> a \<Longrightarrow> dirty_page_group m p a = m a"
  by (auto simp: dirty_page_group_def shm_page_set_bit_def shm_consts)

lemma dirty_groups_from:
  assumes nr: "PDB_ALLOC_CHECK_NR maxfs = 1" and e: "e \<le> NR_GROUPS * NR_PAGES_IN_PEB"
  shows "(a < 2 * PAGE_SIZE \<or> 3 * PAGE_SIZE \<le> a \<longrightarrow> dirty_groups_from m s e a = m a) \<and>
    (group_bit maxfs (dirty_groups_from m s e) g \<longleftrightarrow>
      group_bit maxfs m g \<or> (\<exists>k. s + k * NR_PAGES_IN_PEB < e \<and> g = s div NR_PAGES_IN_PEB + k))"
  using e
proof (induction m s e rule: dirty_groups_from.induct)
  case (1 m s e)
  have N: "PEB_COVERAGE div PAGE_SIZE = NR_PAGES_IN_PEB" "0 < NR_PAGES_IN_PEB" by (simp_all add: shm_consts)
  show ?case
  proof (cases "s < e")
    case True
    have dv: "(s + NR_PAGES_IN_PEB) div NR_PAGES_IN_PEB = Suc (s div NR_PAGES_IN_PEB)"
      using N(2) div_add_self2 [of NR_PAGES_IN_PEB s] by simp
    have ex: "(\<exists>k. s + k * NR_PAGES_IN_PEB < e \<and> g = s div NR_PAGES_IN_PEB + k) \<longleftrightarrow>
        g = s div NR_PAGES_IN_PEB \<or> (\<exists>k. s + NR_PAGES_IN_PEB + k * NR_PAGES_IN_PEB < e \<and> g = Suc (s div NR_PAGES_IN_PEB) + k)"
      (is "(\<exists>k. ?P k) \<longleftrightarrow> _")
    proof -
      have "(\<exists>k. ?P k) \<longleftrightarrow> ?P 0 \<or> (\<exists>k. ?P (Suc k))" by (metis not0_implies_Suc)
      then show ?thesis using True by (simp add: add.assoc)
    qed
    show ?thesis
      using 1(1) [OF True 1(2)] True 1(2) group_bit_group [OF nr, of s m g] dirty_page_group_outside [of a m s]
      unfolding ex dv N(1) by (subst (1 2) dirty_groups_from.simps) (auto simp: N(1))
  next
    case False
    then show ?thesis by (subst (1 2) dirty_groups_from.simps) auto
  qed
qed

lemma dirty_groups_outside:
  "PDB_ALLOC_CHECK_NR maxfs = 1 \<Longrightarrow> e \<le> NR_GROUPS * NR_PAGES_IN_PEB \<Longrightarrow> a < 2 * PAGE_SIZE \<or> 3 * PAGE_SIZE \<le> a \<Longrightarrow>
   dirty_groups m count s e a = m a"
  using dirty_groups_from [of maxfs e a m s 0] by (auto simp: dirty_groups_def Let_def dirty_page_group_outside)

lemma dirty_groups_small:
  assumes nr: "PDB_ALLOC_CHECK_NR maxfs = 1" and e: "s \<le> e" "e < NR_GROUPS * NR_PAGES_IN_PEB" and c: "count \<le> PEB_COVERAGE"
  shows "group_bit maxfs (dirty_groups m count s e) g \<longleftrightarrow> group_bit maxfs m g \<or> g = s div NR_PAGES_IN_PEB \<or> g = e div NR_PAGES_IN_PEB"
  using c e group_bit_group [OF nr, of s m g] group_bit_group [OF nr, of e _ g]
  by (auto simp: dirty_groups_def Let_def)

section \<open>Lemmas: a whole write\<close>

text \<open>The daemon has put the file into a transaction when the write waits for it.\<close>

definition journal_ready :: "(64 word \<Rightarrow> 64 word) \<Rightarrow> bool \<Rightarrow> 64 word \<Rightarrow> bool" where
  "journal_ready sd j0 s =
     (let s1 = s OR SHM_DATA_DIRTY
      in if s1 AND SHM_USE_JOURNAL \<noteq> 0
         then s1 AND (SHM_RUNNING_TX OR SHM_RUNNING_TX_REQUESTED) \<noteq> 0 \<or>
              sd (s1 OR SHM_RUNNING_TX_REQUESTED) AND (SHM_RUNNING_TX OR SHM_I_DELETED) \<noteq> 0
         else \<not> j0 \<or> s1 AND (SHM_RUNNING_TX OR SHM_I_DELETED) \<noteq> 0)"

definition FILE_LIMIT :: nat where
  "FILE_LIMIT = NR_GROUPS * NR_PAGES_IN_PEB * PAGE_SIZE"

definition last_page :: "nat \<Rightarrow> nat \<Rightarrow> nat" where
  "last_page pos count = (pos + count - 1) div PAGE_SIZE"

definition eof_page :: "lfs_file \<Rightarrow> nat" where
  "eof_page f = (if lf_size f \<noteq> 0 then (lf_size f - 1) div PAGE_SIZE else 0)"

definition writable :: "nat \<Rightarrow> (64 word \<Rightarrow> 64 word) \<Rightarrow> bool \<Rightarrow> lfs_file \<Rightarrow> nat \<Rightarrow> nat \<Rightarrow> bool" where
  "writable maxfs sd j0 f count pos \<longleftrightarrow>
     0 < maxfs \<and> maxfs \<le> FILE_LIMIT \<and> 0 < count \<and> count < 2 ^ 32 \<and> pos + count \<le> maxfs \<and>
     shm_wf maxfs (lf_shm f) \<and> journal_ready sd j0 (lf_state f) \<and>
     (\<forall>p. pos div PAGE_SIZE \<le> p \<and> p \<le> last_page pos count \<longrightarrow> \<not> page_bit maxfs (lf_shm f) p LOCKBIT)"

lemma FILE_LIMIT_eq: "FILE_LIMIT = PEB_COVERAGE * BITS_IN_PAGE"
  by (simp add: FILE_LIMIT_def NR_GROUPS_def shm_consts)

lemma last_page_bounds:
  assumes "0 < count" "pos + count \<le> FILE_LIMIT"
  shows "pos div PAGE_SIZE \<le> last_page pos count" "last_page pos count < NR_GROUPS * NR_PAGES_IN_PEB"
    "Suc (last_page pos count) * PAGE_SIZE < pos + count + PAGE_SIZE" "pos + count \<le> Suc (last_page pos count) * PAGE_SIZE"
proof -
  have P: "0 < PAGE_SIZE" by (simp add: PAGE_SIZE_def)
  show "pos div PAGE_SIZE \<le> last_page pos count" using assms(1) by (simp add: last_page_def div_le_mono)
  have "pos + count - 1 < NR_GROUPS * NR_PAGES_IN_PEB * PAGE_SIZE" using assms by (simp add: FILE_LIMIT_def)
  then show "last_page pos count < NR_GROUPS * NR_PAGES_IN_PEB"
    unfolding last_page_def by (rule less_mult_imp_div_less)
  have "last_page pos count * PAGE_SIZE \<le> pos + count - 1" by (simp add: last_page_def)
  then show "Suc (last_page pos count) * PAGE_SIZE < pos + count + PAGE_SIZE" using assms(1) by simp
  have "pos + count - 1 < Suc (last_page pos count) * PAGE_SIZE"
    using P by (simp add: last_page_def dividend_less_div_times)
  then show "pos + count \<le> Suc (last_page pos count) * PAGE_SIZE" using assms(1) by simp
qed

lemma write_inv_init:
  assumes "pos + count < 2 ^ 63" "count < 2 ^ 32"
  shows "write_inv maxfs buf f_size f_last f pos count (pos div PAGE_SIZE) (f, u32 count, pos, 0)"
proof -
  have "pos div PAGE_SIZE * PAGE_SIZE \<le> pos" by simp
  then have "ofs_at pos count (pos div PAGE_SIZE) = pos"
    unfolding ofs_at_def by (intro max_absorb1 min.coboundedI2)
  then show ?thesis using assms by (auto simp: write_inv_def write_bits_def c_arith)
qed

lemma dirty_groups_cong:
  assumes "PDB_ALLOC_CHECK_NR maxfs = 1" "s \<le> e" "e < NR_GROUPS * NR_PAGES_IN_PEB" "\<forall>a\<ge>2 * PAGE_SIZE. m' a = m a"
  shows "group_bit maxfs (dirty_groups m' count s e) g = group_bit maxfs (dirty_groups m count s e) g"
proof -
  have "group_bit maxfs m' g = group_bit maxfs m g"
    using assms(1,4) by (simp add: group_bit_def get_dirty_group_bmap_def)
  then show ?thesis
    using dirty_groups_small [OF assms(1-3)] dirty_groups_from [OF assms(1), of e 0 _ s g] assms(3)
    by (cases "count \<le> PEB_COVERAGE") (auto simp: dirty_groups_def not_le)
qed

text \<open>The state the pages of a write start from: blocks allocated, groups marked.\<close>

definition write_prepared :: "lfs_file \<Rightarrow> nat \<Rightarrow> nat \<Rightarrow> shm" where
  "write_prepared f count pos =
     dirty_groups (fold (\<lambda>pi m. shm_alloc_check m pi) [pos div PAGE_SIZE..<last_page pos count + 1] (lf_shm f))
       count (pos div PAGE_SIZE) (last_page pos count)"

lemma write_prepared:
  assumes w: "writable maxfs sd j0 f count pos"
  shows "page_bit maxfs (write_prepared f count pos) p ty = page_bit maxfs (lf_shm f) p ty"
    "g < NR_GROUPS \<Longrightarrow> group_bit maxfs (write_prepared f count pos) g =
       group_bit maxfs (dirty_groups (lf_shm f) count (pos div PAGE_SIZE) (last_page pos count)) g"
    "\<forall>g<NR_GROUPS. shm_page_check_bit (lf_shm f) PAGE_SIZE g \<longrightarrow> shm_page_check_bit (write_prepared f count pos) PAGE_SIZE g"
    "\<forall>p. pos div PAGE_SIZE \<le> p \<and> p \<le> last_page pos count \<longrightarrow>
       shm_page_check_bit (write_prepared f count pos) PAGE_SIZE (p div NR_PAGES_IN_PEB)"
proof -
  let ?ps = "[pos div PAGE_SIZE..<last_page pos count + 1]"
  let ?m1 = "fold (\<lambda>pi m. shm_alloc_check m pi) ?ps (lf_shm f)"
  have b: "0 < count" "pos + count \<le> FILE_LIMIT" "shm_wf maxfs (lf_shm f)" "0 < maxfs" "maxfs \<le> PEB_COVERAGE * BITS_IN_PAGE"
    using w by (auto simp: writable_def FILE_LIMIT_eq)
  note l = last_page_bounds [OF b(1,2)]
  have nr: "PDB_ALLOC_CHECK_NR maxfs = 1" "PDB_DIRTY_GROUP_NR maxfs = 1" using PDB_NR b(4,5) by simp_all
  have m1: "\<forall>a\<ge>2 * PAGE_SIZE. ?m1 a = lf_shm f a"
    "\<forall>g<NR_GROUPS. shm_page_check_bit (lf_shm f) PAGE_SIZE g \<longrightarrow> shm_page_check_bit ?m1 PAGE_SIZE g"
    "\<forall>p\<in>set ?ps. shm_page_check_bit ?m1 PAGE_SIZE (p div NR_PAGES_IN_PEB)"
    using fold_alloc_check [OF b(3) nr, of ?ps] l(2) by auto
  have out: "write_prepared f count pos a = ?m1 a" if "a < 2 * PAGE_SIZE \<or> 3 * PAGE_SIZE \<le> a" for a
    using dirty_groups_outside [OF nr(1) _ that] l(2) by (simp add: write_prepared_def)
  have "3 * PAGE_SIZE \<le> get_page_bits maxfs p ty"
    using get_page_bits_ge [of maxfs p ty] nr by (simp add: get_dirty_lock_bmap_def)
  then show "page_bit maxfs (write_prepared f count pos) p ty = page_bit maxfs (lf_shm f) p ty"
    using out m1(1) by (simp add: page_bit_def)
  have chk: "shm_page_check_bit (write_prepared f count pos) PAGE_SIZE g = shm_page_check_bit ?m1 PAGE_SIZE g" for g
  proof (cases "g < BITS_IN_PAGE")
    case True
    then have "PAGE_SIZE + g div 8 < 2 * PAGE_SIZE" by (simp add: shm_consts)
    then show ?thesis using out by (simp add: shm_page_check_bit_def)
  qed (simp add: shm_page_check_bit_def)
  then show "\<forall>g<NR_GROUPS. shm_page_check_bit (lf_shm f) PAGE_SIZE g \<longrightarrow> shm_page_check_bit (write_prepared f count pos) PAGE_SIZE g"
    "\<forall>p. pos div PAGE_SIZE \<le> p \<and> p \<le> last_page pos count \<longrightarrow>
       shm_page_check_bit (write_prepared f count pos) PAGE_SIZE (p div NR_PAGES_IN_PEB)"
    using m1(2,3) by auto
  assume "g < NR_GROUPS"
  then show "group_bit maxfs (write_prepared f count pos) g =
      group_bit maxfs (dirty_groups (lf_shm f) count (pos div PAGE_SIZE) (last_page pos count)) g"
    unfolding write_prepared_def using m1(1) l(1,2) nr(1) by (intro dirty_groups_cong) auto
qed

lemma libfs_write_result:
  assumes w: "writable maxfs sd j0 f count pos"
  obtains f' where "libfs_write maxfs sd j0 f buf count pos = Inr (count, pos + count, f')"
    "lf_data f' = copy_bytes count pos (lf_data f) 0 buf" "lf_size f' = max (lf_size f) (pos + count)"
    "\<And>p ty. page_bit maxfs (lf_shm f') p ty =
       write_bits maxfs (lf_shm f) (lf_size f) (eof_page f) pos count (Suc (last_page pos count)) p ty"
    "\<And>a. a < peb maxfs 0 \<Longrightarrow> lf_shm f' a = write_prepared f count pos a" "lf_pos f' = lf_pos f"
proof -
  have b: "0 < count" "count < 2 ^ 32" "pos + count \<le> FILE_LIMIT" "pos + count < 2 ^ 63"
    using w by (auto simp: writable_def FILE_LIMIT_def NR_GROUPS_def shm_consts)
  note l = last_page_bounds [OF b(1,3)]
  have e: "sub64 (add64 pos count) 1 div PAGE_SIZE = last_page pos count" "add64 pos count = pos + count"
    using b by (simp_all add: c_arith last_page_def)
  define s1 where "s1 = lf_state f OR SHM_DATA_DIRTY"
  define js where "js = (if s1 AND SHM_USE_JOURNAL \<noteq> 0
      then if s1 AND (SHM_RUNNING_TX OR SHM_RUNNING_TX_REQUESTED) \<noteq> 0 then (False, s1)
           else (True, sd (s1 OR SHM_RUNNING_TX_REQUESTED))
      else (j0, s1))"
  have ready: "fst js \<Longrightarrow> snd js AND (SHM_RUNNING_TX OR SHM_I_DELETED) \<noteq> 0"
    using w by (auto simp: writable_def journal_ready_def Let_def js_def s1_def split: if_splits)
  define f1 where "f1 = f\<lparr>lf_shm := write_prepared f count pos, lf_state := snd js\<rparr>"
  have lk: "\<forall>p. pos div PAGE_SIZE \<le> p \<and> p < Suc (last_page pos count) \<longrightarrow> \<not> page_bit maxfs (lf_shm f1) p LOCKBIT"
    using w by (auto simp: f1_def write_prepared(1) [OF w] writable_def less_Suc_eq_le)
  have i0: "write_inv maxfs buf (lf_size f) (eof_page f) f1 pos count (pos div PAGE_SIZE) (f1, u32 count, pos, 0)"
    using write_inv_init [OF b(4,2)] .
  obtain f2 x where f2: "libfs_write_pages maxfs buf (lf_size f) (eof_page f) [pos div PAGE_SIZE..<last_page pos count + 1]
        (f1, u32 count, pos, 0) = Inr (f2, x)"
    "write_inv maxfs buf (lf_size f) (eof_page f) f1 pos count (Suc (last_page pos count)) (f2, x)"
    using libfs_write_pages_inv [OF i0 order_refl b(4,2) _ _ lk] l by auto
  have cur: "ofs_at pos count (Suc (last_page pos count)) = pos + count" using l(4) by (simp add: ofs_at_def)
  have i: "lf_data f2 = copy_bytes count pos (lf_data f) 0 buf" "lf_size f2 = lf_size f" "lf_state f2 = snd js" "lf_pos f2 = lf_pos f"
    "\<And>p ty. page_bit maxfs (lf_shm f2) p ty =
       write_bits maxfs (write_prepared f count pos) (lf_size f) (eof_page f) pos count (Suc (last_page pos count)) p ty"
    "\<And>a. a < peb maxfs 0 \<Longrightarrow> lf_shm f2 a = write_prepared f count pos a"
    using f2(2) cur by (auto simp: write_inv_def f1_def)
  define f3 where "f3 = f2\<lparr>lf_size := max (lf_size f) (pos + count)\<rparr>"
  define f4 where "f4 = (if fst js then f3\<lparr>lf_state := lf_state f3 AND NOT SHM_RUNNING_TX_REQUESTED\<rparr> else f3)"
  define fa where "fa = shared_data_dirty (f\<lparr>lf_shm := fold (\<lambda>pi m. shm_alloc_check m pi)
      [pos div PAGE_SIZE..<last_page pos count + 1] (lf_shm f)\<rparr>)"
  have fa: "lf_state fa = s1" "lf_size fa = lf_size f" by (simp_all add: fa_def shared_data_dirty_def s1_def)
  have j: "(if lf_state fa AND SHM_USE_JOURNAL \<noteq> 0 then libfs_journal_start sd fa else (j0, fa)) =
      (fst js, fa\<lparr>lf_state := snd js\<rparr>)"
    using fa(1) by (auto simp: js_def libfs_journal_start_def)
  have f1: "(fa\<lparr>lf_state := snd js\<rparr>)\<lparr>lf_shm := dirty_groups (lf_shm (fa\<lparr>lf_state := snd js\<rparr>)) count
      (pos div PAGE_SIZE) (last_page pos count)\<rparr> = f1"
    by (simp add: fa_def shared_data_dirty_def f1_def write_prepared_def)
  have f3: "(if lf_size f < pos + count then f2\<lparr>lf_size := pos + count\<rparr> else f2) = f3"
    using i(2) by (simp add: f3_def max_def)
  have f4: "(if fst js then libfs_journal_end f3 else Inr f3) = Inr f4"
    using ready i(3) by (simp add: libfs_journal_end_def f4_def f3_def)
  have sz: "lf_size (fa\<lparr>lf_state := snd js\<rparr>) = lf_size f" using fa(2) by simp
  have eo: "eof_page (fa\<lparr>lf_state := snd js\<rparr>) = eof_page f" using fa(2) by (simp add: eof_page_def)
  have "libfs_write maxfs sd j0 f buf count pos = Inr (count, pos + count, f4)"
    unfolding libfs_write_def Let_def e(1) unfolding e(2) fa_def [symmetric] j prod.case f1
      eof_page_def [symmetric] unfolding eo sz f2(1) sum.case prod.case f3 f4 ..
  then show ?thesis
    using that [of f4] i write_prepared(1) [OF w] by (simp add: f4_def f3_def write_bits_def)
qed

section \<open>Lemmas: reading\<close>

lemma copy_bytes_append_read:
  "copy_bytes n2 n1 (copy_bytes n1 0 buf pos data) (pos + n1) data = copy_bytes (n1 + n2) 0 buf pos data"
  by (auto simp: copy_bytes_def fun_eq_iff)

definition read_inv ::
  "(nat \<Rightarrow> 8 word) \<Rightarrow> (nat \<Rightarrow> 8 word) \<Rightarrow> nat \<Rightarrow> nat \<Rightarrow> nat \<Rightarrow> (nat \<Rightarrow> 8 word) \<times> nat \<times> nat \<times> nat \<Rightarrow> bool" where
  "read_inv data buf pos n pi st \<longleftrightarrow> (case st of (b, rem, cur, bo) \<Rightarrow>
     cur = ofs_at pos n pi \<and> rem = pos + n - cur \<and> bo = cur - pos \<and> b = copy_bytes (cur - pos) 0 buf pos data)"

lemma libfs_read_page_inv:
  assumes inv: "read_inv data buf pos n pi st" and pi: "pos div PAGE_SIZE \<le> pi" "pos + n < 2 ^ 63"
  shows "read_inv data buf pos n (Suc pi) (libfs_read_page data pi st)"
proof -
  obtain b rem cur bo where st: "st = (b, rem, cur, bo)" by (metis prod_cases4)
  have i: "cur = ofs_at pos n pi" "rem = pos + n - cur" "bo = cur - pos" "b = copy_bytes (cur - pos) 0 buf pos data"
    using inv by (simp_all add: read_inv_def st)
  let ?n = "ofs_at pos n (Suc pi)"
  have le: "pos \<le> cur" "cur \<le> ?n" "?n \<le> pos + n" using i(1) by (auto simp: ofs_at_def PAGE_SIZE_def)
  have b: "(if sub64 PAGE_SIZE (sub64 cur (pi * PAGE_SIZE)) > rem then rem else sub64 PAGE_SIZE (sub64 cur (pi * PAGE_SIZE))) = ?n - cur"
  proof (cases "pi * PAGE_SIZE < pos + n")
    case True
    then show ?thesis using chunk_size [OF pi(1) True pi(2) i(1)] i(2) by (simp add: min_def split: if_splits)
  next
    case False
    then have "cur = pos + n" "?n = pos + n" using i(1) by (auto simp: ofs_at_def PAGE_SIZE_def)
    then show ?thesis using i(2) by simp
  qed
  have ar: "rem - (?n - cur) = pos + n - ?n" "add64 cur (?n - cur) = ?n" "add64 bo (?n - cur) = ?n - pos"
    using le i(2,3) pi(2) by (simp_all add: c_arith)
  have "copy_bytes (?n - cur) bo b cur data = copy_bytes (?n - pos) 0 buf pos data"
    using copy_bytes_append_read [of "?n - cur" "cur - pos" buf pos data] le i(3,4) by simp
  then show ?thesis unfolding libfs_read_page_def st prod.case Let_def b read_inv_def ar by simp
qed

lemma libfs_read_result:
  assumes "0 < count" "pos + count < 2 ^ 63" "pos \<le> lf_size f" "lf_size f < 2 ^ 63"
  defines "n \<equiv> min count (lf_size f - pos)"
  shows "libfs_read f buf count pos = Inr (n, pos + n, copy_bytes n 0 buf pos (lf_data f))"
proof -
  let ?s = "pos div PAGE_SIZE" and ?e = "(pos + count - 1) div PAGE_SIZE"
  have P: "0 < PAGE_SIZE" by (simp add: PAGE_SIZE_def)
  have e: "sub64 (add64 pos count) 1 div PAGE_SIZE = ?e" "add64 pos count = pos + count"
    using assms(1,2) by (simp_all add: c_arith)
  have n: "(if pos + count > lf_size f then lf_size f - pos else count) = n" "n \<le> count" using assms(3) by (auto simp: n_def)
  have se: "?s \<le> ?e + 1" using assms(1) by (simp add: div_le_mono le_SucI)
  have b: "pos + n < 2 ^ 63" using n(2) assms(2) by simp
  have "ofs_at pos n ?s = pos" unfolding ofs_at_def by (intro max_absorb1 min.coboundedI2) simp
  then have i0: "read_inv (lf_data f) buf pos n ?s (buf, n, pos, 0)" by (simp add: read_inv_def)
  have "read_inv (lf_data f) buf pos n (?s + k) (fold (libfs_read_page (lf_data f)) [?s..<?s + k] (buf, n, pos, 0))" for k
  proof (induction k)
    case (Suc k)
    then show ?case using libfs_read_page_inv [OF Suc _ b] by simp
  qed (simp add: i0)
  from this [of "?e + 1 - ?s"] have r: "read_inv (lf_data f) buf pos n (?e + 1) (fold (libfs_read_page (lf_data f)) [?s..<?e + 1] (buf, n, pos, 0))"
    using se by simp
  have "pos + count - 1 < Suc ?e * PAGE_SIZE" using P by (simp add: dividend_less_div_times)
  then have "ofs_at pos n (?e + 1) = pos + n" using n(2) assms(1) by (simp add: ofs_at_def)
  then obtain x where x: "fold (libfs_read_page (lf_data f)) [?s..<?e + 1] (buf, n, pos, 0) = (copy_bytes n 0 buf pos (lf_data f), x)"
    using r by (auto simp: read_inv_def split: prod.splits)
  have "add64 pos n = pos + n" using b by (simp add: c_arith)
  then show ?thesis
    using assms(3) unfolding libfs_read_def Let_def e(1) unfolding e(2) n(1) x by simp
qed

section \<open>Lemmas: invariants of the shared memory\<close>

text \<open>Every dirty page is in a group that is marked.\<close>

definition dirty_grouped :: "nat \<Rightarrow> shm \<Rightarrow> bool" where
  "dirty_grouped maxfs m \<longleftrightarrow> (\<forall>p<NR_GROUPS * NR_PAGES_IN_PEB. page_bit maxfs m p DIRTYBIT \<longrightarrow>
     group_bit maxfs m (p div NR_PAGES_IN_PEB))"

lemma writable_nr: "writable maxfs sd j0 f count pos \<Longrightarrow> PDB_ALLOC_CHECK_NR maxfs = 1 \<and> PDB_DIRTY_GROUP_NR maxfs = 1"
  using PDB_NR by (simp add: writable_def FILE_LIMIT_eq)

lemma writable_pages:
  assumes "writable maxfs sd j0 f count pos"
  shows "pos div PAGE_SIZE \<le> last_page pos count" "last_page pos count < NR_GROUPS * NR_PAGES_IN_PEB"
  using last_page_bounds [of count pos] assms by (auto simp: writable_def)

lemma libfs_write_shm_wf:
  assumes w: "writable maxfs sd j0 f count pos"
    and bits: "\<And>p ty. page_bit maxfs (lf_shm f') p ty =
       write_bits maxfs (lf_shm f) (lf_size f) (eof_page f) pos count (Suc (last_page pos count)) p ty"
    and low: "\<And>a. a < peb maxfs 0 \<Longrightarrow> lf_shm f' a = write_prepared f count pos a"
  shows "shm_wf maxfs (lf_shm f')"
  unfolding shm_wf_def
proof (intro allI impI)
  fix p ty assume p: "p < NR_GROUPS * NR_PAGES_IN_PEB" "\<not> shm_page_check_bit (lf_shm f') PAGE_SIZE (p div NR_PAGES_IN_PEB)"
  have g: "p div NR_PAGES_IN_PEB < NR_GROUPS" using p(1) by (rule less_mult_imp_div_less)
  have "PAGE_SIZE + p div NR_PAGES_IN_PEB div 8 < peb maxfs 0"
    using alloc_bits_below(2) [of maxfs "p div NR_PAGES_IN_PEB" 0] writable_nr [OF w] g by (simp add: NR_GROUPS_def)
  then have "shm_page_check_bit (write_prepared f count pos) PAGE_SIZE (p div NR_PAGES_IN_PEB) =
      shm_page_check_bit (lf_shm f') PAGE_SIZE (p div NR_PAGES_IN_PEB)"
    using low by (simp add: shm_page_check_bit_def)
  then have "\<not> shm_page_check_bit (write_prepared f count pos) PAGE_SIZE (p div NR_PAGES_IN_PEB)"
    using p(2) by simp
  then have "\<not> shm_page_check_bit (lf_shm f) PAGE_SIZE (p div NR_PAGES_IN_PEB)" "\<not> (pos div PAGE_SIZE \<le> p \<and> p \<le> last_page pos count)"
    using write_prepared(3,4) [OF w] g by blast+
  moreover have "shm_wf maxfs (lf_shm f)" using w by (simp add: writable_def)
  ultimately show "\<not> page_bit maxfs (lf_shm f') p ty"
    using p(1) by (auto simp: bits write_bits_def shm_wf_def)
qed

lemma libfs_write_group_bit:
  assumes "writable maxfs sd j0 f count pos" "\<And>a. a < peb maxfs 0 \<Longrightarrow> lf_shm f' a = write_prepared f count pos a" "g < NR_GROUPS"
  shows "group_bit maxfs (lf_shm f') g = group_bit maxfs (dirty_groups (lf_shm f) count (pos div PAGE_SIZE) (last_page pos count)) g"
  using write_prepared(2) [OF assms(1,3)] assms(2) group_bmap_below_peb [OF assms(3), of maxfs 0] by (simp add: group_bit_def)

lemma small_write_groups:
  assumes w: "writable maxfs sd j0 f count pos" and c: "count \<le> PEB_COVERAGE" and p: "pos div PAGE_SIZE \<le> p" "p \<le> last_page pos count"
  shows "p div NR_PAGES_IN_PEB = pos div PAGE_SIZE div NR_PAGES_IN_PEB \<or> p div NR_PAGES_IN_PEB = last_page pos count div NR_PAGES_IN_PEB"
proof -
  let ?s = "pos div PAGE_SIZE" and ?e = "last_page pos count"
  have "pos + count - 1 \<le> pos + NR_PAGES_IN_PEB * PAGE_SIZE" using c by (simp add: shm_consts)
  then have "?e \<le> (pos + NR_PAGES_IN_PEB * PAGE_SIZE) div PAGE_SIZE" unfolding last_page_def by (rule div_le_mono)
  also have "\<dots> = ?s + NR_PAGES_IN_PEB" by (simp add: PAGE_SIZE_def)
  finally have "?e div NR_PAGES_IN_PEB \<le> (?s + NR_PAGES_IN_PEB) div NR_PAGES_IN_PEB" by (rule div_le_mono)
  also have "\<dots> = Suc (?s div NR_PAGES_IN_PEB)" by (simp add: shm_consts)
  finally have "?e div NR_PAGES_IN_PEB \<le> Suc (?s div NR_PAGES_IN_PEB)" .
  moreover have "?s div NR_PAGES_IN_PEB \<le> p div NR_PAGES_IN_PEB" "p div NR_PAGES_IN_PEB \<le> ?e div NR_PAGES_IN_PEB"
    using p by (simp_all add: div_le_mono)
  ultimately show ?thesis by linarith
qed

lemma libfs_write_dirty_grouped:
  assumes w: "writable maxfs sd j0 f count pos" and c: "count \<le> PEB_COVERAGE" and d: "dirty_grouped maxfs (lf_shm f)"
    and bits: "\<And>p ty. page_bit maxfs (lf_shm f') p ty =
       write_bits maxfs (lf_shm f) (lf_size f) (eof_page f) pos count (Suc (last_page pos count)) p ty"
    and low: "\<And>a. a < peb maxfs 0 \<Longrightarrow> lf_shm f' a = write_prepared f count pos a"
  shows "dirty_grouped maxfs (lf_shm f')"
  unfolding dirty_grouped_def
proof (intro allI impI)
  fix p assume p: "p < NR_GROUPS * NR_PAGES_IN_PEB" "page_bit maxfs (lf_shm f') p DIRTYBIT"
  have g: "p div NR_PAGES_IN_PEB < NR_GROUPS" using p(1) by (rule less_mult_imp_div_less)
  note gb = libfs_write_group_bit [OF w low g]
    dirty_groups_small [OF conjunct1 [OF writable_nr [OF w]] writable_pages [OF w] c, of "lf_shm f" "p div NR_PAGES_IN_PEB"]
  consider "page_bit maxfs (lf_shm f) p DIRTYBIT" | "pos div PAGE_SIZE \<le> p" "p \<le> last_page pos count"
    using p(2) by (auto simp: bits write_bits_def split: if_splits)
  then show "group_bit maxfs (lf_shm f') (p div NR_PAGES_IN_PEB)"
  proof cases
    case 1
    then show ?thesis using d p(1) gb by (simp add: dirty_grouped_def)
  next
    case 2
    then show ?thesis using small_write_groups [OF w c 2] gb by auto
  qed
qed

section \<open>Properties\<close>

text \<open>C22. A write followed by a read of the same range returns the bytes written; no other byte of the
  file changes, the size is the larger of the old one and the end of the write, and a page is exempt
  from being read from disk only when it is written whole or lies beyond the old end of the file.\<close>

theorem libfs_write_read_round_trip:
  assumes "writable maxfs sd j0 f count pos" "lf_size f < 2 ^ 63"
  shows "\<exists>f'. libfs_posix_pwrite64 maxfs sd j0 f buf count pos = Inr (count, f') \<and>
    libfs_posix_pread64 f' buf' count pos = Inr (count, copy_bytes count 0 buf' 0 buf) \<and>
    (\<forall>a. a < pos \<or> pos + count \<le> a \<longrightarrow> lf_data f' a = lf_data f a) \<and>
    lf_size f' = max (lf_size f) (pos + count) \<and> shm_wf maxfs (lf_shm f') \<and>
    (\<forall>p. pos div PAGE_SIZE \<le> p \<and> p \<le> last_page pos count \<longrightarrow>
       \<not> page_bit maxfs (lf_shm f') p LOCKBIT \<and>
       (page_bit maxfs (lf_shm f') p SKIPREAD_BIT \<longleftrightarrow> skips_read (lf_size f) (eof_page f) pos count p))"
proof -
  obtain f' where f': "libfs_write maxfs sd j0 f buf count pos = Inr (count, pos + count, f')"
    "lf_data f' = copy_bytes count pos (lf_data f) 0 buf" "lf_size f' = max (lf_size f) (pos + count)"
    and bits: "\<And>p ty. page_bit maxfs (lf_shm f') p ty =
       write_bits maxfs (lf_shm f) (lf_size f) (eof_page f) pos count (Suc (last_page pos count)) p ty"
    and low: "\<And>a. a < peb maxfs 0 \<Longrightarrow> lf_shm f' a = write_prepared f count pos a"
    using libfs_write_result [OF assms(1)] by metis
  have b: "0 < count" "pos + count < 2 ^ 63" "pos + count \<le> maxfs" "add64 pos count = pos + count"
    using assms(1) by (auto simp: writable_def FILE_LIMIT_def NR_GROUPS_def shm_consts c_arith)
  have "libfs_read f' buf' count pos = Inr (count, pos + count, copy_bytes count 0 buf' pos (lf_data f'))"
    using libfs_read_result [OF b(1,2), of f' buf'] f'(3) assms(2) b(2) by simp
  moreover have "copy_bytes count 0 buf' pos (lf_data f') = copy_bytes count 0 buf' 0 buf"
    unfolding f'(2) by (auto simp: copy_bytes_def)
  moreover have "\<forall>a. a < pos \<or> pos + count \<le> a \<longrightarrow> lf_data f' a = lf_data f a"
    unfolding f'(2) by (auto simp: copy_bytes_def)
  moreover have "shm_wf maxfs (lf_shm f')" using libfs_write_shm_wf [OF assms(1) bits low] .
  ultimately show ?thesis
    using f'(1,3) b bits by (simp add: libfs_posix_pwrite64_def libfs_posix_pread64_def write_bits_def less_Suc_eq_le)
qed

text \<open>An empty file of at most 1 GiB.\<close>

definition empty_file :: lfs_file where
  "empty_file = \<lparr>lf_pos = 0, lf_data = (\<lambda>_. 0), lf_shm = (\<lambda>_. 0), lf_size = 0, lf_state = 0, lf_counters = init_dirty_mgmt\<rparr>"

lemma empty_file_writable:
  assumes "0 < count" "count < 2 ^ 30" "pos + count \<le> 2 ^ 30"
  shows "writable (2 ^ 30) (\<lambda>s. s) False empty_file count pos" "lf_size empty_file < 2 ^ 63"
    "dirty_grouped (2 ^ 30) (lf_shm empty_file)"
  using assms
  by (simp_all add: writable_def empty_file_def shm_wf_def page_bit_def journal_ready_def FILE_LIMIT_eq shm_consts
      SHM_DATA_DIRTY_def SHM_USE_JOURNAL_def dirty_grouped_def)

theorem libfs_write_read_round_trip_witness:
  "\<exists>f'. libfs_posix_pwrite64 (2 ^ 30) (\<lambda>s. s) False empty_file (\<lambda>i. of_nat i) 5000 4000 = Inr (5000, f') \<and>
    libfs_posix_pread64 f' (\<lambda>_. 0) 5000 4000 = Inr (5000, copy_bytes 5000 0 (\<lambda>_. 0) 0 (\<lambda>i. of_nat i)) \<and>
    lf_size f' = 9000 \<and> lf_data f' 3999 = 0"
proof -
  have w: "writable (2 ^ 30) (\<lambda>s. s) False empty_file 5000 4000" "lf_size empty_file < 2 ^ 63"
    using empty_file_writable [of 5000 4000] by simp_all
  show ?thesis
    using libfs_write_read_round_trip [OF w, of "\<lambda>i. of_nat i" "\<lambda>_. 0"] by (auto simp: empty_file_def)
qed
text \<open>C23. The pages of a write of at most 32 MiB reach the daemon: a collection after the write returns, in
  ascending order, the pages that were dirty before and those of the write.\<close>

theorem libfs_write_then_collect:
  assumes "writable maxfs sd j0 f count pos" "count \<le> PEB_COVERAGE" "dirty_grouped maxfs (lf_shm f)" "dl_ok l"
    and "\<forall>p<NR_GROUPS * NR_PAGES_IN_PEB. \<not> page_bit maxfs (lf_shm f) p LOCKBIT"
  shows "\<exists>f' m' l' rs. libfs_write maxfs sd j0 f buf count pos = Inr (count, pos + count, f') \<and>
    inode_gather_dirty_pagebits maxfs (\<lambda>_. True) (lf_shm f') l = (m', l') \<and>
    lists_of l' = map (\<lambda>xs. xs @ rs) (lists_of l) \<and>
    range_pages rs = filter (\<lambda>p. page_bit maxfs (lf_shm f) p DIRTYBIT \<or> pos div PAGE_SIZE \<le> p \<and> p \<le> last_page pos count)
      [0..<NR_GROUPS * NR_PAGES_IN_PEB]"
proof -
  obtain f' where f': "libfs_write maxfs sd j0 f buf count pos = Inr (count, pos + count, f')"
    and bits: "\<And>p ty. page_bit maxfs (lf_shm f') p ty =
       write_bits maxfs (lf_shm f) (lf_size f) (eof_page f) pos count (Suc (last_page pos count)) p ty"
    and low: "\<And>a. a < peb maxfs 0 \<Longrightarrow> lf_shm f' a = write_prepared f count pos a"
    using libfs_write_result [OF assms(1)] by metis
  have lk: "\<forall>p<NR_GROUPS * NR_PAGES_IN_PEB. \<not> (page_bit maxfs (lf_shm f') p DIRTYBIT \<and> page_bit maxfs (lf_shm f') p LOCKBIT)"
    using assms(5) by (simp add: bits write_bits_def)
  have d: "page_bit maxfs (lf_shm f') p DIRTYBIT \<longleftrightarrow>
      page_bit maxfs (lf_shm f) p DIRTYBIT \<or> pos div PAGE_SIZE \<le> p \<and> p \<le> last_page pos count" for p
    by (auto simp: bits write_bits_def)
  obtain m' l' rs where "inode_gather_dirty_pagebits maxfs (\<lambda>_. True) (lf_shm f') l = (m', l')"
    "lists_of l' = map (\<lambda>xs. xs @ rs) (lists_of l)"
    "range_pages rs = filter (\<lambda>p. page_bit maxfs (lf_shm f') p DIRTYBIT) [0..<NR_GROUPS * NR_PAGES_IN_PEB]"
    using inode_gather_collects [OF assms(4) lk libfs_write_dirty_grouped [OF assms(1-3) bits low, unfolded dirty_grouped_def]] by metis
  then show ?thesis using f' unfolding d by blast
qed

theorem libfs_write_then_collect_witness:
  "\<exists>f' m' l' rs. libfs_write (2 ^ 30) (\<lambda>s. s) False empty_file (\<lambda>_. 1) 5000 4000 = Inr (5000, 9000, f') \<and>
    inode_gather_dirty_pagebits (2 ^ 30) (\<lambda>_. True) (lf_shm f') (Staging \<lparr>il_nodes = [empty_ird], il_tail = None\<rparr>) = (m', l') \<and>
    lists_of l' = [rs] \<and> range_pages rs = [0, 1, 2]"
proof -
  let ?l = "Staging \<lparr>il_nodes = [empty_ird], il_tail = None\<rparr>" and ?n = "NR_GROUPS * NR_PAGES_IN_PEB"
  have w: "writable (2 ^ 30) (\<lambda>s. s) False empty_file 5000 4000" "5000 \<le> PEB_COVERAGE" "dirty_grouped (2 ^ 30) (lf_shm empty_file)"
    using empty_file_writable [of 5000 4000] by (simp_all add: shm_consts)
  have ok: "dl_ok ?l" using ird_chain_empty(1) by (simp add: il_ok_def ird_from_def)
  have z: "page_bit (2 ^ 30) (lf_shm empty_file) p ty = False" for p ty by (simp add: empty_file_def page_bit_def)
  have lk: "\<forall>p<?n. \<not> page_bit (2 ^ 30) (lf_shm empty_file) p LOCKBIT" unfolding z by simp
  have n: "3 \<le> ?n" "0 < NR_GROUPS" "0 < NR_PAGES_IN_PEB" by (simp_all add: NR_GROUPS_def shm_consts)
  have "filter (\<lambda>p. page_bit (2 ^ 30) (lf_shm empty_file) p DIRTYBIT \<or> 4000 div PAGE_SIZE \<le> p \<and> p \<le> last_page 4000 5000) [0..<?n] = [0, 1, 2]"
    using n unfolding z by (intro filter_upt_eq) (auto simp: last_page_def PAGE_SIZE_def)
  then show ?thesis
    using libfs_write_then_collect [OF w ok lk, of "\<lambda>_. 1"] ird_chain_empty(2) by auto
qed

text \<open>C24. A write of more than 32 MiB whose first and last page are a multiple of 8192 pages apart leaves the
  group of its last page unmarked: the last page is dirty, but the collection of dirty pages, which visits
  the marked groups only, does not see it.\<close>

theorem libfs_write_large_unmarked:
  assumes "writable maxfs sd j0 f count pos" "count > PEB_COVERAGE"
    and "NR_PAGES_IN_PEB dvd last_page pos count - pos div PAGE_SIZE"
    and "\<not> group_bit maxfs (lf_shm f) (last_page pos count div NR_PAGES_IN_PEB)"
  shows "\<exists>f'. libfs_write maxfs sd j0 f buf count pos = Inr (count, pos + count, f') \<and>
    page_bit maxfs (lf_shm f') (last_page pos count) DIRTYBIT \<and>
    \<not> group_bit maxfs (lf_shm f') (last_page pos count div NR_PAGES_IN_PEB)"
proof -
  let ?s = "pos div PAGE_SIZE" and ?e = "last_page pos count"
  obtain f' where f': "libfs_write maxfs sd j0 f buf count pos = Inr (count, pos + count, f')"
    and bits: "\<And>p ty. page_bit maxfs (lf_shm f') p ty =
       write_bits maxfs (lf_shm f) (lf_size f) (eof_page f) pos count (Suc ?e) p ty"
    and low: "\<And>a. a < peb maxfs 0 \<Longrightarrow> lf_shm f' a = write_prepared f count pos a"
    using libfs_write_result [OF assms(1)] by metis
  note p = writable_pages [OF assms(1)]
  have N: "0 < NR_PAGES_IN_PEB" by (simp add: shm_consts)
  obtain d where d: "?e = ?s + d * NR_PAGES_IN_PEB" using assms(3) p(1) by (metis dvd_def le_add_diff_inverse mult.commute)
  have "\<not> (?s + k * NR_PAGES_IN_PEB < ?e \<and> ?e div NR_PAGES_IN_PEB = ?s div NR_PAGES_IN_PEB + k)" for k
    using N unfolding d by auto
  then have "\<not> group_bit maxfs (dirty_groups (lf_shm f) count ?s ?e) (?e div NR_PAGES_IN_PEB)"
    using dirty_groups_from [OF conjunct1 [OF writable_nr [OF assms(1)]], of ?e 0 "lf_shm f" ?s] assms(2,4) p(2)
    by (simp add: dirty_groups_def)
  moreover have "?e div NR_PAGES_IN_PEB < NR_GROUPS" using p(2) by (rule less_mult_imp_div_less)
  ultimately have "\<not> group_bit maxfs (lf_shm f') (?e div NR_PAGES_IN_PEB)"
    using libfs_write_group_bit [OF assms(1) low] by blast
  then show ?thesis using f' p(1) by (auto simp: bits write_bits_def)
qed

theorem libfs_write_large_unmarked_witness:
  "\<exists>f'. libfs_write (2 ^ 30) (\<lambda>s. s) False empty_file (\<lambda>_. 1) 33554433 0 = Inr (33554433, 33554433, f') \<and>
    page_bit (2 ^ 30) (lf_shm f') 8192 DIRTYBIT \<and> \<not> group_bit (2 ^ 30) (lf_shm f') 1"
proof -
  have l: "last_page 0 33554433 = 8192" by (simp add: last_page_def PAGE_SIZE_def)
  have w: "writable (2 ^ 30) (\<lambda>s. s) False empty_file 33554433 0"
    using empty_file_writable [of 33554433 0] by simp
  have h: "33554433 > PEB_COVERAGE" "NR_PAGES_IN_PEB dvd last_page 0 33554433 - 0 div PAGE_SIZE"
    "\<not> group_bit (2 ^ 30) (lf_shm empty_file) (last_page 0 33554433 div NR_PAGES_IN_PEB)"
    unfolding l by (simp_all add: shm_consts group_bit_def empty_file_def)
  show ?thesis
    using libfs_write_large_unmarked [OF w h, of "\<lambda>_. 1"] unfolding l by (simp add: shm_consts)
qed

end
