(* ===== verification/Ox_Buffer.thy ===== *)
theory Ox_Buffer
  imports Ox_Bio Ox_Sjd
begin

text \<open>
  The buffer cache of the daemon (\<^verbatim>\<open>secure_daemon/src/fs/buffer.c\<close> and
  \<^verbatim>\<open>secure_daemon/include/fs/buffer_head.h\<close>).  A buffer head is named by its block number,
  as in the hash table of the block device; the private lists of the address spaces hold block
  numbers.  Memory is taken to be available; \<open>junk\<close> is what fresh memory holds.  The cache is
  an extensible record, so that a file system can add its own state.
\<close>

section \<open>State\<close>

datatype mapping_id = Sb_mapping | Inode_mapping nat

record buffer_head =
  bh_new :: bool
  bh_uptodate :: bool
  bh_dirty :: bool
  bh_huge :: bool
  bh_sub :: bool
  bh_injournal :: bool
  bh_locked :: bool
  b_count :: nat
  b_data :: block
  b_assoc_map :: "mapping_id option"

record bcache =
  bhs :: "nat \<rightharpoonup> buffer_head"
  private_list :: "mapping_id \<Rightarrow> nat list"
  nr_entries :: "mapping_id \<Rightarrow> nat"
  bdev_disk :: "block disk"

definition set_bh :: "nat \<Rightarrow> buffer_head \<Rightarrow> 'a bcache_scheme \<Rightarrow> 'a bcache_scheme" where
  "set_bh b bh bc = bc\<lparr>bhs := (bhs bc)(b \<mapsto> bh)\<rparr>"

section \<open>Looking up and reading buffers\<close>

text \<open>\<^verbatim>\<open>get_bh\<close> and \<^verbatim>\<open>put_bh\<close> pass \<^verbatim>\<open>memory_order_acq_rel\<close> as the amount, which is 4.\<close>

definition get_bh :: "buffer_head \<Rightarrow> buffer_head" where
  "get_bh bh = bh\<lparr>b_count := add32 (b_count bh) 4\<rparr>"

definition put_bh :: "buffer_head \<Rightarrow> buffer_head" where
  "put_bh bh = bh\<lparr>b_count := sub32 (b_count bh) 4\<rparr>"

definition get_buffer_head :: "'a bcache_scheme \<Rightarrow> nat \<Rightarrow> buffer_head option" where
  "get_buffer_head bc b = bhs bc b"

definition new_buffer :: "block \<Rightarrow> buffer_head" where
  "new_buffer junk =
     \<lparr>bh_new = True, bh_uptodate = False, bh_dirty = False, bh_huge = False, bh_sub = False,
      bh_injournal = False, bh_locked = False, b_count = 0, b_data = junk, b_assoc_map = None\<rparr>"

definition alloc_buffer :: "block \<Rightarrow> nat \<Rightarrow> 'a bcache_scheme \<Rightarrow> 'a bcache_scheme" where
  "alloc_buffer junk b bc =
     (case bhs bc b of None \<Rightarrow> set_bh b (new_buffer junk) bc | Some _ \<Rightarrow> bc)"

text \<open>The end of an input or output: \<^verbatim>\<open>bh_end_io\<close> of \<^verbatim>\<open>io_dispatcher.c\<close>.\<close>

definition bh_end_io :: "buffer_head \<Rightarrow> buffer_head" where
  "bh_end_io bh = bh\<lparr>bh_new := False, bh_uptodate := True, bh_locked := False\<rparr>"

definition slow_bread :: "nat \<Rightarrow> buffer_head \<Rightarrow> 'a bcache_scheme \<Rightarrow> ox_error + 'a bcache_scheme" where
  "slow_bread b bh bc =
     (if bh_locked bh then Inl Blocked
      else if bh_uptodate bh then Inr bc
      else Inr (set_bh b (bh_end_io ((get_bh bh)\<lparr>b_data := bdev_disk bc b\<rparr>)) bc))"

definition sb_bread_buffer :: "nat \<Rightarrow> buffer_head \<Rightarrow> 'a bcache_scheme \<Rightarrow> ox_error + 'a bcache_scheme" where
  "sb_bread_buffer b bh bc =
     (if \<not> bh_uptodate bh then slow_bread b bh bc else Inr (set_bh b (get_bh bh) bc))"

definition sb_bread :: "(nat \<Rightarrow> block) \<Rightarrow> nat \<Rightarrow> 'a bcache_scheme \<Rightarrow> ox_error + ('a bcache_scheme \<times> buffer_head)" where
  "sb_bread junk b bc =
     (let bc = (case get_buffer_head bc b of None \<Rightarrow> alloc_buffer (junk b) b bc | Some _ \<Rightarrow> bc)
      in case get_buffer_head bc b of
           None \<Rightarrow> Inl Null_deref
         | Some bh \<Rightarrow>
             (case sb_bread_buffer b bh bc of
                Inl e \<Rightarrow> Inl e
              | Inr bc \<Rightarrow> (case get_buffer_head bc b of None \<Rightarrow> Inl Null_deref | Some bh \<Rightarrow> Inr (bc, bh))))"

definition sb_balloc :: "(nat \<Rightarrow> block) \<Rightarrow> nat \<Rightarrow> 'a bcache_scheme \<Rightarrow> ox_error + ('a bcache_scheme \<times> buffer_head)" where
  "sb_balloc junk b bc =
     (let bc = (case get_buffer_head bc b of None \<Rightarrow> alloc_buffer (junk b) b bc | Some _ \<Rightarrow> bc)
      in case get_buffer_head bc b of None \<Rightarrow> Inl Null_deref | Some bh \<Rightarrow> Inr (bc, bh))"

definition brelse :: "nat \<Rightarrow> 'a bcache_scheme \<Rightarrow> 'a bcache_scheme" where
  "brelse b bc =
     (case bhs bc b of None \<Rightarrow> bc
      | Some bh \<Rightarrow> if b_count bh \<noteq> 0 then set_bh b (put_bh bh) bc else bc)"

text \<open>\<^verbatim>\<open>__sb_mballoc\<close>: buffers for \<open>nr\<close> blocks over one zeroed area; a block that is in the
  cache already is an error.\<close>

primrec sb_mballoc_loop :: "nat \<Rightarrow> nat \<Rightarrow> nat \<Rightarrow> 'a bcache_scheme \<Rightarrow> ox_error + 'a bcache_scheme" where
  "sb_mballoc_loop b i 0 bc = Inr bc"
| "sb_mballoc_loop b i (Suc n) bc =
     (case bhs bc (b + i) of
        Some _ \<Rightarrow> Inl Invalid_arg
      | None \<Rightarrow> sb_mballoc_loop b (Suc i) n
          (set_bh (b + i) ((new_buffer (\<lambda>_. 0))\<lparr>bh_new := False, bh_huge := (i = 0), bh_sub := (i \<noteq> 0)\<rparr>) bc))"

definition sb_mballoc :: "nat \<Rightarrow> nat \<Rightarrow> 'a bcache_scheme \<Rightarrow> ox_error + 'a bcache_scheme" where
  "sb_mballoc b nr bc = sb_mballoc_loop b 0 nr bc"

section \<open>Dirty buffers\<close>

definition mark_buffer_dirty :: "nat \<Rightarrow> 'a bcache_scheme \<Rightarrow> 'a bcache_scheme" where
  "mark_buffer_dirty b bc =
     (case bhs bc b of None \<Rightarrow> bc
      | Some bh \<Rightarrow> if bh_dirty bh then bc else set_bh b (bh\<lparr>bh_dirty := True\<rparr>) bc)"

text \<open>A buffer is on one list at most, through its \<^verbatim>\<open>elem\<close>.\<close>

definition list_move_tail :: "nat \<Rightarrow> mapping_id \<Rightarrow> (mapping_id \<Rightarrow> nat list) \<Rightarrow> mapping_id \<Rightarrow> nat list" where
  "list_move_tail b m ls =
     (let ls = (\<lambda>k. removeAll b (ls k)) in ls(m := ls m @ [b]))"

definition mark_buffer_dirty_map :: "nat \<Rightarrow> mapping_id \<Rightarrow> 'a bcache_scheme \<Rightarrow> ox_error + 'a bcache_scheme" where
  "mark_buffer_dirty_map b m bc =
     (let bc = mark_buffer_dirty b bc
      in case bhs bc b of
           None \<Rightarrow> Inl Null_deref
         | Some bh \<Rightarrow>
             (case b_assoc_map bh of
                None \<Rightarrow> Inr ((set_bh b (bh\<lparr>b_assoc_map := Some m\<rparr>) bc)
                  \<lparr>private_list := list_move_tail b m (private_list bc),
                   nr_entries := (nr_entries bc)(m := add64 (nr_entries bc m) 1)\<rparr>)
              | Some m' \<Rightarrow>
                  if m' = m then Inr bc
                  else Inr ((set_bh b (bh\<lparr>b_assoc_map := Some m\<rparr>) bc)
                    \<lparr>private_list := list_move_tail b m (private_list bc)\<rparr>)))"

definition mark_buffer_dirty_inode :: "nat \<Rightarrow> nat \<Rightarrow> 'a bcache_scheme \<Rightarrow> ox_error + 'a bcache_scheme" where
  "mark_buffer_dirty_inode b ino bc = mark_buffer_dirty_map b (Inode_mapping ino) bc"

definition mark_buffer_dirty_sb :: "nat \<Rightarrow> 'a bcache_scheme \<Rightarrow> ox_error + 'a bcache_scheme" where
  "mark_buffer_dirty_sb b bc = mark_buffer_dirty_map b Sb_mapping bc"

definition sb_bwrite :: "block option \<Rightarrow> nat \<Rightarrow> 'a bcache_scheme \<Rightarrow> ox_error + 'a bcache_scheme" where
  "sb_bwrite buf b bc =
     (case get_buffer_head bc b of
        None \<Rightarrow> Inl Assertion
      | Some bh \<Rightarrow>
          Inr (mark_buffer_dirty b
            (case buf of None \<Rightarrow> bc
             | Some x \<Rightarrow> set_bh b (bh\<lparr>b_data := copy_bytes OXBOW_BLOCK_SIZE 0 (b_data bh) 0 x\<rparr>) bc)))"

definition sync_dirty_buffer :: "nat \<Rightarrow> 'a bcache_scheme \<Rightarrow> ox_error + 'a bcache_scheme" where
  "sync_dirty_buffer b bc =
     (case bhs bc b of
        None \<Rightarrow> Inl Null_deref
      | Some bh \<Rightarrow>
          if \<not> bh_dirty bh then Inr bc
          else if bh_locked bh then Inl Blocked
          else Inr ((set_bh b (bh_end_io (bh\<lparr>bh_dirty := False\<rparr>)) bc)
                 \<lparr>bdev_disk := (bdev_disk bc)(b := b_data bh)\<rparr>))"

text \<open>Forgetting a buffer of a deleted file.  On the list of another mapping the reset of
  \<^verbatim>\<open>elem\<close> would break that list, which is the error.\<close>

definition free_buffer_head_inode :: "nat \<Rightarrow> nat \<Rightarrow> 'a bcache_scheme \<Rightarrow> ox_error + 'a bcache_scheme" where
  "free_buffer_head_inode b ino bc =
     (case get_buffer_head bc b of
        None \<Rightarrow> Inr bc
      | Some bh \<Rightarrow>
          (let m = Inode_mapping ino;
               bc1 = (if b_assoc_map bh = Some m
                      then bc\<lparr>private_list := (private_list bc)(m := removeAll b (private_list bc m))\<rparr> else bc)
           in if (case b_assoc_map bh of None \<Rightarrow> False | Some k \<Rightarrow> b \<in> set (private_list bc1 k)) then Inl Invalid_arg
              else Inr (set_bh b (bh\<lparr>b_assoc_map := None, bh_new := False, bh_uptodate := False, bh_dirty := False,
                     bh_huge := False, bh_sub := False, bh_injournal := False, bh_locked := False\<rparr>) bc1)))"

definition bh_allfree :: "'a bcache_scheme \<Rightarrow> 'a bcache_scheme" where
  "bh_allfree bc = bc\<lparr>bhs := Map.empty\<rparr>"

definition init_block_device :: "block disk \<Rightarrow> bcache" where
  "init_block_device d =
     \<lparr>bhs = Map.empty, private_list = (\<lambda>_. []), nr_entries = (\<lambda>_. 0), bdev_disk = d\<rparr>"

section \<open>Specification\<close>

text \<open>What a reader of block \<open>b\<close> gets; a buffer is on the list of a mapping if and only if it is
  associated with the mapping.\<close>

definition bc_view :: "'a bcache_scheme \<Rightarrow> nat \<Rightarrow> block" where
  "bc_view bc b = (case bhs bc b of Some bh \<Rightarrow> if bh_uptodate bh then b_data bh else bdev_disk bc b
                                  | None \<Rightarrow> bdev_disk bc b)"

definition assoc :: "'a bcache_scheme \<Rightarrow> nat \<Rightarrow> mapping_id option" where
  "assoc bc b = (case bhs bc b of None \<Rightarrow> None | Some bh \<Rightarrow> b_assoc_map bh)"

definition assoc_inv :: "'a bcache_scheme \<Rightarrow> bool" where
  "assoc_inv bc \<longleftrightarrow> (\<forall>m. distinct (private_list bc m) \<and> (\<forall>b. b \<in> set (private_list bc m) \<longleftrightarrow> assoc bc b = Some m))"

definition unlocked :: "'a bcache_scheme \<Rightarrow> bool" where
  "unlocked bc \<longleftrightarrow> (\<forall>b bh. bhs bc b = Some bh \<longrightarrow> \<not> bh_locked bh)"

section \<open>Lemmas\<close>

lemma set_bh_sel [simp]:
  "bhs (set_bh b bh bc) = (bhs bc)(b \<mapsto> bh)" "private_list (set_bh b bh bc) = private_list bc"
  "nr_entries (set_bh b bh bc) = nr_entries bc" "bdev_disk (set_bh b bh bc) = bdev_disk bc"
  "bcache.more (set_bh b bh bc) = bcache.more bc"
  by (simp_all add: set_bh_def)

lemma bc_view_set_bh [simp]:
  "bc_view (set_bh b bh bc) = (bc_view bc)(b := if bh_uptodate bh then b_data bh else bdev_disk bc b)"
  by (rule ext) (auto simp: bc_view_def split: option.splits)

lemma assoc_set_bh [simp]: "assoc (set_bh b bh bc) = (assoc bc)(b := b_assoc_map bh)"
  by (auto simp: assoc_def fun_eq_iff)

lemma unlocked_set_bh: "unlocked bc \<Longrightarrow> \<not> bh_locked bh \<Longrightarrow> unlocked (set_bh b bh bc)"
  by (auto simp: unlocked_def)

lemma view_at:
  "bhs bc b = None \<Longrightarrow> bc_view bc b = bdev_disk bc b \<and> assoc bc b = None"
  "bhs bc b = Some bh \<Longrightarrow> bc_view bc b = (if bh_uptodate bh then b_data bh else bdev_disk bc b) \<and> assoc bc b = b_assoc_map bh"
  by (simp_all add: bc_view_def assoc_def)

lemma assoc_inv_keep:
  "assoc_inv bc \<Longrightarrow> private_list bc' = private_list bc \<Longrightarrow> assoc bc' = assoc bc \<Longrightarrow> assoc_inv bc'"
  by (simp add: assoc_inv_def)

text \<open>Reading: the view is what is read and stays as it is.\<close>

lemma sb_bread_reads:
  assumes "unlocked bc"
  obtains bc' bh where "sb_bread junk b bc = Inr (bc', bh)" "bhs bc' b = Some bh" "bh_uptodate bh"
    "b_data bh = bc_view bc b" "bc_view bc' = bc_view bc" "assoc bc' = assoc bc" "private_list bc' = private_list bc"
    "bdev_disk bc' = bdev_disk bc" "unlocked bc'" "bcache.more bc' = bcache.more bc"
    "\<And>c. c \<noteq> b \<Longrightarrow> bhs bc' c = bhs bc c"
proof -
  let ?old = "case bhs bc b of None \<Rightarrow> new_buffer (junk b) | Some bh \<Rightarrow> bh"
  let ?bcn = "case bhs bc b of None \<Rightarrow> set_bh b (new_buffer (junk b)) bc | Some bh \<Rightarrow> bc"
  let ?bh = "if bh_uptodate ?old then get_bh ?old else bh_end_io ((get_bh ?old)\<lparr>b_data := bdev_disk bc b\<rparr>)"
  have u: "\<not> bh_locked ?old" using assms by (auto simp: unlocked_def new_buffer_def split: option.splits)
  have r: "sb_bread junk b bc = Inr (set_bh b ?bh ?bcn, ?bh)"
    using u by (auto simp: sb_bread_def get_buffer_head_def alloc_buffer_def sb_bread_buffer_def slow_bread_def
        split: option.splits)
  have v: "bc_view (set_bh b ?bh ?bcn) = bc_view bc" "b_data ?bh = bc_view bc b" "bh_uptodate ?bh"
    "assoc (set_bh b ?bh ?bcn) = assoc bc"
    using view_at [of bc b] by (auto simp: fun_eq_iff new_buffer_def bh_end_io_def get_bh_def split: option.splits)
  have l: "unlocked (set_bh b ?bh ?bcn)"
    using u assms by (auto simp: unlocked_def new_buffer_def bh_end_io_def get_bh_def split: option.splits if_splits)
  have k: "bhs (set_bh b ?bh ?bcn) b = Some ?bh" "private_list (set_bh b ?bh ?bcn) = private_list bc"
    "bdev_disk (set_bh b ?bh ?bcn) = bdev_disk bc" "bcache.more (set_bh b ?bh ?bcn) = bcache.more bc"
    "\<And>c. c \<noteq> b \<Longrightarrow> bhs (set_bh b ?bh ?bcn) c = bhs bc c"
    by (auto split: option.splits)
  show thesis by (rule that [OF r k(1) v(3,2,1,4) k(2,3) l k(4,5)])
qed

lemma brelse_keeps [simp]:
  "bc_view (brelse b bc) = bc_view bc" "assoc (brelse b bc) = assoc bc"
  "private_list (brelse b bc) = private_list bc" "bdev_disk (brelse b bc) = bdev_disk bc"
  using view_at(2) [of bc b] by (auto simp: fun_eq_iff brelse_def put_bh_def split: option.splits)

lemma unlocked_brelse: "unlocked bc \<Longrightarrow> unlocked (brelse b bc)"
  by (auto simp: brelse_def unlocked_def put_bh_def split: option.splits)

lemma mark_buffer_dirty_keeps [simp]:
  "private_list (mark_buffer_dirty b bc) = private_list bc" "bc_view (mark_buffer_dirty b bc) = bc_view bc"
  "bdev_disk (mark_buffer_dirty b bc) = bdev_disk bc" "assoc (mark_buffer_dirty b bc) = assoc bc"
  "bcache.more (mark_buffer_dirty b bc) = bcache.more bc"
  using view_at(2) [of bc b] by (auto simp: fun_eq_iff mark_buffer_dirty_def split: option.splits)

lemma mark_buffer_dirty_at:
  "bhs bc b = Some bh \<Longrightarrow> bhs (mark_buffer_dirty b bc) = (bhs bc)(b \<mapsto> bh\<lparr>bh_dirty := True\<rparr>)"
  by (auto simp: mark_buffer_dirty_def)

lemma set_list_move_tail:
  "set (list_move_tail b m ls k) = (if k = m then insert b (set (ls k)) else set (ls k) - {b})"
  by (auto simp: list_move_tail_def Let_def)

lemma distinct_list_move_tail: "distinct (ls k) \<Longrightarrow> distinct (list_move_tail b m ls k)"
  by (auto simp: list_move_tail_def Let_def distinct_removeAll)

lemma assoc_inv_move:
  assumes "assoc_inv bc" "private_list bc' = list_move_tail b m (private_list bc)"
    "assoc bc' = (assoc bc)(b := Some m)"
  shows "assoc_inv bc'"
  using assms by (auto simp: assoc_inv_def set_list_move_tail distinct_list_move_tail)

text \<open>A buffer that is marked dirty for a mapping is on the list of the mapping.\<close>

lemma mark_buffer_dirty_map_listed:
  assumes inv: "assoc_inv bc" and b: "bhs bc b = Some bh"
  obtains bc' where "mark_buffer_dirty_map b m bc = Inr bc'" "assoc_inv bc'" "b \<in> set (private_list bc' m)"
    "bhs bc' b = Some (bh\<lparr>bh_dirty := True, b_assoc_map := Some m\<rparr>)" "\<And>c. c \<noteq> b \<Longrightarrow> bhs bc' c = bhs bc c"
    "bc_view bc' = bc_view bc" "bdev_disk bc' = bdev_disk bc" "bcache.more bc' = bcache.more bc"
    "private_list bc' m = (if b_assoc_map bh = Some m then private_list bc m else private_list bc m @ [b])"
proof -
  let ?bh = "bh\<lparr>bh_dirty := True\<rparr>"
  note d = mark_buffer_dirty_at [OF b]
  have ab: "assoc bc b = b_assoc_map bh" using b by (simp add: assoc_def)
  show thesis
  proof (cases "b_assoc_map bh = Some m")
    case True
    show thesis
      by (rule that [of "mark_buffer_dirty b bc"])
        (use True inv b ab d in \<open>auto simp: mark_buffer_dirty_map_def Let_def assoc_inv_def\<close>)
  next
    case False
    then have nl: "b \<notin> set (private_list bc m)" using inv ab by (auto simp: assoc_inv_def)
    let ?mv = "list_move_tail b m (private_list bc)"
    obtain bc' where r: "mark_buffer_dirty_map b m bc = Inr bc'" and p: "private_list bc' = ?mv"
      and h: "bhs bc' = (bhs bc)(b \<mapsto> ?bh\<lparr>b_assoc_map := Some m\<rparr>)"
      and k: "bdev_disk bc' = bdev_disk bc" "bcache.more bc' = bcache.more bc"
      using False d by (cases "b_assoc_map bh") (auto simp: mark_buffer_dirty_map_def Let_def)
    have a: "assoc bc' = (assoc bc)(b := Some m)" using h by (auto simp: assoc_def fun_eq_iff)
    have v: "bc_view bc' = bc_view bc"
      using h b k(1) by (intro ext) (auto simp: bc_view_def split: option.splits)
    have l: "?mv m = private_list bc m @ [b]" using nl by (simp add: list_move_tail_def Let_def)
    show thesis
      using assoc_inv_move [OF inv p a] nl l p h k v False by (intro that [OF r]) auto
  qed
qed

lemma mark_buffer_dirty_map_at:
  assumes "bhs bc b = Some bh"
  obtains bc' where "mark_buffer_dirty_map b m bc = Inr bc'"
    "bhs bc' = (bhs bc)(b \<mapsto> bh\<lparr>bh_dirty := True, b_assoc_map := Some m\<rparr>)"
    "private_list bc' = (if b_assoc_map bh = Some m then private_list bc else list_move_tail b m (private_list bc))"
    "bdev_disk bc' = bdev_disk bc" "bcache.more bc' = bcache.more bc"
  using mark_buffer_dirty_at [OF assms] assms
  by (intro that [of "projr (mark_buffer_dirty_map b m bc)"])
    (auto simp: mark_buffer_dirty_map_def Let_def split: option.splits)

lemma bc_view_upd:
  "bhs bc' = (bhs bc)(b \<mapsto> bh) \<Longrightarrow> bdev_disk bc' = bdev_disk bc \<Longrightarrow> bh_uptodate bh \<Longrightarrow>
   bc_view bc' = (bc_view bc)(b := b_data bh)"
  by (rule ext) (simp add: bc_view_def split: option.split)

lemma unlocked_upd:
  "bhs bc' = (bhs bc)(b \<mapsto> bh) \<Longrightarrow> \<not> bh_locked bh \<Longrightarrow> unlocked bc \<Longrightarrow> unlocked bc'"
  by (auto simp: unlocked_def)

lemma unlockedD: "unlocked bc \<Longrightarrow> bhs bc b = Some bh \<Longrightarrow> \<not> bh_locked bh"
  by (simp add: unlocked_def)

text \<open>Reading a block leaves what a reader sees, the lists, and the marks of all buffers.\<close>

definition bh_flags :: "'a bcache_scheme \<Rightarrow> nat \<Rightarrow> bool \<times> bool" where
  "bh_flags bc b = (case bhs bc b of None \<Rightarrow> (False, False) | Some bh \<Rightarrow> (bh_dirty bh, bh_injournal bh))"

definition bh_valid :: "'a bcache_scheme \<Rightarrow> nat \<Rightarrow> bool" where
  "bh_valid bc b \<longleftrightarrow> (\<exists>bh. bhs bc b = Some bh \<and> bh_uptodate bh)"

definition bc_same :: "'a bcache_scheme \<Rightarrow> 'a bcache_scheme \<Rightarrow> bool" where
  "bc_same bc bc' \<longleftrightarrow> bc_view bc' = bc_view bc \<and> assoc bc' = assoc bc \<and> private_list bc' = private_list bc \<and>
     bdev_disk bc' = bdev_disk bc \<and> bcache.more bc' = bcache.more bc \<and> bh_flags bc' = bh_flags bc \<and>
     dom (bhs bc) \<subseteq> dom (bhs bc') \<and> (\<forall>b. bh_valid bc b \<longrightarrow> bh_valid bc' b) \<and> (unlocked bc \<longrightarrow> unlocked bc')"

lemma bc_same_refl [simp]: "bc_same bc bc"
  by (simp add: bc_same_def)

lemma bc_same_trans: "bc_same a b \<Longrightarrow> bc_same b c \<Longrightarrow> bc_same a c"
  by (auto simp: bc_same_def)

lemma sb_bread_same:
  assumes u: "unlocked bc"
  obtains bc' bh where "sb_bread junk b bc = Inr (bc', bh)" "bc_same bc bc'" "unlocked bc'"
    "bhs bc' b = Some bh" "bh_uptodate bh" "b_data bh = bc_view bc b" "\<not> bh_locked bh"
proof -
  obtain bc' bh where r: "sb_bread junk b bc = Inr (bc', bh)" "bhs bc' b = Some bh" "bh_uptodate bh"
    "b_data bh = bc_view bc b" "bc_view bc' = bc_view bc" "assoc bc' = assoc bc" "private_list bc' = private_list bc"
    "bdev_disk bc' = bdev_disk bc" "unlocked bc'" "bcache.more bc' = bcache.more bc"
    "\<And>c. c \<noteq> b \<Longrightarrow> bhs bc' c = bhs bc c" using sb_bread_reads [OF u, of junk b] by metis
  have "bh_dirty bh = fst (bh_flags bc b) \<and> bh_injournal bh = snd (bh_flags bc b)"
    using r(1) u unfolding bh_flags_def
    by (auto simp: sb_bread_def get_buffer_head_def alloc_buffer_def sb_bread_buffer_def slow_bread_def unlocked_def
        new_buffer_def get_bh_def bh_end_io_def split: option.splits if_splits)
  then have "bh_flags bc' b = bh_flags bc b" using r(2) by (simp add: bh_flags_def [of bc'])
  then have "bh_flags bc' = bh_flags bc" using r(11) by (intro ext) (metis bh_flags_def)
  moreover have "dom (bhs bc) \<subseteq> dom (bhs bc')" using r(2,11) by (metis (full_types) domD domI subsetI)
  moreover have "\<not> bh_locked bh" using r(2,9) by (simp add: unlocked_def)
  moreover have "\<forall>c. bh_valid bc c \<longrightarrow> bh_valid bc' c" using r(2,3,11) by (metis bh_valid_def)
  ultimately show thesis using that r by (simp add: bc_same_def)
qed

lemma brelse_same [simp]: "bc_same bc (brelse b bc)"
proof -
  have "bh_flags (brelse b bc) = bh_flags bc" "bcache.more (brelse b bc) = bcache.more bc" "dom (bhs bc) \<subseteq> dom (bhs (brelse b bc))"
    "\<forall>c. bh_valid bc c \<longrightarrow> bh_valid (brelse b bc) c"
    by (auto simp: bh_flags_def bh_valid_def brelse_def put_bh_def fun_eq_iff split: option.splits)
  then show ?thesis by (simp add: bc_same_def unlocked_brelse)
qed

end
