(* ===== verification/Ox_Sefs_Alloc.thy ===== *)
theory Ox_Sefs_Alloc
  imports Ox_Buffer Ox_Bitmap
begin

text \<open>
  The free bitmaps of the file system sefs (\<^verbatim>\<open>secure_daemon/src/fs/sefs/super.c\<close>): allocation
  and release of inodes and blocks in bitmap blocks of the buffer cache, and the proof that an
  allocation takes the first run of free blocks of the bitmap block it chooses.
\<close>

section \<open>State\<close>

definition BITMAP_BLK_NR :: nat where
  "BITMAP_BLK_NR = 4096 * 8"

record sefs_sb_info =
  nr_inodes :: nat
  nr_ifree_blocks :: nat
  nr_bfree_blocks :: nat
  nr_free_inodes :: nat
  nr_free_blocks :: nat
  ifree_first :: nat
  bfree_first :: nat
  ifree_bit_left :: "nat \<Rightarrow> nat"
  bfree_bit_left :: "nat \<Rightarrow> nat"

text \<open>\<^verbatim>\<open>ei_block\<close> of a regular file shares its place with \<^verbatim>\<open>d_info_block\<close> of a directory.\<close>

record sefs_inode_info =
  ei_block :: nat
  si_data :: "nat \<Rightarrow> nat"

record sefs_fs = bcache +
  sbi :: sefs_sb_info
  sefs_ii :: "nat \<Rightarrow> sefs_inode_info"

section \<open>Bitmap blocks\<close>

text \<open>The bytes of a buffer as words of 64 bits, on a little-endian machine.\<close>

definition blk_words :: "block \<Rightarrow> bitmap" where
  "blk_words b = (\<lambda>i. word_of_nat (get_le 8 (8 * i) b))"

definition words_blk :: "bitmap \<Rightarrow> block \<Rightarrow> block" where
  "words_blk m b = (\<lambda>j. if j < OXBOW_BLOCK_SIZE then word_of_nat (unat (m (j div 8)) div 256 ^ (j mod 8)) else b j)"

primrec free_bits_loop :: "bitmap \<Rightarrow> nat \<Rightarrow> nat list \<Rightarrow> nat \<Rightarrow> nat \<Rightarrow> nat \<times> bitmap" where
  "free_bits_loop m len [] prev cnt = (0, m)"
| "free_bits_loop m len (b # bs) prev cnt =
     (let cnt = add32 (if prev \<noteq> sub32 b 1 then 0 else cnt) 1
      in if cnt = len then (add32 (sub32 b len) 1, bitmap_clear m (add32 (sub32 b len) 1) len)
         else free_bits_loop m len bs b cnt)"

definition get_first_free_bits :: "bitmap \<Rightarrow> nat \<Rightarrow> nat \<Rightarrow> nat \<times> bitmap" where
  "get_first_free_bits freemap sz len = free_bits_loop freemap len (for_each_set_bit freemap sz) 0 0"

text \<open>The result says whether it failed.\<close>

definition put_free_bits :: "bitmap \<Rightarrow> nat \<Rightarrow> nat \<Rightarrow> nat \<Rightarrow> bool \<times> bitmap" where
  "put_free_bits freemap sz i len =
     (if sub32 (add32 i len) 1 > sz then (True, freemap) else (False, bitmap_set freemap i len))"

text \<open>What the four operations below do with a bitmap block: read it, change its bits under the
  buffer lock, and mark it dirty (unless the result says not to).\<close>

definition edit_bitmap ::
  "(nat \<Rightarrow> block) \<Rightarrow> nat \<Rightarrow> (bitmap \<Rightarrow> 'r \<times> bitmap) \<Rightarrow> ('r \<Rightarrow> bool) \<Rightarrow> 'a bcache_scheme \<Rightarrow> ox_error + ('r \<times> 'a bcache_scheme)" where
  "edit_bitmap junk b f dirties fs =
     ebind (sb_bread junk b fs) (\<lambda>(fs, bh).
       if bh_locked bh then Inl Blocked
       else case f (blk_words (b_data bh)) of
              (r, m) \<Rightarrow>
                let fs = set_bh b (bh\<lparr>b_data := words_blk m (b_data bh)\<rparr>) fs
                in if dirties r then ebind (mark_buffer_dirty_sb b fs) (\<lambda>fs. Inr (r, fs)) else Inr (r, fs))"

section \<open>Allocation\<close>

definition sefs_get_free_inode :: "(nat \<Rightarrow> block) \<Rightarrow> sefs_fs \<Rightarrow> ox_error + (nat \<times> sefs_fs)" where
  "sefs_get_free_inode junk fs =
     (case find (\<lambda>i. ifree_bit_left (sbi fs) i \<noteq> 0) [0..<nr_ifree_blocks (sbi fs)] of
        None \<Rightarrow> Inr (0, fs)
      | Some i \<Rightarrow>
          ebind (edit_bitmap junk (ifree_first (sbi fs) + i) (\<lambda>m. get_first_free_bits m BITMAP_BLK_NR 1) (\<lambda>r. r \<noteq> 0) fs) (\<lambda>(r, fs).
            if r = 0 then Inr (0, fs)
            else let s = sbi fs
                 in Inr (r + i * BITMAP_BLK_NR,
                      fs\<lparr>sbi := s\<lparr>ifree_bit_left := (ifree_bit_left s)(i := sub32 (ifree_bit_left s i) 1),
                                  nr_free_inodes := sub32 (nr_free_inodes s) 1\<rparr>\<rparr>)))"

definition sefs_get_free_blocks :: "(nat \<Rightarrow> block) \<Rightarrow> nat \<Rightarrow> sefs_fs \<Rightarrow> ox_error + (nat \<times> sefs_fs)" where
  "sefs_get_free_blocks junk len fs =
     (if len > BITMAP_BLK_NR then Inl Assertion
      else case find (\<lambda>i. len \<le> bfree_bit_left (sbi fs) i) [0..<nr_bfree_blocks (sbi fs)] of
        None \<Rightarrow> Inr (0, fs)
      | Some i \<Rightarrow>
          ebind (edit_bitmap junk (bfree_first (sbi fs) + i) (\<lambda>m. get_first_free_bits m BITMAP_BLK_NR len) (\<lambda>_. True) fs) (\<lambda>(r, fs).
            let s = sbi fs
            in Inr (add32 r (u32 (i * BITMAP_BLK_NR)),
                 fs\<lparr>sbi := s\<lparr>bfree_bit_left := (bfree_bit_left s)(i := sub32 (bfree_bit_left s i) len),
                             nr_free_blocks := sub32 (nr_free_blocks s) len\<rparr>\<rparr>)))"

definition sefs_put_inode :: "(nat \<Rightarrow> block) \<Rightarrow> nat \<Rightarrow> sefs_fs \<Rightarrow> ox_error + sefs_fs" where
  "sefs_put_inode junk ino fs =
     (let i = ino div BITMAP_BLK_NR
      in ebind (edit_bitmap junk (ifree_first (sbi fs) + i) (\<lambda>m. put_free_bits m BITMAP_BLK_NR (ino mod BITMAP_BLK_NR) 1) (\<lambda>_. True) fs) (\<lambda>(r, fs).
           let s = sbi fs
           in Inr (fs\<lparr>sbi := s\<lparr>ifree_bit_left := (ifree_bit_left s)(i := add32 (ifree_bit_left s i) 1),
                              nr_free_inodes := add32 (nr_free_inodes s) 1\<rparr>\<rparr>)))"

definition sefs_put_blocks :: "(nat \<Rightarrow> block) \<Rightarrow> nat \<Rightarrow> nat \<Rightarrow> sefs_fs \<Rightarrow> ox_error + sefs_fs" where
  "sefs_put_blocks junk bno len fs =
     (let i = bno div BITMAP_BLK_NR
      in ebind (edit_bitmap junk (bfree_first (sbi fs) + i) (\<lambda>m. put_free_bits m BITMAP_BLK_NR (bno mod BITMAP_BLK_NR) len) (\<lambda>_. True) fs) (\<lambda>(r, fs).
           let s = sbi fs
           in Inr (fs\<lparr>sbi := s\<lparr>bfree_bit_left := (bfree_bit_left s)(i := add32 (bfree_bit_left s i) len),
                              nr_free_blocks := add32 (nr_free_blocks s) len\<rparr>\<rparr>)))"

section \<open>Specification\<close>

text \<open>The bits of a bitmap block as a reader sees them; the free blocks.\<close>

definition map_bit :: "'a bcache_scheme \<Rightarrow> nat \<Rightarrow> nat \<Rightarrow> bool" where
  "map_bit fs b n = bm_bit (blk_words (bc_view fs b)) n"

definition blk_free :: "sefs_fs \<Rightarrow> nat \<Rightarrow> bool" where
  "blk_free fs a \<longleftrightarrow> a div BITMAP_BLK_NR < nr_bfree_blocks (sbi fs) \<and>
     map_bit fs (bfree_first (sbi fs) + a div BITMAP_BLK_NR) (a mod BITMAP_BLK_NR)"

definition is_run :: "(nat \<Rightarrow> bool) \<Rightarrow> nat \<Rightarrow> nat \<Rightarrow> nat \<Rightarrow> bool" where
  "is_run P n len s \<longleftrightarrow> s + len \<le> n \<and> (\<forall>j\<in>{s..<s + len}. P j)"

definition first_run :: "(nat \<Rightarrow> bool) \<Rightarrow> nat \<Rightarrow> nat \<Rightarrow> nat option" where
  "first_run P n len = find (is_run P n len) [0..<Suc n]"

section \<open>Lemmas\<close>

lemma blk_words_words_blk: "i < 512 \<Longrightarrow> blk_words (words_blk m b) i = m i"
proof -
  assume i: "i < 512"
  have "get_le 8 (8 * i) (words_blk m b) = get_le 8 (8 * i) (put_le 8 (8 * i) (unat (m i)) b)"
  proof (rule get_le_cong)
    fix j assume j: "8 * i \<le> j" "j < 8 * i + 8"
    then obtain r where "j = 8 * i + r" "r < 8" by (metis add_less_cancel_left le_iff_add)
    then have "j div 8 = i" "j mod 8 = j - 8 * i" by auto
    then show "words_blk m b j = put_le 8 (8 * i) (unat (m i)) b j"
      using i j by (simp add: words_blk_def put_le_def OXBOW_BLOCK_SIZE_def)
  qed
  also have "\<dots> = unat (m i)" using unsigned_less [of "m i", where 'a = nat] by simp
  finally show ?thesis by (simp add: blk_words_def)
qed

lemma bm_bit_words_blk [simp]: "n < BITMAP_BLK_NR \<Longrightarrow> bm_bit (blk_words (words_blk m b)) n = bm_bit m n"
  by (simp add: bm_bit_def blk_words_words_blk BITMAP_BLK_NR_def)

text \<open>The scan keeps the run that ends at the last set bit.\<close>

definition scan_inv :: "(nat \<Rightarrow> bool) \<Rightarrow> nat \<Rightarrow> nat \<Rightarrow> nat \<Rightarrow> nat \<Rightarrow> bool" where
  "scan_inv P len k prev cnt \<longleftrightarrow>
     cnt < len \<and> (\<forall>s. \<not> is_run P k len s) \<and>
     (if cnt = 0 then prev = 0 \<and> (\<forall>j<k. \<not> P j)
      else prev < k \<and> cnt \<le> Suc prev \<and> (\<forall>j. Suc prev - cnt \<le> j \<and> j \<le> prev \<longrightarrow> P j) \<and>
           (cnt = Suc prev \<or> \<not> P (prev - cnt)) \<and> (\<forall>j. prev < j \<and> j < k \<longrightarrow> \<not> P j))"

lemma no_run_Suc:
  assumes "\<forall>s. \<not> is_run P k len s" "is_run P (Suc k) len s" "0 < len"
  shows "s + len = Suc k" "P k"
proof -
  show e: "s + len = Suc k" using assms(1,2) by (auto simp: is_run_def le_Suc_eq)
  then show "P k" using assms(2,3) unfolding is_run_def by (metis add_less_cancel_left atLeastLessThan_iff less_add_same_cancel1 less_Suc_eq_le lessI)
qed

lemma scan_inv_clear:
  assumes "scan_inv P len k prev cnt" "\<not> P k"
  shows "scan_inv P len (Suc k) prev cnt"
proof -
  have "\<not> is_run P (Suc k) len s" for s
    using assms no_run_Suc(2) [of P k len s] by (auto simp: scan_inv_def)
  then show ?thesis using assms by (auto simp: scan_inv_def less_Suc_eq)
qed

lemma scan_inv_set:
  assumes inv: "scan_inv P len k prev cnt" and k: "P k" "k < 2 ^ 32"
    and c: "c = add32 (if prev \<noteq> sub32 k 1 then 0 else cnt) 1" and len: "len < 2 ^ 32"
  shows "if c = len then is_run P (Suc k) len (Suc k - len) else scan_inv P len (Suc k) k c"
proof -
  have c': "c = (if cnt \<noteq> 0 \<and> k = Suc prev then Suc cnt else 1)"
    using inv k len unfolding c scan_inv_def by (auto simp: c_arith split: if_splits)
  have run: "Suc k - c \<le> j \<and> j \<le> k \<Longrightarrow> P j" for j
    using inv k c' by (cases "j = k") (auto simp: scan_inv_def split: if_splits)
  have cl: "c \<le> Suc k" "0 < c" "c \<le> len" using inv c' by (auto simp: scan_inv_def split: if_splits)
  show ?thesis
  proof (cases "c = len")
    case True
    then show ?thesis using run cl by (auto simp: is_run_def)
  next
    case False
    have mx: "c = Suc k \<or> \<not> P (k - c)"
      using inv c' by (auto simp: scan_inv_def split: if_splits)
    have "\<not> is_run P (Suc k) len s" for s
    proof
      assume r: "is_run P (Suc k) len s"
      have e: "s + len = Suc k" using no_run_Suc(1) [OF _ r] inv cl by (auto simp: scan_inv_def)
      then have "s \<le> k - c" "k - c < s + len" "c \<noteq> Suc k" using cl False by auto
      then have "P (k - c)" "c \<noteq> Suc k" using r by (auto simp: is_run_def)
      then show False using mx by simp
    qed
    then show ?thesis using False cl run mx by (auto simp: scan_inv_def)
  qed
qed

lemma free_bits_loop_first:
  assumes "scan_inv (bm_bit m) len k prev cnt" "k \<le> n" "n < 2 ^ 32" "len < 2 ^ 32"
  shows "free_bits_loop m len (filter (bm_bit m) [k..<n]) prev cnt =
    (case first_run (bm_bit m) n len of None \<Rightarrow> (0, m) | Some s \<Rightarrow> (s, bitmap_clear m s len))"
  using assms
proof (induction "n - k" arbitrary: k prev cnt)
  case 0
  then have "\<forall>s. \<not> is_run (bm_bit m) n len s" by (simp add: scan_inv_def)
  then have "first_run (bm_bit m) n len = None" by (simp add: first_run_def find_None_iff)
  then show ?case using 0 by simp
next
  case (Suc d)
  have l: "[k..<n] = k # [Suc k..<n]" using Suc(2) by (simp add: upt_conv_Cons)
  show ?case
  proof (cases "bm_bit m k")
    case False
    then show ?thesis using Suc.hyps(1) [OF _ scan_inv_clear] Suc.prems Suc.hyps(2) l by simp
  next
    case True
    let ?c = "add32 (if prev \<noteq> sub32 k 1 then 0 else cnt) 1"
    have st: "if ?c = len then is_run (bm_bit m) (Suc k) len (Suc k - len) else scan_inv (bm_bit m) len (Suc k) k ?c"
      using scan_inv_set [OF Suc.prems(1) True _ refl Suc.prems(4)] Suc.prems Suc.hyps(2) by simp
    show ?thesis
    proof (cases "?c = len")
      case c: True
      then have r: "is_run (bm_bit m) (Suc k) len (Suc k - len)" using st by simp
      have nr: "\<forall>s. \<not> is_run (bm_bit m) k len s" "0 < len" using Suc.prems(1) by (auto simp: scan_inv_def)
      have "first_run (bm_bit m) n len = Some (Suc k - len)"
        unfolding first_run_def find_Some_iff
      proof (intro exI [of _ "Suc k - len"] conjI allI impI)
        show "Suc k - len < length [0..<Suc n]" using Suc.hyps(2) nr by auto
        show "is_run (bm_bit m) n len ([0..<Suc n] ! (Suc k - len))"
          using r Suc.hyps(2) nr by (auto simp: is_run_def nth_upt simp del: upt_Suc)
        show "Suc k - len = [0..<Suc n] ! (Suc k - len)" using Suc.hyps(2) nr by (auto simp del: upt_Suc)
        fix j assume "j < Suc k - len"
        then show "\<not> is_run (bm_bit m) n len ([0..<Suc n] ! j)"
          using nr Suc.hyps(2) by (auto simp: is_run_def nth_upt simp del: upt_Suc)
      qed
      moreover have "add32 (sub32 k len) 1 = Suc k - len"
      proof (cases "len = Suc k")
        case True
        then show ?thesis using Suc.prems Suc.hyps(2) by (simp add: sub32_def add32_def)
      next
        case False
        then have "len \<le> k" using r by (auto simp: is_run_def)
        then show ?thesis using Suc.prems Suc.hyps(2) nr by (simp add: c_arith Suc_diff_le)
      qed
      ultimately show ?thesis using c True l by (simp add: Let_def)
    next
      case c: False
      then show ?thesis using st True l Suc.hyps(1) [of "Suc k" k ?c] Suc.prems Suc.hyps(2) by (simp add: Let_def)
    qed
  qed
qed

text \<open>The first run of free bits is taken, and nothing is taken when there is none.\<close>

lemma get_first_free_bits_first:
  assumes "0 < len" "len < 2 ^ 32" "n < 2 ^ 32"
  shows "get_first_free_bits m n len =
    (case first_run (bm_bit m) n len of None \<Rightarrow> (0, m) | Some s \<Rightarrow> (s, bitmap_clear m s len))"
  unfolding get_first_free_bits_def for_each_set_bit_filter
  by (rule free_bits_loop_first) (use assms in \<open>auto simp: scan_inv_def is_run_def\<close>)

text \<open>An edit changes the bits of its block and nothing else a reader sees.\<close>

lemma edit_bitmap_ok:
  assumes u: "unlocked fs" and f: "f (blk_words (bc_view fs b)) = (r, m)"
  obtains fs' where "edit_bitmap junk b f (\<lambda>_. True) fs = Inr (r, fs')"
    "bc_view fs' = (bc_view fs)(b := words_blk m (bc_view fs b))" "unlocked fs'" "bcache.more fs' = bcache.more fs"
    "bdev_disk fs' = bdev_disk fs"
    "private_list fs' = (if assoc fs b = Some Sb_mapping then private_list fs else list_move_tail b Sb_mapping (private_list fs))"
    "assoc fs' = (assoc fs)(b := Some Sb_mapping)"
proof -
  obtain fs1 bh where r: "sb_bread junk b fs = Inr (fs1, bh)" "bhs fs1 b = Some bh" "bh_uptodate bh"
    "b_data bh = bc_view fs b" "bc_view fs1 = bc_view fs" "assoc fs1 = assoc fs" "private_list fs1 = private_list fs"
    "bdev_disk fs1 = bdev_disk fs" "unlocked fs1" "bcache.more fs1 = bcache.more fs"
    using sb_bread_reads [OF u, of junk b] by metis
  let ?bh = "bh\<lparr>b_data := words_blk m (b_data bh)\<rparr>"
  let ?fs = "set_bh b ?bh fs1"
  have "bhs ?fs b = Some ?bh" by simp
  from mark_buffer_dirty_map_at [OF this, of Sb_mapping] obtain fs' where
    d: "mark_buffer_dirty_map b Sb_mapping ?fs = Inr fs'"
    "bhs fs' = (bhs ?fs)(b \<mapsto> ?bh\<lparr>bh_dirty := True, b_assoc_map := Some Sb_mapping\<rparr>)"
    "private_list fs' = (if b_assoc_map ?bh = Some Sb_mapping then private_list ?fs else list_move_tail b Sb_mapping (private_list ?fs))"
    "bdev_disk fs' = bdev_disk ?fs" "bcache.more fs' = bcache.more ?fs" by blast
  have lk: "\<not> bh_locked bh" by (rule unlockedD [OF r(9,2)])
  have ab: "assoc fs b = b_assoc_map bh" using r(2,6) by (metis view_at(2))
  have "edit_bitmap junk b f (\<lambda>_. True) fs = Inr (r, fs')"
    using r(1,4) lk f d(1) by (simp add: edit_bitmap_def mark_buffer_dirty_sb_def)
  moreover have "bc_view fs' = (bc_view fs)(b := words_blk m (bc_view fs b))"
    using bc_view_upd [OF d(2,4)] r(3,4,5) by simp
  moreover have "unlocked fs'" using d(2) lk r(9) by (auto simp: unlocked_def)
  moreover have "assoc fs' = (assoc fs)(b := Some Sb_mapping)"
    using d(2) r(6) by (auto simp: assoc_def fun_eq_iff)
  ultimately show thesis using that d(3-5) r(7,8,10) ab by simp
qed

lemma find_le_run:
  "first_run P n len = Some s \<Longrightarrow> is_run P n len s"
  by (auto simp: first_run_def find_Some_iff simp del: upt_Suc)

lemma sefs_more_eq:
  "bcache.more fs' = bcache.more fs \<Longrightarrow> sbi fs' = sbi fs \<and> sefs_ii fs' = sefs_ii (fs :: sefs_fs)"
  by (cases fs, cases fs') simp

lemma bc_view_sbi [simp]:
  "bc_view (fs\<lparr>sbi := x\<rparr>) = bc_view fs" "unlocked (fs\<lparr>sbi := x\<rparr>) = unlocked fs" "assoc (fs\<lparr>sbi := x\<rparr>) = assoc fs"
  by (rule ext, simp add: bc_view_def split: option.split) (simp_all add: unlocked_def assoc_def fun_eq_iff)

lemma div_group: "s < BITMAP_BLK_NR \<Longrightarrow> (i * BITMAP_BLK_NR + s) div BITMAP_BLK_NR = i \<and> (i * BITMAP_BLK_NR + s) mod BITMAP_BLK_NR = s"
  by (simp add: BITMAP_BLK_NR_def)

text \<open>Allocation: the blocks are those of the first run of the bitmap block that is taken, and they
  are not free afterwards.\<close>

lemma sefs_get_free_blocks_step:
  assumes u: "unlocked fs" and len: "0 < len" "len \<le> BITMAP_BLK_NR"
    and i: "find (\<lambda>i. len \<le> bfree_bit_left (sbi fs) i) [0..<nr_bfree_blocks (sbi fs)] = Some i"
    and bound: "nr_bfree_blocks (sbi fs) * BITMAP_BLK_NR < 2 ^ 32"
    and b: "b = bfree_first (sbi fs) + i"
  obtains fs' s m where "sefs_get_free_blocks junk len fs = Inr (i * BITMAP_BLK_NR + s, fs')"
    "(s, m) = (case first_run (map_bit fs b) BITMAP_BLK_NR len of
       None \<Rightarrow> (0, blk_words (bc_view fs b)) | Some s \<Rightarrow> (s, bitmap_clear (blk_words (bc_view fs b)) s len))"
    "bc_view fs' = (bc_view fs)(b := words_blk m (bc_view fs b))" "unlocked fs'"
    "nr_bfree_blocks (sbi fs') = nr_bfree_blocks (sbi fs)" "bfree_first (sbi fs') = bfree_first (sbi fs)"
    "sefs_ii fs' = sefs_ii fs" "i < nr_bfree_blocks (sbi fs)"
proof -
  let ?w = "blk_words (bc_view fs b)"
  have ir: "i < nr_bfree_blocks (sbi fs)" using i by (auto simp: find_Some_iff)
  obtain s m where g: "get_first_free_bits ?w BITMAP_BLK_NR len = (s, m)" by fastforce
  have fr: "(s, m) = (case first_run (map_bit fs b) BITMAP_BLK_NR len of None \<Rightarrow> (0, ?w) | Some s \<Rightarrow> (s, bitmap_clear ?w s len))"
    using get_first_free_bits_first [of len BITMAP_BLK_NR ?w] len g
    by (simp add: BITMAP_BLK_NR_def map_bit_def [abs_def])
  have s: "s < BITMAP_BLK_NR"
    using fr len find_le_run [of "map_bit fs b" BITMAP_BLK_NR len] by (auto simp: is_run_def split: option.splits)
  from edit_bitmap_ok [OF u, of "\<lambda>m. get_first_free_bits m BITMAP_BLK_NR len", OF g, of junk] obtain fs1 where
    e: "edit_bitmap junk b (\<lambda>m. get_first_free_bits m BITMAP_BLK_NR len) (\<lambda>_. True) fs = Inr (s, fs1)"
    "bc_view fs1 = (bc_view fs)(b := words_blk m (bc_view fs b))" "unlocked fs1" "bcache.more fs1 = bcache.more fs" by blast
  note k = sefs_more_eq [OF e(4)]
  have "i * BITMAP_BLK_NR + s < Suc i * BITMAP_BLK_NR" using s by simp
  also have "\<dots> \<le> nr_bfree_blocks (sbi fs) * BITMAP_BLK_NR" using ir by (intro mult_le_mono1) simp
  finally have "add32 s (u32 (i * BITMAP_BLK_NR)) = i * BITMAP_BLK_NR + s" using bound by (simp add: c_arith)
  moreover obtain x where "sefs_get_free_blocks junk len fs = Inr (add32 s (u32 (i * BITMAP_BLK_NR)), fs1\<lparr>sbi := x\<rparr>)"
    "nr_bfree_blocks x = nr_bfree_blocks (sbi fs)" "bfree_first x = bfree_first (sbi fs)"
    using e(1) i b len(2) k by (simp add: sefs_get_free_blocks_def Let_def)
  ultimately show thesis using that fr e(2,3) k ir by simp
qed

lemma blk_free_other:
  "bc_view fs' = (bc_view fs)(b := x) \<Longrightarrow> nr_bfree_blocks (sbi fs') = nr_bfree_blocks (sbi fs) \<Longrightarrow>
   bfree_first (sbi fs') = bfree_first (sbi fs) \<Longrightarrow> bfree_first (sbi fs) + a div BITMAP_BLK_NR \<noteq> b \<Longrightarrow>
   blk_free fs' a = blk_free fs a"
  by (simp add: blk_free_def map_bit_def)

lemma sefs_get_free_blocks_ok:
  assumes u: "unlocked fs" and len: "0 < len" "len \<le> BITMAP_BLK_NR"
    and i: "find (\<lambda>i. len \<le> bfree_bit_left (sbi fs) i) [0..<nr_bfree_blocks (sbi fs)] = Some i"
    and bound: "nr_bfree_blocks (sbi fs) * BITMAP_BLK_NR < 2 ^ 32"
    and s: "first_run (map_bit fs (bfree_first (sbi fs) + i)) BITMAP_BLK_NR len = Some s"
  obtains fs' where "sefs_get_free_blocks junk len fs = Inr (i * BITMAP_BLK_NR + s, fs')" "unlocked fs'"
    "\<And>c. c \<noteq> bfree_first (sbi fs) + i \<Longrightarrow> bc_view fs' c = bc_view fs c"
    "\<And>a. a \<in> {i * BITMAP_BLK_NR + s..<i * BITMAP_BLK_NR + s + len} \<Longrightarrow> blk_free fs a"
    "\<And>a. blk_free fs' a \<longleftrightarrow> blk_free fs a \<and> a \<notin> {i * BITMAP_BLK_NR + s..<i * BITMAP_BLK_NR + s + len}"
    "sefs_ii fs' = sefs_ii fs" "nr_bfree_blocks (sbi fs') = nr_bfree_blocks (sbi fs)" "bfree_first (sbi fs') = bfree_first (sbi fs)"
proof -
  let ?b = "bfree_first (sbi fs) + i"
  from sefs_get_free_blocks_step [OF u len i bound refl, of junk] s obtain fs' where
    r: "sefs_get_free_blocks junk len fs = Inr (i * BITMAP_BLK_NR + s, fs')"
    "bc_view fs' = (bc_view fs)(?b := words_blk (bitmap_clear (blk_words (bc_view fs ?b)) s len) (bc_view fs ?b))" "unlocked fs'"
    "nr_bfree_blocks (sbi fs') = nr_bfree_blocks (sbi fs)" "bfree_first (sbi fs') = bfree_first (sbi fs)"
    "sefs_ii fs' = sefs_ii fs" and ir: "i < nr_bfree_blocks (sbi fs)" by (auto simp: Let_def)
  have run: "s + len \<le> BITMAP_BLK_NR" "\<And>j. s \<le> j \<Longrightarrow> j < s + len \<Longrightarrow> map_bit fs ?b j"
    using find_le_run [OF s] by (auto simp: is_run_def)
  have in_grp: "a div BITMAP_BLK_NR = i \<and> s \<le> a mod BITMAP_BLK_NR \<and> a mod BITMAP_BLK_NR < s + len \<longleftrightarrow>
      a \<in> {i * BITMAP_BLK_NR + s..<i * BITMAP_BLK_NR + s + len}" for a
  proof
    assume "a div BITMAP_BLK_NR = i \<and> s \<le> a mod BITMAP_BLK_NR \<and> a mod BITMAP_BLK_NR < s + len"
    then show "a \<in> {i * BITMAP_BLK_NR + s..<i * BITMAP_BLK_NR + s + len}"
      using div_mult_mod_eq [of a BITMAP_BLK_NR] by (auto simp: algebra_simps)
  next
    assume "a \<in> {i * BITMAP_BLK_NR + s..<i * BITMAP_BLK_NR + s + len}"
    then obtain t where "a = i * BITMAP_BLK_NR + t" "s \<le> t" "t < s + len"
      by (metis add.assoc add_le_cancel_left add_less_cancel_left atLeastLessThan_iff le_Suc_ex)
    then show "a div BITMAP_BLK_NR = i \<and> s \<le> a mod BITMAP_BLK_NR \<and> a mod BITMAP_BLK_NR < s + len"
      using div_group [of t i] run(1) by simp
  qed
  have "blk_free fs a" if "a \<in> {i * BITMAP_BLK_NR + s..<i * BITMAP_BLK_NR + s + len}" for a
    using that in_grp [of a] ir run(2) by (simp add: blk_free_def)
  moreover have "blk_free fs' a \<longleftrightarrow> blk_free fs a \<and> a \<notin> {i * BITMAP_BLK_NR + s..<i * BITMAP_BLK_NR + s + len}" for a
  proof (cases "a div BITMAP_BLK_NR = i")
    case True
    have "a mod BITMAP_BLK_NR < BITMAP_BLK_NR" "s + len < 2 ^ 32" using run(1) by (simp_all add: BITMAP_BLK_NR_def)
    then show ?thesis
      using True in_grp [of a] r(2,4,5) by (auto simp: blk_free_def map_bit_def bitmap_clear_bits)
  next
    case False
    then show ?thesis using blk_free_other [OF r(2,4,5)] in_grp [of a] by auto
  qed
  ultimately show thesis using that [OF r(1,3)] r(2,4-6) by simp
qed

end
