(* ===== verification/Ox_Jtx.thy ===== *)
theory Ox_Jtx
  imports Ox_Buffer Ox_Commit Ox_Ckpt_Replay
begin

text \<open>
  The buffers of a background transaction on the daemon (\<^verbatim>\<open>secure_daemon/src/fs/journal.c\<close>):
  the metadata buffer with the descriptor block, extent tag blocks and stage trace blocks, and the
  data buffers, which are sent to the device server as they fill up.  The lemmas show that the
  tags and the data of a transaction stay in step.
\<close>

section \<open>Transactions\<close>

datatype tr_state = TR_NEW | TR_RUNNING | TR_LOCKED | TR_BUILD | TR_COMMIT | TR_COMPLETE | TR_PAUSE

text \<open>A request to fetch one data buffer: its number, its size and the blocks in the buffer.\<close>

record fetch_req =
  fr_df :: nat
  fr_req_id :: nat
  fr_size :: nat
  fr_blocks :: "block list"

text \<open>The cursors are block indices into the two buffers, \<open>None\<close> for NULL; \<open>tx_reqs\<close> are the
  requests sent so far.\<close>

record journal_tx =
  tx_tid :: nat
  tx_df :: nat
  tx_state :: tr_state
  tx_ref :: nat
  tx_files :: "nat list"
  tx_waiting :: "nat list"
  tx_blks :: "nat list"
  tx_md_buf :: "nat \<Rightarrow> block"
  tx_md_cur :: "nat option"
  tx_md_nr_blocks :: nat
  tx_buf :: "nat \<Rightarrow> block"
  tx_cur :: "nat option"
  tx_nr_blocks :: nat
  tx_used :: nat
  tx_tot :: nat
  tx_n_bufs :: nat
  tx_sent :: nat
  tx_desc :: "nat option"
  tx_ext :: "nat option"
  tx_trace :: "nat option"
  tx_stages :: "nat list"
  tx_reqs :: "fetch_req list"

definition BG_JOURNAL_COMMIT_SIZE :: nat where
  "BG_JOURNAL_COMMIT_SIZE = DATA_FETCHER_BUF_SIZE"

definition get_cur_mdblk_index :: "journal_tx \<Rightarrow> nat option" where
  "get_cur_mdblk_index tx = tx_md_cur tx"

section \<open>Buffers\<close>

text \<open>\<open>alloc_md\<close> and \<open>alloc n\<close> are what the data fetcher gives for the metadata buffer and for
  the data buffer after \<open>n\<close> others: the old contents of the buffer, or \<open>None\<close>.  The result says
  whether the call failed.\<close>

definition tx_alloc_meta_buffer :: "(nat \<Rightarrow> block) option \<Rightarrow> journal_tx \<Rightarrow> bool \<times> journal_tx" where
  "tx_alloc_meta_buffer alloc_md tx =
     (case alloc_md of
        None \<Rightarrow> (True, tx\<lparr>tx_md_cur := None\<rparr>)
      | Some buf \<Rightarrow> (False, tx\<lparr>tx_md_buf := buf, tx_md_cur := Some 0,
                            tx_md_nr_blocks := BG_JOURNAL_COMMIT_SIZE div OXBOW_BLOCK_SIZE\<rparr>))"

definition tx_alloc_buffer :: "(nat \<Rightarrow> (nat \<Rightarrow> block) option) \<Rightarrow> journal_tx \<Rightarrow> bool \<times> journal_tx" where
  "tx_alloc_buffer alloc tx =
     (case alloc (tx_n_bufs tx) of
        None \<Rightarrow> (True, tx\<lparr>tx_cur := None\<rparr>)
      | Some buf \<Rightarrow> (False, tx\<lparr>tx_buf := buf, tx_cur := Some 0, tx_n_bufs := tx_n_bufs tx + 1,
                            tx_nr_blocks := BG_JOURNAL_COMMIT_SIZE div OXBOW_BLOCK_SIZE,
                            tx_tot := add32 (tx_tot tx) (BG_JOURNAL_COMMIT_SIZE div OXBOW_BLOCK_SIZE)\<rparr>))"

definition reserve_mdblk :: "journal_tx \<Rightarrow> nat \<Rightarrow> ox_error + (nat option \<times> journal_tx)" where
  "reserve_mdblk tx cnt =
     (if tx_md_nr_blocks tx < cnt then Inl Assertion
      else let ret = tx_md_cur tx;
               tx = tx\<lparr>tx_md_cur := map_option (\<lambda>c. c + cnt) (tx_md_cur tx),
                       tx_md_nr_blocks := sub32 (tx_md_nr_blocks tx) 1\<rparr>
           in Inr (if tx_md_nr_blocks tx = 0 then None else ret, tx))"

text \<open>The request for the blocks not sent yet; the result says whether there were none.\<close>

definition request_data_fetch :: "journal_tx \<Rightarrow> bool \<times> journal_tx" where
  "request_data_fetch tx =
     (let n_blks_to_send = u32 (sub64 (tx_used tx) (tx_sent tx))
      in if n_blks_to_send = 0 then (True, tx)
         else (False, tx\<lparr>tx_reqs := tx_reqs tx @
                  [\<lparr>fr_df = tx_df tx, fr_req_id = tx_n_bufs tx - 1, fr_size = nblks_to_bytes n_blks_to_send,
                    fr_blocks = map (tx_buf tx) [0..<n_blks_to_send]\<rparr>],
                  tx_sent := add64 (tx_sent tx) n_blks_to_send\<rparr>))"

text \<open>When the buffer is full it is sent and the next one is allocated; the result of the
  allocation is not looked at.\<close>

definition next_buffer :: "(nat \<Rightarrow> (nat \<Rightarrow> block) option) \<Rightarrow> journal_tx \<Rightarrow> ox_error + journal_tx" where
  "next_buffer alloc tx =
     (if tx_nr_blocks tx = 0
      then case request_data_fetch tx of
             (none, tx) \<Rightarrow> if none then Inl Assertion else Inr (snd (tx_alloc_buffer alloc tx))
      else Inr tx)"

definition copy_blk :: "(nat \<Rightarrow> (nat \<Rightarrow> block) option) \<Rightarrow> journal_tx \<Rightarrow> block \<Rightarrow> ox_error + journal_tx" where
  "copy_blk alloc tx src =
     (if tx_nr_blocks tx < 1 then Inl Assertion
      else case tx_cur tx of
             None \<Rightarrow> Inl Null_deref
           | Some c \<Rightarrow>
               next_buffer alloc (tx\<lparr>tx_cur := Some (c + 1), tx_used := add32 (tx_used tx) 1,
                 tx_nr_blocks := sub32 (tx_nr_blocks tx) 1, tx_buf := (tx_buf tx)(c := src)\<rparr>))"

section \<open>Tags\<close>

text \<open>The blocks of the metadata buffer that \<^verbatim>\<open>desc_blk\<close>, \<^verbatim>\<open>ext_blk\<close> and \<^verbatim>\<open>trace_blk\<close>
  point to are changed in place.\<close>

definition md_update :: "nat \<Rightarrow> (block \<Rightarrow> block) \<Rightarrow> journal_tx \<Rightarrow> journal_tx" where
  "md_update i f tx = tx\<lparr>tx_md_buf := (tx_md_buf tx)(i := f (tx_md_buf tx i))\<rparr>"

definition fill_tag_etagblk :: "nat \<Rightarrow> nat \<Rightarrow> block \<Rightarrow> bool \<times> block" where
  "fill_tag_etagblk start cnt je =
     (let nr = jmh_nr je;
          je = put_le 4 4 (nr + 1) (put_etag sizeof_journal_meta_header nr (start, cnt) je)
      in (jmh_nr je = JOURNAL_ETAG_MAX, je))"

definition fill_tag_descblk :: "nat \<Rightarrow> nat \<Rightarrow> block \<Rightarrow> ox_error + (bool \<times> block)" where
  "fill_tag_descblk start cnt jdb =
     (if jdb_nr_tags jdb \<ge> JOURNAL_DESC_TAG_MAX then Inl Assertion
      else let nr = jdb_nr_tags jdb;
               jdb = put_le 4 16 (nr + 1) (put_etag sizeof_journal_descriptor_header nr (start, cnt) jdb)
           in Inr (jdb_nr_tags jdb = JOURNAL_DESC_TAG_MAX, jdb))"

text \<open>The next extent tag block, with its header cleared.\<close>

definition new_etagblk :: "journal_tx \<Rightarrow> ox_error + journal_tx" where
  "new_etagblk tx =
     ebind (reserve_mdblk tx 1) (\<lambda>(p, tx).
       case p of
         None \<Rightarrow> Inl Null_deref
       | Some i \<Rightarrow> Inr (md_update i (\<lambda>b. put_le 4 0 ETAG_BLK (put_le 4 4 0 b)) (tx\<lparr>tx_ext := Some i\<rparr>)))"

definition fill_tagblk :: "journal_tx \<Rightarrow> nat \<Rightarrow> nat \<Rightarrow> ox_error + journal_tx" where
  "fill_tagblk tx start cnt =
     (case tx_desc tx of
        None \<Rightarrow> Inl Null_deref
      | Some d \<Rightarrow>
          (case tx_ext tx of
             Some e \<Rightarrow>
               (case fill_tag_etagblk start cnt (tx_md_buf tx e) of
                  (full, je) \<Rightarrow>
                    let tx = md_update e (\<lambda>_. je) tx
                    in if full
                       then new_etagblk (md_update d (\<lambda>b. put_le 4 8 (jdb_nr_etag_blks b + 1) b) tx)
                       else Inr tx)
           | None \<Rightarrow>
               ebind (fill_tag_descblk start cnt (tx_md_buf tx d)) (\<lambda>(full, jdb).
                 let tx = md_update d (\<lambda>_. jdb) tx
                 in if full then new_etagblk (md_update d (put_le 4 8 1) tx) else Inr tx)))"

section \<open>Stage trace blocks\<close>

definition new_traceblk :: "journal_tx \<Rightarrow> ox_error + journal_tx" where
  "new_traceblk tx =
     ebind (reserve_mdblk tx 1) (\<lambda>(p, tx).
       case (p, tx_desc tx) of
         (Some i, Some d) \<Rightarrow>
           Inr (md_update d (\<lambda>b. put_le 4 12 (jdb_nr_stage_trace_blks b + 1) b)
             (md_update i (\<lambda>b. put_le 4 0 STAGE_TRACE_BLK (put_le 4 4 0 b)) (tx\<lparr>tx_trace := Some i\<rparr>)))
       | _ \<Rightarrow> Inl Null_deref)"

definition put_trace :: "nat \<Rightarrow> block \<Rightarrow> block" where
  "put_trace start b =
     put_le 4 4 (jmh_nr b + 1) (put_le 8 (sizeof_journal_meta_header + 8 * jmh_nr b) start b)"

primrec trace_loop :: "nat list \<Rightarrow> journal_tx \<Rightarrow> ox_error + journal_tx" where
  "trace_loop [] tx = Inr tx"
| "trace_loop (s # ss) tx =
     (case tx_trace tx of
        None \<Rightarrow> Inl Null_deref
      | Some i \<Rightarrow>
          let tx = md_update i (put_trace s) tx
          in if ss = [] then Inr tx
             else if jmh_nr (tx_md_buf tx i) = JOURNAL_TRACE_MAX
             then ebind (new_traceblk tx) (trace_loop ss)
             else trace_loop ss tx)"

definition journal_stage_trace :: "journal_tx \<Rightarrow> nat list \<Rightarrow> ox_error + journal_tx" where
  "journal_stage_trace tx stages = ebind (new_traceblk tx) (trace_loop stages)"

section \<open>Lemmas: fields and tags of a block\<close>

lemma get_le_put_etag [simp]: "off + n \<le> base \<Longrightarrow> get_le n off (put_etag base i t b) = get_le n off b"
  by (simp add: put_etag_def)

lemma get_etags_Suc: "get_etags base (Suc n) b = get_etags base n b @ [get_etag base n b]"
  by (simp add: get_etags_def)

lemma get_etags_put_etag:
  "n \<le> i \<Longrightarrow> get_etags base n (put_etag base i t b) = get_etags base n b"
  by (auto simp: get_etags_def get_etag_put_etag_other)

lemma get_etag_put_le: "off + m \<le> base \<Longrightarrow> get_etag base i (put_le m off v b) = get_etag base i b"
  by (simp add: get_etag_def)

lemma get_etags_put_le: "off + m \<le> base \<Longrightarrow> get_etags base n (put_le m off v b) = get_etags base n b"
  by (simp add: get_etags_def get_etag_put_le)

lemma jdb_tags_put_le:
  "off + m \<le> 24 \<Longrightarrow> off + m \<le> 16 \<or> 20 \<le> off \<Longrightarrow> jdb_tags (put_le m off v b) = jdb_tags b"
  by (auto simp: jdb_tags_def sizeof_journal_descriptor_header_def get_etags_put_le)

lemma tag_maxes: "JOURNAL_DESC_TAG_MAX = 339" "JOURNAL_ETAG_MAX = 340" "JOURNAL_TRACE_MAX = 511"
  by (simp_all add: JOURNAL_DESC_TAG_MAX_def JOURNAL_ETAG_MAX_def JOURNAL_TRACE_MAX_def
      sizeof_journal_descriptor_header_def sizeof_journal_meta_header_def sizeof_etag_def)

definition etag_of :: "nat \<Rightarrow> nat \<Rightarrow> etag" where
  "etag_of start cnt = (u64 start, u32 cnt)"

lemma fill_tag_descblk_tags:
  assumes "jdb_nr_tags b < JOURNAL_DESC_TAG_MAX"
  obtains b' where "fill_tag_descblk start cnt b = Inr (jdb_nr_tags b + 1 = JOURNAL_DESC_TAG_MAX, b')"
    "jdb_tags b' = jdb_tags b @ [etag_of start cnt]" "jdb_nr_tags b' = jdb_nr_tags b + 1"
    "\<And>off n. off + n \<le> 16 \<Longrightarrow> get_le n off b' = get_le n off b" "jdb_meta_start_baddr b' = jdb_meta_start_baddr b"
proof -
  let ?n = "jdb_nr_tags b"
  let ?b = "put_le 4 16 (?n + 1) (put_etag sizeof_journal_descriptor_header ?n (start, cnt) b)"
  have n: "jdb_nr_tags ?b = ?n + 1" using assms by (simp add: tag_maxes)
  have "jdb_tags ?b = get_etags sizeof_journal_descriptor_header (Suc ?n) ?b" by (simp only: jdb_tags_def n Suc_eq_plus1)
  then have "jdb_tags ?b = jdb_tags b @ [etag_of start cnt]"
    unfolding get_etags_Suc
    by (simp add: sizeof_journal_descriptor_header_def get_etags_put_le get_etag_put_le get_etags_put_etag
        get_etag_put_etag_same etag_of_def u64_def u32_def jdb_tags_def jetb_tags_def)
  then show thesis
    using assms n by (intro that [of ?b]) (simp_all add: fill_tag_descblk_def sizeof_journal_descriptor_header_def Let_def)
qed

lemma fill_tag_etagblk_tags:
  assumes "jmh_nr b < JOURNAL_ETAG_MAX"
  obtains b' where "fill_tag_etagblk start cnt b = (jmh_nr b + 1 = JOURNAL_ETAG_MAX, b')"
    "jetb_tags b' = jetb_tags b @ [etag_of start cnt]" "jmh_nr b' = jmh_nr b + 1" "jmh_blocktype b' = jmh_blocktype b"
proof -
  let ?n = "jmh_nr b"
  let ?b = "put_le 4 4 (?n + 1) (put_etag sizeof_journal_meta_header ?n (start, cnt) b)"
  have n: "jmh_nr ?b = ?n + 1" using assms by (simp add: tag_maxes)
  have "jetb_tags ?b = get_etags sizeof_journal_meta_header (Suc ?n) ?b" by (simp only: jetb_tags_def n Suc_eq_plus1)
  then have "jetb_tags ?b = jetb_tags b @ [etag_of start cnt]"
    unfolding get_etags_Suc
    by (simp add: sizeof_journal_meta_header_def get_etags_put_le get_etag_put_le get_etags_put_etag
        get_etag_put_etag_same etag_of_def u64_def u32_def jdb_tags_def jetb_tags_def)
  then show thesis
    using assms n by (intro that [of ?b]) (simp_all add: fill_tag_etagblk_def sizeof_journal_meta_header_def Let_def)
qed

lemma stb_tx_put_le: "8 + 8 * i + 8 \<le> off \<or> off + m \<le> 8 \<Longrightarrow> stb_tx i (put_le m off v b) = stb_tx i b"
  by (auto simp: stb_tx_def sizeof_journal_meta_header_def)

lemma put_trace_list:
  assumes "jmh_nr b < JOURNAL_TRACE_MAX"
  shows "jmh_nr (put_trace s b) = jmh_nr b + 1" "stb_tx_list (put_trace s b) = stb_tx_list b @ [u64 s]"
    "jmh_blocktype (put_trace s b) = jmh_blocktype b"
proof -
  let ?n = "jmh_nr b"
  show n: "jmh_nr (put_trace s b) = ?n + 1" using assms by (simp add: put_trace_def tag_maxes sizeof_journal_meta_header_def)
  have same: "stb_tx i (put_trace s b) = stb_tx i b" if "i < ?n" for i
    using that by (simp add: put_trace_def stb_tx_put_le sizeof_journal_meta_header_def)
  have last: "stb_tx ?n (put_trace s b) = u64 s"
    by (simp add: put_trace_def stb_tx_def sizeof_journal_meta_header_def u64_def)
  show "stb_tx_list (put_trace s b) = stb_tx_list b @ [u64 s]"
    using same last by (simp add: stb_tx_list_def n)
  show "jmh_blocktype (put_trace s b) = jmh_blocktype b" by (simp add: put_trace_def sizeof_journal_meta_header_def)
qed

section \<open>Specification: the metadata of a transaction\<close>

text \<open>The metadata blocks after the descriptor block, the tags and the stage transactions they
  hold.\<close>

definition md_blocks :: "journal_tx \<Rightarrow> block list" where
  "md_blocks tx = map (tx_md_buf tx) [1..<the (tx_md_cur tx)]"

definition tx_tags :: "journal_tx \<Rightarrow> etag list" where
  "tx_tags tx = jdb_tags (tx_md_buf tx 0) @ concat (map jetb_tags (filter (Not \<circ> is_stage_trace_blk) (md_blocks tx)))"

definition tx_traces :: "journal_tx \<Rightarrow> nat list" where
  "tx_traces tx = concat (map stb_tx_list (filter is_stage_trace_blk (md_blocks tx)))"

text \<open>Tags go to the descriptor block until it is full, then to the last extent tag block, which
  always has room; all others are full.  Stage trace blocks may stand in between.\<close>

definition ext_inv :: "journal_tx \<Rightarrow> bool" where
  "ext_inv tx \<longleftrightarrow> (case tx_ext tx of
     None \<Rightarrow> jdb_nr_tags (tx_md_buf tx 0) < JOURNAL_DESC_TAG_MAX \<and> list_all is_stage_trace_blk (md_blocks tx)
   | Some e \<Rightarrow> jdb_nr_tags (tx_md_buf tx 0) = JOURNAL_DESC_TAG_MAX \<and>
       (\<exists>pre post. md_blocks tx = pre @ tx_md_buf tx e # post \<and> e = Suc (length pre) \<and>
          list_all is_stage_trace_blk post \<and> is_etag_blk (tx_md_buf tx e) \<and>
          jmh_nr (tx_md_buf tx e) < JOURNAL_ETAG_MAX \<and>
          (\<forall>b\<in>set pre. is_stage_trace_blk b \<or> jmh_nr b = JOURNAL_ETAG_MAX)))"

definition md_inv :: "journal_tx \<Rightarrow> bool" where
  "md_inv tx \<longleftrightarrow>
     tx_desc tx = Some 0 \<and> is_jnr_desc_blk (tx_md_buf tx 0) \<and>
     (\<exists>c. tx_md_cur tx = Some c \<and> 1 \<le> c \<and> c + tx_md_nr_blocks tx = 8192) \<and> 0 < tx_md_nr_blocks tx \<and>
     jdb_nr_etag_blks (tx_md_buf tx 0) = length (filter (Not \<circ> is_stage_trace_blk) (md_blocks tx)) \<and>
     jdb_nr_stage_trace_blks (tx_md_buf tx 0) = length (filter is_stage_trace_blk (md_blocks tx)) \<and>
     (\<forall>b\<in>set (md_blocks tx). if is_stage_trace_blk b then jmh_nr b \<le> JOURNAL_TRACE_MAX
                             else is_etag_blk b \<and> jmh_nr b \<le> JOURNAL_ETAG_MAX) \<and>
     ext_inv tx"

text \<open>The two transactions differ in their metadata only.\<close>

definition md_frame :: "journal_tx \<Rightarrow> journal_tx \<Rightarrow> bool" where
  "md_frame tx tx' \<longleftrightarrow> tx'\<lparr>tx_md_buf := tx_md_buf tx, tx_md_cur := tx_md_cur tx, tx_md_nr_blocks := tx_md_nr_blocks tx,
     tx_ext := tx_ext tx, tx_trace := tx_trace tx\<rparr> = tx"

section \<open>Lemmas: metadata\<close>

lemma md_frame_refl [simp]: "md_frame tx tx"
  by (simp add: md_frame_def)

lemma md_frame_trans: "md_frame tx tx' \<Longrightarrow> md_frame tx' tx'' \<Longrightarrow> md_frame tx tx''"
  by (cases tx; cases tx'; cases tx'') (simp add: md_frame_def)

lemma md_frame_update [simp]: "md_frame tx (md_update i f tx)"
  by (simp add: md_frame_def md_update_def)

lemma md_frameD:
  assumes "md_frame tx tx'"
  shows "tx_buf tx' = tx_buf tx" "tx_cur tx' = tx_cur tx" "tx_nr_blocks tx' = tx_nr_blocks tx" "tx_used tx' = tx_used tx"
    "tx_tot tx' = tx_tot tx" "tx_n_bufs tx' = tx_n_bufs tx" "tx_sent tx' = tx_sent tx" "tx_reqs tx' = tx_reqs tx"
    "tx_df tx' = tx_df tx" "tx_tid tx' = tx_tid tx" "tx_desc tx' = tx_desc tx" "tx_blks tx' = tx_blks tx"
    "tx_files tx' = tx_files tx" "tx_waiting tx' = tx_waiting tx" "tx_stages tx' = tx_stages tx" "tx_state tx' = tx_state tx"
  using assms by (cases tx; cases tx'; simp add: md_frame_def)+

lemma etag_not_trace: "is_etag_blk b \<Longrightarrow> \<not> is_stage_trace_blk b"
  by (simp add: is_etag_blk_def is_stage_trace_blk_def block_type_defs)

lemma md_update_sel [simp]:
  "tx_md_buf (md_update i f tx) = (tx_md_buf tx)(i := f (tx_md_buf tx i))" "tx_md_cur (md_update i f tx) = tx_md_cur tx"
  "tx_md_nr_blocks (md_update i f tx) = tx_md_nr_blocks tx" "tx_desc (md_update i f tx) = tx_desc tx"
  "tx_ext (md_update i f tx) = tx_ext tx" "tx_trace (md_update i f tx) = tx_trace tx"
  by (simp_all add: md_update_def)

lemma md_blocks_desc [simp]: "md_blocks (md_update 0 f tx) = md_blocks tx"
  by (simp add: md_blocks_def)

lemma md_blocks_update:
  assumes "md_blocks tx = pre @ tx_md_buf tx e # post" "e = Suc (length pre)"
  shows "md_blocks (md_update e f tx) = pre @ f (tx_md_buf tx e) # post"
proof -
  let ?c = "the (tx_md_cur tx)"
  have len: "length (md_blocks tx) = ?c - 1" by (simp add: md_blocks_def)
  then have e: "e < ?c" "length pre + Suc (length post) = ?c - 1" using assms by auto
  have "md_blocks (md_update e f tx) = (md_blocks tx)[length pre := f (tx_md_buf tx e)]"
    using e assms(2) by (auto simp: md_blocks_def nth_list_update intro!: nth_equalityI)
  then show ?thesis by (simp add: assms(1))
qed

lemma md_reserve:
  assumes "md_inv tx" "2 \<le> tx_md_nr_blocks tx" "tx_md_cur tx = Some c"
  shows "reserve_mdblk tx 1 = Inr (Some c, tx\<lparr>tx_md_cur := Some (c + 1), tx_md_nr_blocks := tx_md_nr_blocks tx - 1\<rparr>)"
proof -
  have "tx_md_nr_blocks tx < 2 ^ 32" using assms(1) by (auto simp: md_inv_def)
  then have "sub32 (tx_md_nr_blocks tx) 1 = tx_md_nr_blocks tx - 1" using assms(2) by (simp add: c_arith)
  then show ?thesis using assms(2,3) by (simp add: reserve_mdblk_def Let_def)
qed

lemma md_blocks_grow:
  assumes "tx_md_cur tx = Some c" "1 \<le> c"
  shows "md_blocks (tx\<lparr>tx_md_cur := Some (c + 1), tx_md_nr_blocks := n, tx_ext := e, tx_trace := t\<rparr>) = md_blocks tx @ [tx_md_buf tx c]"
  using assms by (simp add: md_blocks_def upt_Suc_append)

text \<open>The tag is in its place and the extent tag block is opened when the block before is full.\<close>

lemma new_etagblk_ok:
  assumes nr: "2 \<le> tx_md_nr_blocks tx" "tx_md_nr_blocks tx < 2 ^ 32" and c: "tx_md_cur tx = Some c" "1 \<le> c"
  obtains tx' where "new_etagblk tx = Inr tx'" "md_blocks tx' = md_blocks tx @ [tx_md_buf tx' c]" "tx_ext tx' = Some c"
    "is_etag_blk (tx_md_buf tx' c)" "jmh_nr (tx_md_buf tx' c) = 0" "tx_md_buf tx' 0 = tx_md_buf tx 0"
    "tx_md_cur tx' = Some (c + 1)" "tx_md_nr_blocks tx' = tx_md_nr_blocks tx - 1"
    "md_frame tx tx'" "tx_trace tx' = tx_trace tx"
proof -
  let ?f = "\<lambda>b. put_le 4 0 ETAG_BLK (put_le 4 4 0 b)"
  let ?tx = "md_update c ?f (tx\<lparr>tx_md_cur := Some (c + 1), tx_md_nr_blocks := tx_md_nr_blocks tx - 1, tx_ext := Some c\<rparr>)"
  have s: "sub32 (tx_md_nr_blocks tx) 1 = tx_md_nr_blocks tx - 1" using nr by (simp add: c_arith)
  have "new_etagblk tx = Inr ?tx" using nr(1) c s by (simp add: new_etagblk_def reserve_mdblk_def Let_def)
  moreover have "md_blocks ?tx = md_blocks tx @ [?f (tx_md_buf tx c)]"
    using c by (auto simp: md_blocks_def upt_Suc_append)
  ultimately show thesis
    using c by (intro that [of ?tx]) (auto simp: is_etag_blk_def md_update_def block_type_defs md_frame_def)
qed

lemma tags_of_md:
  assumes "md_blocks tx = pre @ b # post" "is_etag_blk b" "list_all is_stage_trace_blk post"
  shows "tx_tags tx = jdb_tags (tx_md_buf tx 0) @ concat (map jetb_tags (filter (Not \<circ> is_stage_trace_blk) pre)) @ jetb_tags b"
    "tx_traces tx = concat (map stb_tx_list (filter is_stage_trace_blk (pre @ post)))"
proof -
  have "filter (Not \<circ> is_stage_trace_blk) post = []" using assms(3) by (auto simp: filter_empty_conv list_all_iff)
  then show "tx_tags tx = jdb_tags (tx_md_buf tx 0) @ concat (map jetb_tags (filter (Not \<circ> is_stage_trace_blk) pre)) @ jetb_tags b"
    using etag_not_trace [OF assms(2)] by (simp add: tx_tags_def assms(1))
  show "tx_traces tx = concat (map stb_tx_list (filter is_stage_trace_blk (pre @ post)))"
    using etag_not_trace [OF assms(2)] by (simp add: tx_traces_def assms(1))
qed

lemma jetb_tags_none: "jmh_nr b = 0 \<Longrightarrow> jetb_tags b = []"
  by (simp add: jetb_tags_def get_etags_def)

text \<open>Opening an extent tag block when all earlier ones are full.\<close>

lemma new_etagblk_inv:
  assumes cur: "tx_md_cur tx = Some c" "1 \<le> c" "c + tx_md_nr_blocks tx = 8192" "2 \<le> tx_md_nr_blocks tx"
    and d: "tx_desc tx = Some 0" "is_jnr_desc_blk (tx_md_buf tx 0)" "jdb_nr_tags (tx_md_buf tx 0) = JOURNAL_DESC_TAG_MAX"
    and n: "jdb_nr_etag_blks (tx_md_buf tx 0) = Suc (length (filter (Not \<circ> is_stage_trace_blk) (md_blocks tx)))"
      "jdb_nr_stage_trace_blks (tx_md_buf tx 0) = length (filter is_stage_trace_blk (md_blocks tx))"
    and b: "\<forall>b\<in>set (md_blocks tx). if is_stage_trace_blk b then jmh_nr b \<le> JOURNAL_TRACE_MAX
                             else is_etag_blk b \<and> jmh_nr b = JOURNAL_ETAG_MAX"
  obtains tx' where "new_etagblk tx = Inr tx'" "md_inv tx'" "tx_tags tx' = tx_tags tx" "tx_traces tx' = tx_traces tx"
    "tx_md_buf tx' 0 = tx_md_buf tx 0" "md_frame tx tx'" "tx_trace tx' = tx_trace tx"
proof -
  have "tx_md_nr_blocks tx < 2 ^ 32" using cur(3) by simp
  then obtain tx' where t: "new_etagblk tx = Inr tx'" "md_blocks tx' = md_blocks tx @ [tx_md_buf tx' c]" "tx_ext tx' = Some c"
    "is_etag_blk (tx_md_buf tx' c)" "jmh_nr (tx_md_buf tx' c) = 0" "tx_md_buf tx' 0 = tx_md_buf tx 0"
    "tx_md_cur tx' = Some (c + 1)" "tx_md_nr_blocks tx' = tx_md_nr_blocks tx - 1" "md_frame tx tx'" "tx_trace tx' = tx_trace tx"
    using new_etagblk_ok [OF cur(4) _ cur(1,2)] by metis
  have len: "length (md_blocks tx) = c - 1" using cur(1) by (simp add: md_blocks_def)
  have nt: "\<not> is_stage_trace_blk (tx_md_buf tx' c)" by (rule etag_not_trace [OF t(4)])
  have ext: "ext_inv tx'"
    unfolding ext_inv_def t(3) option.case
  proof (intro conjI exI)
    show "md_blocks tx' = md_blocks tx @ tx_md_buf tx' c # []" by (rule t(2))
    show "\<forall>b\<in>set (md_blocks tx). is_stage_trace_blk b \<or> jmh_nr b = JOURNAL_ETAG_MAX" using b by meson
  qed (use t(4-6) d(3) len cur(2) in \<open>simp_all add: tag_maxes\<close>)
  have "md_inv tx'"
    unfolding md_inv_def using t d n b ext nt cur(3,4) md_frameD(11) [OF t(9)]
    by (auto simp: tag_maxes)
  moreover have "tx_tags tx' = tx_tags tx" "tx_traces tx' = tx_traces tx"
    using t(2,5,6) nt by (simp_all add: tx_tags_def tx_traces_def jetb_tags_none)
  ultimately show thesis using that t by blast
qed

lemma md_frame_update2: "md_frame (md_update i f (md_update j g tx)) tx' \<Longrightarrow> md_frame tx tx'"
  by (rule md_frame_trans [OF md_frame_trans [OF md_frame_update md_frame_update]])

lemma md_invD:
  assumes "md_inv tx"
  shows "tx_desc tx = Some 0" "is_jnr_desc_blk (tx_md_buf tx 0)" "0 < tx_md_nr_blocks tx"
    "jdb_nr_etag_blks (tx_md_buf tx 0) = length (filter (Not \<circ> is_stage_trace_blk) (md_blocks tx))"
    "jdb_nr_stage_trace_blks (tx_md_buf tx 0) = length (filter is_stage_trace_blk (md_blocks tx))"
    "\<forall>b\<in>set (md_blocks tx). if is_stage_trace_blk b then jmh_nr b \<le> JOURNAL_TRACE_MAX
                             else is_etag_blk b \<and> jmh_nr b \<le> JOURNAL_ETAG_MAX"
    "ext_inv tx" "tx_md_cur tx = Some (8192 - tx_md_nr_blocks tx)" "1 \<le> 8192 - tx_md_nr_blocks tx"
    "8192 - tx_md_nr_blocks tx + tx_md_nr_blocks tx = 8192" "length (md_blocks tx) = 8191 - tx_md_nr_blocks tx"
  using assms unfolding md_inv_def md_blocks_def by auto

text \<open>The transaction id and the number of stage trace blocks are kept.\<close>

definition desc_same :: "journal_tx \<Rightarrow> journal_tx \<Rightarrow> bool" where
  "desc_same tx tx' \<longleftrightarrow> jdb_transaction_id (tx_md_buf tx' 0) = jdb_transaction_id (tx_md_buf tx 0) \<and>
     jdb_nr_stage_trace_blks (tx_md_buf tx' 0) = jdb_nr_stage_trace_blks (tx_md_buf tx 0)"

text \<open>Adding a tag to the descriptor block.\<close>

lemma fill_tagblk_desc:
  assumes inv: "md_inv tx" and nr: "2 \<le> tx_md_nr_blocks tx" and None: "tx_ext tx = None"
  obtains tx' where "fill_tagblk tx start cnt = Inr tx'" "md_inv tx'" "tx_tags tx' = tx_tags tx @ [etag_of start cnt]"
    "tx_traces tx' = tx_traces tx" "md_frame tx tx'" "tx_trace tx' = tx_trace tx" "desc_same tx tx'"
proof -
  note i = md_invD [OF inv]
  have tr: "list_all is_stage_trace_blk (md_blocks tx)" and lt: "jdb_nr_tags (tx_md_buf tx 0) < JOURNAL_DESC_TAG_MAX"
    using i(7) None by (simp_all add: ext_inv_def)
  obtain b where b: "fill_tag_descblk start cnt (tx_md_buf tx 0) = Inr (jdb_nr_tags (tx_md_buf tx 0) + 1 = JOURNAL_DESC_TAG_MAX, b)"
    "jdb_tags b = jdb_tags (tx_md_buf tx 0) @ [etag_of start cnt]" "jdb_nr_tags b = jdb_nr_tags (tx_md_buf tx 0) + 1"
    "\<And>off n. off + n \<le> 16 \<Longrightarrow> get_le n off b = get_le n off (tx_md_buf tx 0)"
    using fill_tag_descblk_tags [OF lt] by metis
  let ?tx = "md_update 0 (\<lambda>_. b) tx"
  have flt: "filter (Not \<circ> is_stage_trace_blk) (md_blocks tx) = []" using tr by (auto simp: filter_empty_conv list_all_iff)
  have tags: "tx_tags ?tx = tx_tags tx @ [etag_of start cnt]" "tx_traces ?tx = tx_traces tx"
    using b(2) flt by (simp_all add: tx_tags_def tx_traces_def)
  show thesis
  proof (cases "jdb_nr_tags (tx_md_buf tx 0) + 1 = JOURNAL_DESC_TAG_MAX")
    case False
    have "fill_tagblk tx start cnt = Inr ?tx"
      using None b(1) False by (simp add: fill_tagblk_def i(1) Let_def)
    moreover have "md_inv ?tx"
      unfolding md_inv_def using i b(3,4) tr False None lt
      by (intro conjI) (simp_all add: ext_inv_def is_jnr_desc_blk_def)
    ultimately show thesis using that tags b(4) by (simp add: desc_same_def)
  next
    case True
    let ?tx2 = "md_update 0 (put_le 4 8 1) ?tx"
    have tags2: "tx_tags ?tx2 = tx_tags tx @ [etag_of start cnt]" "tx_traces ?tx2 = tx_traces tx"
      using tags by (simp_all add: tx_tags_def tx_traces_def jdb_tags_put_le)
    obtain tx' where t: "new_etagblk ?tx2 = Inr tx'" "md_inv tx'" "tx_tags tx' = tx_tags ?tx2" "tx_traces tx' = tx_traces ?tx2"
      "tx_md_buf tx' 0 = tx_md_buf ?tx2 0" "md_frame ?tx2 tx'" "tx_trace tx' = tx_trace ?tx2"
    proof (rule new_etagblk_inv [of ?tx2 "8192 - tx_md_nr_blocks tx"])
      show "\<forall>b\<in>set (md_blocks ?tx2). if is_stage_trace_blk b then jmh_nr b \<le> JOURNAL_TRACE_MAX
          else is_etag_blk b \<and> jmh_nr b = JOURNAL_ETAG_MAX"
        using i(6) tr by (auto simp: list_all_iff)
    qed (use i nr flt b True in \<open>simp_all add: is_jnr_desc_blk_def\<close>)
    have "fill_tagblk tx start cnt = Inr tx'"
      using None b(1) True t(1) by (simp add: fill_tagblk_def i(1) Let_def)
    then show thesis using that t tags2 md_frame_update2 [OF t(6)] b(4) by (simp add: desc_same_def)
  qed
qed

text \<open>Adding a tag to the last extent tag block.\<close>

lemma fill_tagblk_etag:
  assumes inv: "md_inv tx" and nr: "2 \<le> tx_md_nr_blocks tx" and Some: "tx_ext tx = Some e"
  obtains tx' where "fill_tagblk tx start cnt = Inr tx'" "md_inv tx'" "tx_tags tx' = tx_tags tx @ [etag_of start cnt]"
    "tx_traces tx' = tx_traces tx" "md_frame tx tx'" "tx_trace tx' = tx_trace tx" "desc_same tx tx'"
proof -
  note i = md_invD [OF inv]
  obtain pre post where p: "md_blocks tx = pre @ tx_md_buf tx e # post" "e = Suc (length pre)"
      "list_all is_stage_trace_blk post" "is_etag_blk (tx_md_buf tx e)" "jmh_nr (tx_md_buf tx e) < JOURNAL_ETAG_MAX"
      "\<forall>b\<in>set pre. is_stage_trace_blk b \<or> jmh_nr b = JOURNAL_ETAG_MAX"
    and full: "jdb_nr_tags (tx_md_buf tx 0) = JOURNAL_DESC_TAG_MAX"
    using i(7) Some by (auto simp: ext_inv_def)
  obtain b where b: "fill_tag_etagblk start cnt (tx_md_buf tx e) = (jmh_nr (tx_md_buf tx e) + 1 = JOURNAL_ETAG_MAX, b)"
    "jetb_tags b = jetb_tags (tx_md_buf tx e) @ [etag_of start cnt]" "jmh_nr b = jmh_nr (tx_md_buf tx e) + 1"
    "jmh_blocktype b = jmh_blocktype (tx_md_buf tx e)"
    using fill_tag_etagblk_tags [OF p(5)] by metis
  let ?tx = "md_update e (\<lambda>_. b) tx"
  have mb: "md_blocks ?tx = pre @ b # post" by (rule md_blocks_update [OF p(1,2)])
  have be: "is_etag_blk b" using p(4) b(4) by (simp add: is_etag_blk_def)
  have e0: "tx_md_buf ?tx 0 = tx_md_buf tx 0" using p(2) by simp
  have tags: "tx_tags ?tx = tx_tags tx @ [etag_of start cnt]" "tx_traces ?tx = tx_traces tx"
    using tags_of_md [OF p(1,4,3)] tags_of_md [OF mb be p(3)] e0 b(2) by simp_all
  have cnts: "length (filter (Not \<circ> is_stage_trace_blk) (md_blocks ?tx)) = length (filter (Not \<circ> is_stage_trace_blk) (md_blocks tx))"
    "length (filter is_stage_trace_blk (md_blocks ?tx)) = length (filter is_stage_trace_blk (md_blocks tx))"
    using etag_not_trace [OF be] etag_not_trace [OF p(4)] by (simp_all add: mb p(1))
  have bl: "\<forall>b\<in>set (pre @ post). if is_stage_trace_blk b then jmh_nr b \<le> JOURNAL_TRACE_MAX
                             else is_etag_blk b \<and> jmh_nr b \<le> JOURNAL_ETAG_MAX"
    using i(6) p(1) by auto
  show thesis
  proof (cases "jmh_nr (tx_md_buf tx e) + 1 = JOURNAL_ETAG_MAX")
    case False
    have "fill_tagblk tx start cnt = Inr ?tx"
      using Some b(1) False by (simp add: fill_tagblk_def i(1) Let_def)
    moreover have "ext_inv ?tx"
      unfolding ext_inv_def md_update_sel Some option.case
      using full p(2,3,5,6) mb be b(3) False by (auto simp: e0 [simplified])
    then have "md_inv ?tx"
      unfolding md_inv_def cnts unfolding mb using i p(2,5) bl b(3) be etag_not_trace [OF be]
      by (intro conjI) simp_all
    ultimately show thesis using that tags p(2) by (simp add: desc_same_def)
  next
    case True
    let ?tx2 = "md_update 0 (\<lambda>b. put_le 4 8 (jdb_nr_etag_blks b + 1) b) ?tx"
    have tags2: "tx_tags ?tx2 = tx_tags tx @ [etag_of start cnt]" "tx_traces ?tx2 = tx_traces tx"
      using tags by (simp_all add: tx_tags_def tx_traces_def jdb_tags_put_le)
    have small: "Suc (length (filter (Not \<circ> is_stage_trace_blk) (md_blocks tx))) < 2 ^ 32"
      using length_filter_le [of "Not \<circ> is_stage_trace_blk" "md_blocks tx"] i(11) by simp
    obtain tx' where t: "new_etagblk ?tx2 = Inr tx'" "md_inv tx'" "tx_tags tx' = tx_tags ?tx2" "tx_traces tx' = tx_traces ?tx2"
      "tx_md_buf tx' 0 = tx_md_buf ?tx2 0" "md_frame ?tx2 tx'" "tx_trace tx' = tx_trace ?tx2"
    proof (rule new_etagblk_inv [of ?tx2 "8192 - tx_md_nr_blocks tx"])
      show "\<forall>b\<in>set (md_blocks ?tx2). if is_stage_trace_blk b then jmh_nr b \<le> JOURNAL_TRACE_MAX
          else is_etag_blk b \<and> jmh_nr b = JOURNAL_ETAG_MAX"
        using bl p(3,6) b(3) True be etag_not_trace [OF be] by (auto simp: mb list_all_iff)
      show "jdb_nr_etag_blks (tx_md_buf ?tx2 0) = Suc (length (filter (Not \<circ> is_stage_trace_blk) (md_blocks ?tx2)))"
        using small cnts(1) i(4) p(2) by simp
      show "jdb_nr_stage_trace_blks (tx_md_buf ?tx2 0) = length (filter is_stage_trace_blk (md_blocks ?tx2))"
        using cnts(2) i(5) p(2) by simp
    qed (use i nr full p(2) in \<open>simp_all add: is_jnr_desc_blk_def\<close>)
    have "fill_tagblk tx start cnt = Inr tx'"
      using Some b(1) True t(1) by (simp add: fill_tagblk_def i(1) Let_def)
    then show thesis using that t tags2 md_frame_update2 [OF t(6)] p(2) by (simp add: desc_same_def)
  qed
qed

lemma fill_tagblk_inv:
  assumes "md_inv tx" "2 \<le> tx_md_nr_blocks tx"
  obtains tx' where "fill_tagblk tx start cnt = Inr tx'" "md_inv tx'" "tx_tags tx' = tx_tags tx @ [etag_of start cnt]"
    "tx_traces tx' = tx_traces tx" "md_frame tx tx'" "tx_trace tx' = tx_trace tx" "desc_same tx tx'"
proof (cases "tx_ext tx")
  case None
  then show thesis using fill_tagblk_desc [OF assms] that by blast
next
  case (Some e)
  then show thesis using fill_tagblk_etag [OF assms] that by blast
qed

section \<open>Lemmas: stage trace blocks\<close>

text \<open>The last metadata block is the stage trace block that is being filled.\<close>

definition open_trace :: "journal_tx \<Rightarrow> bool" where
  "open_trace tx \<longleftrightarrow> (\<exists>pre t. tx_trace tx = Some t \<and> md_blocks tx = pre @ [tx_md_buf tx t] \<and> t = Suc (length pre) \<and>
     is_stage_trace_blk (tx_md_buf tx t) \<and> jmh_nr (tx_md_buf tx t) < JOURNAL_TRACE_MAX)"

lemma ext_inv_append:
  assumes inv: "ext_inv tx" and mb: "md_blocks tx' = md_blocks tx @ [b]" "is_stage_trace_blk b"
    and ext: "tx_ext tx' = tx_ext tx" "jdb_nr_tags (tx_md_buf tx' 0) = jdb_nr_tags (tx_md_buf tx 0)"
    and same: "\<And>e. 0 < e \<Longrightarrow> e \<le> length (md_blocks tx) \<Longrightarrow> tx_md_buf tx' e = tx_md_buf tx e"
  shows "ext_inv tx'"
proof (cases "tx_ext tx")
  case None
  then show ?thesis using inv mb ext by (simp add: ext_inv_def)
next
  case (Some e)
  then obtain pre post where p: "md_blocks tx = pre @ tx_md_buf tx e # post" "e = Suc (length pre)"
      "list_all is_stage_trace_blk post" "is_etag_blk (tx_md_buf tx e)" "jmh_nr (tx_md_buf tx e) < JOURNAL_ETAG_MAX"
      "\<forall>b\<in>set pre. is_stage_trace_blk b \<or> jmh_nr b = JOURNAL_ETAG_MAX"
      "jdb_nr_tags (tx_md_buf tx 0) = JOURNAL_DESC_TAG_MAX"
    using inv by (auto simp: ext_inv_def)
  have e: "tx_md_buf tx' e = tx_md_buf tx e" using p(1,2) by (intro same) simp_all
  have "md_blocks tx' = pre @ tx_md_buf tx e # (post @ [b])" "list_all is_stage_trace_blk (post @ [b])"
    using mb p(1,3) by simp_all
  then show ?thesis using p(2,4-7) ext(2) unfolding ext_inv_def ext(1) Some option.case e by metis
qed

lemma new_traceblk_inv:
  assumes inv: "md_inv tx" and nr: "2 \<le> tx_md_nr_blocks tx"
  obtains tx' where "new_traceblk tx = Inr tx'" "md_inv tx'" "tx_tags tx' = tx_tags tx" "tx_traces tx' = tx_traces tx"
    "open_trace tx'" "tx_md_nr_blocks tx' = tx_md_nr_blocks tx - 1" "md_frame tx tx'"
    "jdb_transaction_id (tx_md_buf tx' 0) = jdb_transaction_id (tx_md_buf tx 0)"
    "jdb_nr_stage_trace_blks (tx_md_buf tx' 0) = jdb_nr_stage_trace_blks (tx_md_buf tx 0) + 1"
proof -
  note i = md_invD [OF inv]
  let ?c = "8192 - tx_md_nr_blocks tx"
  let ?f = "\<lambda>b. put_le 4 0 STAGE_TRACE_BLK (put_le 4 4 0 b)"
  let ?g = "\<lambda>b. put_le 4 12 (jdb_nr_stage_trace_blks b + 1) b"
  let ?tx = "md_update 0 ?g (md_update ?c ?f (tx\<lparr>tx_md_cur := Some (?c + 1), tx_md_nr_blocks := tx_md_nr_blocks tx - 1, tx_trace := Some ?c\<rparr>))"
  let ?b = "?f (tx_md_buf tx ?c)"
  have c0: "?c \<noteq> 0" using i(9) by linarith
  have r: "new_traceblk tx = Inr ?tx"
    using md_reserve [OF inv nr i(8)] by (simp add: new_traceblk_def i(1))
  have mb: "md_blocks ?tx = md_blocks tx @ [?b]"
    using i(8,9) by (auto simp: md_blocks_def upt_Suc_append)
  have b: "is_stage_trace_blk ?b" "jmh_nr ?b = 0" "\<not> is_etag_blk ?b" "stb_tx_list ?b = []"
    by (simp_all add: is_stage_trace_blk_def is_etag_blk_def block_type_defs stb_tx_list_def)
  have small: "Suc (length (filter is_stage_trace_blk (md_blocks tx))) < 2 ^ 32"
    using length_filter_le [of is_stage_trace_blk "md_blocks tx"] i(11) by simp
  have d: "tx_md_buf ?tx 0 = ?g (tx_md_buf tx 0)" using c0 by simp
  have tags: "tx_tags ?tx = tx_tags tx" "tx_traces ?tx = tx_traces tx"
    unfolding tx_tags_def tx_traces_def mb d using b by (simp_all add: jdb_tags_put_le)
  have op: "open_trace ?tx"
    unfolding open_trace_def using mb b i(11) c0 nr
    by (auto simp: tag_maxes intro!: exI [of _ "md_blocks tx"])
  have "ext_inv ?tx"
    using i(9,11) by (intro ext_inv_append [OF i(7) mb b(1)]) (auto simp: d [unfolded md_update_sel])
  then have "md_inv ?tx"
    unfolding md_inv_def mb d using i small b nr c0
    by (intro conjI) (simp_all add: is_jnr_desc_blk_def)
  moreover have "jdb_nr_stage_trace_blks (?g (tx_md_buf tx 0)) = jdb_nr_stage_trace_blks (tx_md_buf tx 0) + 1"
    using small i(5) by simp
  moreover have "md_frame tx ?tx" by (simp add: md_frame_def md_update_def)
  ultimately show thesis using that [OF r _ tags op, unfolded d] by simp
qed

lemma put_trace_inv:
  assumes inv: "md_inv tx" and op: "open_trace tx" and t: "tx_trace tx = Some t"
  shows "md_inv (md_update t (put_trace s) tx)" "tx_tags (md_update t (put_trace s) tx) = tx_tags tx"
    "tx_traces (md_update t (put_trace s) tx) = tx_traces tx @ [u64 s]"
    "jmh_nr (put_trace s (tx_md_buf tx t)) \<noteq> JOURNAL_TRACE_MAX \<Longrightarrow> open_trace (md_update t (put_trace s) tx)"
proof -
  note i = md_invD [OF inv]
  let ?tx = "md_update t (put_trace s) tx" and ?b = "put_trace s (tx_md_buf tx t)"
  obtain pre where p: "md_blocks tx = pre @ [tx_md_buf tx t]" "t = Suc (length pre)"
    "is_stage_trace_blk (tx_md_buf tx t)" "jmh_nr (tx_md_buf tx t) < JOURNAL_TRACE_MAX"
    using op t by (auto simp: open_trace_def)
  note b = put_trace_list [OF p(4), of s]
  have bt: "is_stage_trace_blk ?b" using b(3) p(3) by (simp add: is_stage_trace_blk_def)
  have mb: "md_blocks ?tx = pre @ [?b]" using md_blocks_update [OF p(1,2)] by simp
  have d: "tx_md_buf ?tx 0 = tx_md_buf tx 0" using p(2) by simp
  have "ext_inv ?tx"
  proof (cases "tx_ext tx")
    case None
    then show ?thesis using i(7) mb bt p(1) d unfolding ext_inv_def md_update_sel(5) by simp
  next
    case (Some e)
    then obtain pre' post where q: "md_blocks tx = pre' @ tx_md_buf tx e # post" "e = Suc (length pre')"
        "list_all is_stage_trace_blk post" "is_etag_blk (tx_md_buf tx e)" "jmh_nr (tx_md_buf tx e) < JOURNAL_ETAG_MAX"
        "\<forall>b\<in>set pre'. is_stage_trace_blk b \<or> jmh_nr b = JOURNAL_ETAG_MAX"
        "jdb_nr_tags (tx_md_buf tx 0) = JOURNAL_DESC_TAG_MAX"
      using i(7) by (auto simp: ext_inv_def)
    have "post \<noteq> []" using q(1,4) p(1,3) etag_not_trace by (metis append1_eq_conv)
    then obtain post' x where post: "post = post' @ [x]" by (meson rev_exhaust)
    have pre: "pre = pre' @ tx_md_buf tx e # post'" using q(1) p(1) post by simp
    have e: "tx_md_buf ?tx e = tx_md_buf tx e" using pre p(2) q(2) by simp
    have "md_blocks ?tx = pre' @ tx_md_buf tx e # (post' @ [?b])" "list_all is_stage_trace_blk (post' @ [?b])"
      using mb pre q(3) post bt by simp_all
    then show ?thesis using q(2,4-7) unfolding ext_inv_def md_update_sel(5) Some option.case e d by metis
  qed
  moreover have cnts: "length (filter (Not \<circ> is_stage_trace_blk) (md_blocks ?tx)) = length (filter (Not \<circ> is_stage_trace_blk) (md_blocks tx))"
    "length (filter is_stage_trace_blk (md_blocks ?tx)) = length (filter is_stage_trace_blk (md_blocks tx))"
    using bt p(3) by (simp_all add: mb p(1))
  moreover have "\<forall>b\<in>set (md_blocks ?tx). if is_stage_trace_blk b then jmh_nr b \<le> JOURNAL_TRACE_MAX
                             else is_etag_blk b \<and> jmh_nr b \<le> JOURNAL_ETAG_MAX"
    using i(6) p(1,4) b(1) bt by (simp add: mb)
  ultimately show "md_inv ?tx"
    unfolding md_inv_def d using i by (intro conjI) simp_all
  show "tx_tags ?tx = tx_tags tx" "tx_traces ?tx = tx_traces tx @ [u64 s]"
    unfolding tx_tags_def tx_traces_def mb d p(1) using bt p(3) b(2) by simp_all
  show "open_trace ?tx" if "jmh_nr ?b \<noteq> JOURNAL_TRACE_MAX"
    unfolding open_trace_def using that p(2,4) b(1) bt t mb by auto
qed

lemma trace_loop_inv:
  assumes "md_inv tx" "open_trace tx" "length ss \<le> tx_md_nr_blocks tx"
  shows "\<exists>tx'. trace_loop ss tx = Inr tx' \<and> md_inv tx' \<and> tx_tags tx' = tx_tags tx \<and>
    tx_traces tx' = tx_traces tx @ map u64 ss \<and> md_frame tx tx' \<and> tx_trace tx' \<noteq> None \<and>
    jdb_transaction_id (tx_md_buf tx' 0) = jdb_transaction_id (tx_md_buf tx 0) \<and>
    jdb_nr_stage_trace_blks (tx_md_buf tx' 0) < jdb_nr_stage_trace_blks (tx_md_buf tx 0) + max 1 (length ss)"
  using assms
proof (induction ss arbitrary: tx)
  case Nil
  then show ?case by (auto simp: open_trace_def)
next
  case (Cons s ss)
  obtain t where t: "tx_trace tx = Some t" "0 < t" using Cons.prems(2) by (auto simp: open_trace_def)
  let ?tx = "md_update t (put_trace s) tx"
  note p = put_trace_inv [OF Cons.prems(1,2) t(1), of s]
  consider "ss = []" | "ss \<noteq> []" "jmh_nr (put_trace s (tx_md_buf tx t)) = JOURNAL_TRACE_MAX"
    | "ss \<noteq> []" "jmh_nr (put_trace s (tx_md_buf tx t)) \<noteq> JOURNAL_TRACE_MAX" by blast
  then show ?case
  proof cases
    case 1
    then show ?thesis using p(1-3) t by auto
  next
    case 2
    have "2 \<le> tx_md_nr_blocks ?tx" using 2(1) Cons.prems(3) by (cases ss) auto
    then obtain tx1 where n: "new_traceblk ?tx = Inr tx1" "md_inv tx1" "tx_tags tx1 = tx_tags ?tx"
      "tx_traces tx1 = tx_traces ?tx" "open_trace tx1" "tx_md_nr_blocks tx1 = tx_md_nr_blocks ?tx - 1" "md_frame ?tx tx1"
      "jdb_transaction_id (tx_md_buf tx1 0) = jdb_transaction_id (tx_md_buf ?tx 0)"
      "jdb_nr_stage_trace_blks (tx_md_buf tx1 0) = jdb_nr_stage_trace_blks (tx_md_buf ?tx 0) + 1"
      using new_traceblk_inv [OF p(1)] by blast
    have "length ss \<le> tx_md_nr_blocks tx1" using n(6) Cons.prems(3) by simp
    from Cons.IH [OF n(2,5) this] obtain tx' where "trace_loop ss tx1 = Inr tx'" "md_inv tx'" "tx_tags tx' = tx_tags tx1"
      "tx_traces tx' = tx_traces tx1 @ map u64 ss" "md_frame tx1 tx'" "tx_trace tx' \<noteq> None"
      "jdb_transaction_id (tx_md_buf tx' 0) = jdb_transaction_id (tx_md_buf tx1 0)"
      "jdb_nr_stage_trace_blks (tx_md_buf tx' 0) < jdb_nr_stage_trace_blks (tx_md_buf tx1 0) + max 1 (length ss)" by blast
    then show ?thesis
      using 2 t n p(2,3) Cons.prems(3) md_frame_trans [OF md_frame_trans [OF md_frame_update n(7)]]
      by (auto simp: Let_def max_def split: if_splits) (cases ss; simp)+
  next
    case 3
    have "length ss \<le> tx_md_nr_blocks ?tx" using Cons.prems(3) by simp
    from Cons.IH [OF p(1) p(4) [OF 3(2)] this] obtain tx' where "trace_loop ss ?tx = Inr tx'" "md_inv tx'" "tx_tags tx' = tx_tags ?tx"
      "tx_traces tx' = tx_traces ?tx @ map u64 ss" "md_frame ?tx tx'" "tx_trace tx' \<noteq> None"
      "jdb_transaction_id (tx_md_buf tx' 0) = jdb_transaction_id (tx_md_buf ?tx 0)"
      "jdb_nr_stage_trace_blks (tx_md_buf tx' 0) < jdb_nr_stage_trace_blks (tx_md_buf ?tx 0) + max 1 (length ss)" by blast
    then show ?thesis
      using 3 t p(2,3) Cons.prems(3) md_frame_trans [OF md_frame_update] by (auto simp: Let_def)
  qed
qed

lemma journal_stage_trace_inv:
  assumes inv: "md_inv tx" and nr: "Suc (length ss) \<le> tx_md_nr_blocks tx" and ss: "ss \<noteq> []"
  obtains tx' where "journal_stage_trace tx ss = Inr tx'" "md_inv tx'" "tx_tags tx' = tx_tags tx"
    "tx_traces tx' = tx_traces tx @ map u64 ss" "md_frame tx tx'" "tx_trace tx' \<noteq> None"
    "jdb_transaction_id (tx_md_buf tx' 0) = jdb_transaction_id (tx_md_buf tx 0)"
    "jdb_nr_stage_trace_blks (tx_md_buf tx' 0) \<le> jdb_nr_stage_trace_blks (tx_md_buf tx 0) + length ss"
proof -
  have "2 \<le> tx_md_nr_blocks tx" using nr ss by (cases ss) auto
  then obtain tx1 where n: "new_traceblk tx = Inr tx1" "md_inv tx1" "tx_tags tx1 = tx_tags tx"
    "tx_traces tx1 = tx_traces tx" "open_trace tx1" "tx_md_nr_blocks tx1 = tx_md_nr_blocks tx - 1" "md_frame tx tx1"
    "jdb_transaction_id (tx_md_buf tx1 0) = jdb_transaction_id (tx_md_buf tx 0)"
    "jdb_nr_stage_trace_blks (tx_md_buf tx1 0) = jdb_nr_stage_trace_blks (tx_md_buf tx 0) + 1"
    using new_traceblk_inv [OF inv] by blast
  have "length ss \<le> tx_md_nr_blocks tx1" using n(6) nr by simp
  from trace_loop_inv [OF n(2,5) this] obtain tx' where t: "trace_loop ss tx1 = Inr tx'" "md_inv tx'" "tx_tags tx' = tx_tags tx1"
      "tx_traces tx' = tx_traces tx1 @ map u64 ss" "md_frame tx1 tx'" "tx_trace tx' \<noteq> None"
      "jdb_transaction_id (tx_md_buf tx' 0) = jdb_transaction_id (tx_md_buf tx1 0)"
      "jdb_nr_stage_trace_blks (tx_md_buf tx' 0) < jdb_nr_stage_trace_blks (tx_md_buf tx1 0) + max 1 (length ss)" by blast
  have "max 1 (length ss) = length ss" using ss by (cases ss) auto
  then show thesis
    using that [of tx'] t n ss md_frame_trans [OF n(7) t(5)] by (simp add: journal_stage_trace_def)
qed

text \<open>How many blocks the tags and stage transactions of a transaction take.\<close>

lemma length_full_etags:
  "\<forall>b\<in>set bs. jmh_nr b = JOURNAL_ETAG_MAX \<Longrightarrow> length (concat (map jetb_tags bs)) = JOURNAL_ETAG_MAX * length bs"
  by (induction bs) (simp_all add: jetb_tags_def get_etags_def)

lemma md_etag_blks:
  assumes inv: "md_inv tx"
  shows "340 * length (filter (Not \<circ> is_stage_trace_blk) (md_blocks tx)) \<le> Suc (length (tx_tags tx))"
proof (cases "tx_ext tx")
  case None
  then have "filter (Not \<circ> is_stage_trace_blk) (md_blocks tx) = []"
    using md_invD(7) [OF inv] by (auto simp: ext_inv_def filter_empty_conv list_all_iff)
  then show ?thesis by simp
next
  case (Some e)
  then obtain pre post where p: "md_blocks tx = pre @ tx_md_buf tx e # post"
      "list_all is_stage_trace_blk post" "is_etag_blk (tx_md_buf tx e)"
      "\<forall>b\<in>set pre. is_stage_trace_blk b \<or> jmh_nr b = JOURNAL_ETAG_MAX" "jdb_nr_tags (tx_md_buf tx 0) = JOURNAL_DESC_TAG_MAX"
    using md_invD(7) [OF inv] by (auto simp: ext_inv_def)
  let ?f = "filter (Not \<circ> is_stage_trace_blk)"
  have "?f post = []" using p(2) by (auto simp: filter_empty_conv list_all_iff)
  then have l: "length (?f (md_blocks tx)) = Suc (length (?f pre))"
    using etag_not_trace [OF p(3)] by (simp add: p(1))
  have "length (concat (map jetb_tags (?f pre))) = 340 * length (?f pre)"
    using length_full_etags [of "?f pre"] p(4) by (auto simp: tag_maxes)
  then have "339 + 340 * length (?f pre) \<le> length (tx_tags tx)"
    using tags_of_md(1) [OF p(1,3,2)] p(5) by (simp add: jdb_tags_def get_etags_def tag_maxes)
  then show ?thesis using l by simp
qed

lemma md_nr_blocks_eq:
  assumes "md_inv tx"
  shows "tx_md_nr_blocks tx + jdb_nr_etag_blks (tx_md_buf tx 0) + jdb_nr_stage_trace_blks (tx_md_buf tx 0) = 8191"
proof -
  note i = md_invD [OF assms]
  have "length (md_blocks tx) = length (filter is_stage_trace_blk (md_blocks tx)) + length (filter (Not \<circ> is_stage_trace_blk) (md_blocks tx))"
    using sum_length_filter_compl [of is_stage_trace_blk "md_blocks tx"] by (simp add: comp_def)
  then show ?thesis using i(4,5,9,11) by linarith
qed

section \<open>Specification: the data of a transaction\<close>

text \<open>The data copied so far: the buffers sent, then the current one.\<close>

definition tx_data :: "journal_tx \<Rightarrow> block list" where
  "tx_data tx = concat (map fr_blocks (tx_reqs tx)) @ map (tx_buf tx) [0..<8192 - tx_nr_blocks tx]"

definition full_req :: "nat \<Rightarrow> nat \<Rightarrow> fetch_req \<Rightarrow> bool" where
  "full_req df i r \<longleftrightarrow> fr_df r = df \<and> fr_req_id r = i \<and> fr_size r = 8192 * OXBOW_BLOCK_SIZE \<and> length (fr_blocks r) = 8192"

definition data_inv :: "journal_tx \<Rightarrow> bool" where
  "data_inv tx \<longleftrightarrow>
     tx_cur tx = Some (8192 - tx_nr_blocks tx) \<and> 0 < tx_nr_blocks tx \<and> tx_nr_blocks tx \<le> 8192 \<and>
     tx_n_bufs tx = Suc (length (tx_reqs tx)) \<and> tx_sent tx = 8192 * length (tx_reqs tx) \<and>
     tx_used tx + tx_nr_blocks tx = 8192 * Suc (length (tx_reqs tx)) \<and> tx_used tx < 2 ^ 32 \<and>
     (\<forall>i<length (tx_reqs tx). full_req (tx_df tx) i (tx_reqs tx ! i))"

text \<open>The two transactions differ in their data only.\<close>

definition data_frame :: "journal_tx \<Rightarrow> journal_tx \<Rightarrow> bool" where
  "data_frame tx tx' \<longleftrightarrow> tx'\<lparr>tx_buf := tx_buf tx, tx_cur := tx_cur tx, tx_nr_blocks := tx_nr_blocks tx,
     tx_used := tx_used tx, tx_tot := tx_tot tx, tx_n_bufs := tx_n_bufs tx, tx_sent := tx_sent tx, tx_reqs := tx_reqs tx\<rparr> = tx"

text \<open>No tag is empty.\<close>

definition tags_pos :: "journal_tx \<Rightarrow> bool" where
  "tags_pos tx \<longleftrightarrow> (\<forall>t\<in>set (tx_tags tx). snd t \<noteq> 0)"

text \<open>The transaction holds the blocks \<open>ws\<close>: its tags name the addresses, its buffers hold the
  contents, in the same order.\<close>

definition tx_holds :: "journal_tx \<Rightarrow> (baddr \<times> block) list \<Rightarrow> bool" where
  "tx_holds tx ws \<longleftrightarrow> md_inv tx \<and> data_inv tx \<and> tag_blocks (tx_tags tx) = map fst ws \<and> tx_data tx = map snd ws \<and> tags_pos tx"

text \<open>The metadata buffer has room for \<open>n\<close> more tags.\<close>

definition tag_room :: "journal_tx \<Rightarrow> nat \<Rightarrow> bool" where
  "tag_room tx n \<longleftrightarrow> length (tx_tags tx) + n + 340 * jdb_nr_stage_trace_blks (tx_md_buf tx 0) \<le> 340 * 8189"

section \<open>Lemmas: data\<close>

lemma data_frameD:
  assumes "data_frame tx tx'"
  shows "tx_md_buf tx' = tx_md_buf tx" "tx_md_cur tx' = tx_md_cur tx" "tx_md_nr_blocks tx' = tx_md_nr_blocks tx"
    "tx_ext tx' = tx_ext tx" "tx_trace tx' = tx_trace tx" "tx_desc tx' = tx_desc tx" "tx_df tx' = tx_df tx" "tx_tid tx' = tx_tid tx"
    "tx_blks tx' = tx_blks tx" "tx_files tx' = tx_files tx" "tx_waiting tx' = tx_waiting tx" "tx_stages tx' = tx_stages tx"
    "tx_state tx' = tx_state tx"
  using assms by (cases tx; cases tx'; simp add: data_frame_def)+

lemma data_frame_refl [simp]: "data_frame tx tx"
  by (simp add: data_frame_def)

lemma data_frame_trans: "data_frame tx tx' \<Longrightarrow> data_frame tx' tx'' \<Longrightarrow> data_frame tx tx''"
  by (cases tx; cases tx'; cases tx'') (simp add: data_frame_def)

lemma md_inv_data_frame:
  assumes "data_frame tx tx'"
  shows "md_inv tx' = md_inv tx" "tx_tags tx' = tx_tags tx" "tx_traces tx' = tx_traces tx"
proof -
  note f = data_frameD [OF assms]
  have b: "md_blocks tx' = md_blocks tx" by (simp add: md_blocks_def f)
  show "md_inv tx' = md_inv tx" unfolding md_inv_def ext_inv_def b f by (rule refl)
  show "tx_tags tx' = tx_tags tx" "tx_traces tx' = tx_traces tx" by (simp_all add: tx_tags_def tx_traces_def b f)
qed

lemma data_inv_md_frame:
  assumes "md_frame tx tx'"
  shows "data_inv tx' = data_inv tx" "tx_data tx' = tx_data tx"
  using md_frameD [OF assms] by (simp_all add: data_inv_def tx_data_def)

lemma blks_per_buf: "BG_JOURNAL_COMMIT_SIZE div OXBOW_BLOCK_SIZE = 8192"
  by (simp add: BG_JOURNAL_COMMIT_SIZE_def DATA_FETCHER_BUF_SIZE_def OXBOW_BLOCK_SIZE_def)

lemma length_tx_data: "data_inv tx \<Longrightarrow> length (tx_data tx) = tx_used tx"
proof -
  assume i: "data_inv tx"
  have "length (concat (map fr_blocks rs)) = 8192 * length rs" if "\<forall>r\<in>set rs. length (fr_blocks r) = 8192" for rs
    using that by (induction rs) simp_all
  moreover have "\<forall>r\<in>set (tx_reqs tx). length (fr_blocks r) = 8192"
    using i by (auto simp: data_inv_def full_req_def in_set_conv_nth)
  ultimately have "length (concat (map fr_blocks (tx_reqs tx))) = 8192 * length (tx_reqs tx)" by blast
  then show ?thesis using i by (auto simp: data_inv_def tx_data_def)
qed

text \<open>Copying one block.\<close>

lemma copy_blk_inv:
  assumes inv: "data_inv tx" and room: "tx_used tx + 1 < 2 ^ 32" and alloc: "\<forall>n. alloc n \<noteq> None"
  obtains tx' where "copy_blk alloc tx src = Inr tx'" "data_inv tx'" "tx_data tx' = tx_data tx @ [src]"
    "data_frame tx tx'"
proof -
  let ?n = "tx_nr_blocks tx" and ?r = "length (tx_reqs tx)"
  have i: "tx_cur tx = Some (8192 - ?n)" "0 < ?n" "?n \<le> 8192" "tx_n_bufs tx = Suc ?r" "tx_sent tx = 8192 * ?r"
    "tx_used tx + ?n = 8192 * Suc ?r" "\<forall>i<?r. full_req (tx_df tx) i (tx_reqs tx ! i)" using inv by (simp_all add: data_inv_def)
  let ?tx = "tx\<lparr>tx_cur := Some (8192 - ?n + 1), tx_used := tx_used tx + 1, tx_nr_blocks := ?n - 1,
    tx_buf := (tx_buf tx)(8192 - ?n := src)\<rparr>"
  have a: "add32 (tx_used tx) 1 = tx_used tx + 1" "sub32 ?n 1 = ?n - 1" using room i(2,3) by (simp_all add: c_arith)
  have c: "copy_blk alloc tx src = next_buffer alloc ?tx"
    using i(1,2) a by (simp add: copy_blk_def)
  have up: "map (tx_buf ?tx) [0..<8192 - (?n - 1)] = map (tx_buf tx) [0..<8192 - ?n] @ [src]"
  proof -
    have "8192 - (?n - 1) = Suc (8192 - ?n)" using i(2,3) by simp
    then show ?thesis by simp
  qed
  show thesis
  proof (cases "?n = 1")
    case False
    have "copy_blk alloc tx src = Inr ?tx" using c False i(2) by (simp add: next_buffer_def)
    moreover have "Suc (8192 - ?n) = 8192 - (?n - 1)" "?n - 1 \<le> 8192" using i(2,3) by linarith+
    then have "data_inv ?tx" using i False room by (simp add: data_inv_def)
    moreover have "tx_data ?tx = tx_data tx @ [src]" unfolding tx_data_def using up by simp
    ultimately show thesis by (rule that) (simp add: data_frame_def)
  next
    case True
    obtain buf where buf: "alloc (Suc ?r) = Some buf" using alloc by blast
    have sent: "u32 (sub64 (tx_used tx + 1) (tx_sent tx)) = 8192"
      using i(5,6) True room by (simp add: c_arith)
    let ?req = "\<lparr>fr_df = tx_df tx, fr_req_id = ?r, fr_size = nblks_to_bytes 8192, fr_blocks = map (tx_buf ?tx) [0..<8192]\<rparr>"
    let ?tx2 = "?tx\<lparr>tx_reqs := tx_reqs tx @ [?req], tx_sent := add64 (tx_sent tx) 8192, tx_buf := buf, tx_cur := Some 0,
      tx_n_bufs := Suc ?r + 1, tx_nr_blocks := 8192, tx_tot := add32 (tx_tot tx) 8192\<rparr>"
    have "copy_blk alloc tx src = Inr ?tx2"
      unfolding c next_buffer_def request_data_fetch_def tx_alloc_buffer_def
      using True buf i(4) sent by (simp add: blks_per_buf Let_def)
    moreover have "nblks_to_bytes 8192 = 8192 * OXBOW_BLOCK_SIZE" by (simp add: nblks_to_bytes_def mul64_def u32_def OXBOW_BLOCK_SIZE_def)
    moreover have "add64 (tx_sent tx) 8192 = 8192 * Suc ?r" using i(5,6) room True by (simp add: c_arith)
    ultimately have "data_inv ?tx2"
      using i room True by (auto simp: data_inv_def nth_append less_Suc_eq full_req_def)
    moreover have "tx_data ?tx2 = tx_data tx @ [src]"
      unfolding tx_data_def using up True by simp
    ultimately show thesis using that [OF \<open>copy_blk alloc tx src = Inr ?tx2\<close>] by (simp add: data_frame_def)
  qed
qed

section \<open>Lemmas: copying and tagging\<close>

lemma tag_blocks_one: "s + c < 2 ^ 64 \<Longrightarrow> c < 2 ^ 32 \<Longrightarrow> tag_blocks [etag_of s c] = [s..<s + c]"
  by (simp add: tag_blocks_def etag_of_def u64_def u32_def)

lemma tag_room_nr_blocks:
  assumes "md_inv tx" "tag_room tx (Suc n)"
  shows "2 \<le> tx_md_nr_blocks tx"
  using md_etag_blks [OF assms(1)] md_nr_blocks_eq [OF assms(1)] md_invD(4) [OF assms(1)] assms(2)
  by (simp add: tag_room_def)

lemma fill_tagblk_room:
  assumes inv: "md_inv tx" and room: "tag_room tx (Suc n)"
  obtains tx' where "fill_tagblk tx start cnt = Inr tx'" "md_inv tx'" "tx_tags tx' = tx_tags tx @ [etag_of start cnt]"
    "tx_traces tx' = tx_traces tx" "md_frame tx tx'" "tx_trace tx' = tx_trace tx" "desc_same tx tx'" "tag_room tx' n"
proof -
  obtain tx' where t: "fill_tagblk tx start cnt = Inr tx'" "md_inv tx'" "tx_tags tx' = tx_tags tx @ [etag_of start cnt]"
    "tx_traces tx' = tx_traces tx" "md_frame tx tx'" "tx_trace tx' = tx_trace tx" "desc_same tx tx'"
    using fill_tagblk_inv [OF inv tag_room_nr_blocks [OF inv room]] by metis
  have "tag_room tx' n" using room t(3,7) by (simp add: tag_room_def desc_same_def)
  then show thesis using that t by blast
qed

lemma tag_room_frame: "data_frame tx tx' \<Longrightarrow> tag_room tx' n = tag_room tx n"
  using md_inv_data_frame(2) [of tx tx'] data_frameD(1) [of tx tx'] by (simp add: tag_room_def)

lemma tag_room_le: "tag_room tx n \<Longrightarrow> m \<le> n \<Longrightarrow> tag_room tx m"
  by (simp add: tag_room_def)

text \<open>What building leaves alone: everything but buffers, tags and traces.\<close>

definition tx_frame :: "journal_tx \<Rightarrow> journal_tx \<Rightarrow> bool" where
  "tx_frame tx tx' \<longleftrightarrow> tx_df tx' = tx_df tx \<and> tx_tid tx' = tx_tid tx \<and> tx_blks tx' = tx_blks tx \<and> tx_files tx' = tx_files tx \<and>
     tx_waiting tx' = tx_waiting tx \<and> tx_stages tx' = tx_stages tx \<and> tx_state tx' = tx_state tx"

lemma tx_frame_simps [simp]: "tx_frame tx tx" "md_frame tx tx' \<Longrightarrow> tx_frame tx tx'" "data_frame tx tx' \<Longrightarrow> tx_frame tx tx'"
  using md_frameD [of tx tx'] data_frameD [of tx tx'] by (simp_all add: tx_frame_def)

lemma tx_frame_trans: "tx_frame tx tx' \<Longrightarrow> tx_frame tx' tx'' \<Longrightarrow> tx_frame tx tx''"
  by (simp add: tx_frame_def)

lemma desc_same_refl [simp]: "desc_same tx tx"
  by (simp add: desc_same_def)

lemma desc_same_trans: "desc_same tx tx' \<Longrightarrow> desc_same tx' tx'' \<Longrightarrow> desc_same tx tx''"
  by (simp add: desc_same_def)

text \<open>One step of the builder: the transaction holds more blocks, with the same traces.\<close>

definition tx_grows :: "journal_tx \<Rightarrow> (baddr \<times> block) list \<Rightarrow> nat \<Rightarrow> journal_tx \<Rightarrow> bool" where
  "tx_grows tx new n tx' \<longleftrightarrow> tx_frame tx tx' \<and> desc_same tx tx' \<and> tx_traces tx' = tx_traces tx \<and> tx_trace tx' = tx_trace tx \<and>
     length (tx_tags tx') = length (tx_tags tx) + n \<and> (\<forall>ws. tx_holds tx ws \<longrightarrow> tx_holds tx' (ws @ new))"

lemma tx_grows_refl [simp]: "tx_grows tx [] 0 tx"
  by (simp add: tx_grows_def)

lemma tx_grows_trans: "tx_grows tx xs m tx' \<Longrightarrow> tx_grows tx' ys n tx'' \<Longrightarrow> tx_grows tx (xs @ ys) (m + n) tx''"
  by (auto simp: tx_grows_def intro: tx_frame_trans desc_same_trans)

lemma tx_grows_room: "tx_grows tx new m tx' \<Longrightarrow> tag_room tx (m + n) \<Longrightarrow> tag_room tx' n"
  by (simp add: tx_grows_def tag_room_def desc_same_def)

lemma tx_holdsD: "tx_holds tx ws \<Longrightarrow> md_inv tx" "tx_holds tx ws \<Longrightarrow> data_inv tx" "tx_holds tx ws \<Longrightarrow> tx_used tx = length ws"
  using length_tx_data [of tx] by (auto simp: tx_holds_def)

lemma copy_and_tag:
  assumes h: "tx_holds tx ws" and room: "tag_room tx (Suc n)" "length ws + 1 < 2 ^ 32" and alloc: "\<forall>n. alloc n \<noteq> None"
    and b: "b < 2 ^ 63"
  obtains tx' where "ebind (copy_blk alloc tx src) (\<lambda>tx. fill_tagblk tx b 1) = Inr tx'" "tx_grows tx [(b, src)] 1 tx'"
    "tag_room tx' n"
proof -
  obtain tx1 where c: "copy_blk alloc tx src = Inr tx1" "data_inv tx1" "tx_data tx1 = tx_data tx @ [src]" "data_frame tx tx1"
    using copy_blk_inv [OF tx_holdsD(2) [OF h] _ alloc] room(2) tx_holdsD(3) [OF h] by metis
  note f = md_inv_data_frame [OF c(4)]
  obtain tx' where t: "fill_tagblk tx1 b 1 = Inr tx'" "md_inv tx'" "tx_tags tx' = tx_tags tx1 @ [etag_of b 1]"
    "tx_traces tx' = tx_traces tx1" "md_frame tx1 tx'" "tx_trace tx' = tx_trace tx1" "desc_same tx1 tx'" "tag_room tx' n"
    using fill_tagblk_room [of tx1 n b 1] f(1) tx_holdsD(1) [OF h] room(1) tag_room_frame [OF c(4)] by metis
  have "tag_blocks [etag_of b 1] = [b]" using tag_blocks_one [of b 1] b by simp
  then have "tx_holds tx' (ws' @ [(b, src)])" if "tx_holds tx ws'" for ws'
    using that t(2,3) c(2,3) f data_inv_md_frame [OF t(5)] by (simp add: tx_holds_def tags_pos_def etag_of_def u32_def)
  moreover have "tx_frame tx tx'" using tx_frame_trans tx_frame_simps c(4) t(5) by blast
  moreover have "desc_same tx tx'" using t(7) data_frameD(1) [OF c(4)] by (simp add: desc_same_def)
  ultimately have "tx_grows tx [(b, src)] 1 tx'"
    using t(3,4,6) f data_frameD(5) [OF c(4)] by (simp add: tx_grows_def)
  then show thesis using that [of tx'] c(1) t(1,8) by simp
qed

end
