(* ===== verification/Ox_Jtx_File.thy ===== *)
theory Ox_Jtx_File
  imports Ox_Jtx Ox_Ird
begin

text \<open>
  The data of a file in a journal transaction: \<^verbatim>\<open>journal_file_data\<close> and \<^verbatim>\<open>copy_data_blks\<close> of
  \<^verbatim>\<open>secure_daemon/src/fs/journal.c\<close>, with the inodes of the daemon and the operations a
  file system provides.  What the journal relies on is the interface \<open>block_map\<close>; its lemmas show
  that the dirty pages of a file end up in the transaction at the blocks the file system maps them to.
\<close>

section \<open>Inodes and file system operations\<close>

text \<open>The file type is in the upper four bits of the mode.\<close>

definition S_ISREG :: "nat \<Rightarrow> bool" where
  "S_ISREG m \<longleftrightarrow> m div 4096 mod 16 = 8"

definition S_ISDIR :: "nat \<Rightarrow> bool" where
  "S_ISDIR m \<longleftrightarrow> m div 4096 mod 16 = 4"

text \<open>The bits of \<^verbatim>\<open>i_state\<close> are separate fields.  \<open>i_shm\<close> is the shared page state area,
  \<open>i_data\<close> the mapped pages, \<open>sh_isize\<close> and \<open>sh_running_tx\<close> fields of the shared header.  Fields
  by data fetcher take its number; \<open>None\<close> is the transaction id -1.\<close>

record inode =
  i_ino :: nat
  i_mode :: nat
  i_uid :: nat
  i_gid :: nat
  i_nlink :: nat
  i_blocks :: nat
  i_size :: nat
  i_deleted :: bool
  i_has_worker :: bool
  i_failed :: bool
  i_evict :: bool
  i_dirty :: bool
  i_use_journal :: bool
  i_in_jtx_dirty_list :: bool
  i_count :: nat
  i_journal_txid :: nat
  i_shm_header :: bool
  i_shm :: shm
  sh_isize :: nat
  sh_running_tx :: bool
  sh_deleted :: bool
  i_data :: "nat \<Rightarrow> block"
  i_journal_dirty :: ird_list
  i_waiting :: "nat \<Rightarrow> ird_list"
  i_waiting_nr :: "nat \<Rightarrow> nat"
  i_waiting_txid :: "nat \<Rightarrow> nat option"
  i_waiting_nr_ird_blks :: "nat \<Rightarrow> nat"
  i_stage_list :: "nat list"

record buffer_extent =
  be_iblock :: nat
  be_nr :: nat
  be_lba :: nat

text \<open>The operations of a file system that the journal calls.  \<^verbatim>\<open>get_blocks\<close> fills a buffer
  extent or fails (\<open>None\<close>); \<^verbatim>\<open>write_inode\<close> puts the inode block on the list of the
  transaction that is built, and says whether it failed.\<close>

record 'fs fs_ops =
  get_blocks :: "inode \<Rightarrow> nat \<Rightarrow> nat \<Rightarrow> 'fs \<Rightarrow> ox_error + (buffer_extent option \<times> 'fs)"
  write_inode :: "inode \<Rightarrow> journal_tx \<Rightarrow> 'fs \<Rightarrow> ox_error + (bool \<times> inode \<times> journal_tx \<times> 'fs)"

definition iget :: "inode \<Rightarrow> inode" where
  "iget inode = inode\<lparr>i_count := add32 (i_count inode) 1\<rparr>"

definition iput :: "inode \<Rightarrow> inode" where
  "iput inode =
     (let prev = i_count inode;
          inode = inode\<lparr>i_count := sub32 prev 1\<rparr>
      in if prev = 1 then inode\<lparr>i_evict := True\<rparr> else inode)"

section \<open>File data\<close>

text \<open>\<^verbatim>\<open>copy_data_blks\<close>: each page is copied and its lock bit cleared.\<close>

definition copy_data_blk ::
  "(nat \<Rightarrow> (nat \<Rightarrow> block) option) \<Rightarrow> nat \<Rightarrow> (nat \<Rightarrow> block) \<Rightarrow> nat \<Rightarrow> journal_tx \<times> shm \<Rightarrow> ox_error + (journal_tx \<times> shm)" where
  "copy_data_blk alloc maxfs data p s =
     (case s of (tx, m) \<Rightarrow>
        case tx_cur tx of
          None \<Rightarrow> Inl Null_deref
        | Some c \<Rightarrow>
            let m = unlock_page_bit maxfs m p
            in ebind (next_buffer alloc (tx\<lparr>tx_cur := Some (c + 1), tx_used := add32 (tx_used tx) 1,
                   tx_nr_blocks := sub32 (tx_nr_blocks tx) 1, tx_buf := (tx_buf tx)(c := data p)\<rparr>))
                 (\<lambda>tx. Inr (tx, m)))"

definition copy_data_blks ::
  "(nat \<Rightarrow> (nat \<Rightarrow> block) option) \<Rightarrow> nat \<Rightarrow> (nat \<Rightarrow> block) \<Rightarrow> nat \<Rightarrow> nat \<Rightarrow> journal_tx \<times> shm \<Rightarrow> ox_error + (journal_tx \<times> shm)" where
  "copy_data_blks alloc maxfs data start cnt s = foldE (copy_data_blk alloc maxfs data) [start..<start + cnt] s"

text \<open>A range is split at the end of each buffer.  With no buffer the loop never ends.\<close>

function copy_range ::
  "(nat \<Rightarrow> (nat \<Rightarrow> block) option) \<Rightarrow> nat \<Rightarrow> (nat \<Rightarrow> block) \<Rightarrow> nat \<Rightarrow> nat \<Rightarrow> nat \<Rightarrow> journal_tx \<times> shm \<Rightarrow> ox_error + (journal_tx \<times> shm)" where
  "copy_range alloc maxfs data start cnt tmp s =
     (let nr = tx_nr_blocks (fst s)
      in if cnt - tmp > nr
         then if nr = 0 then Inl Blocked
              else ebind (copy_data_blks alloc maxfs data (start + tmp) nr s)
                     (\<lambda>s. copy_range alloc maxfs data start cnt (tmp + nr) s)
         else if cnt > tmp then copy_data_blks alloc maxfs data (start + tmp) (cnt - tmp) s
         else Inr s)"
  by pat_completeness auto
termination
  by (relation "measure (\<lambda>(alloc, maxfs, data, start, cnt, tmp, s). cnt - tmp)") auto

declare copy_range.simps [simp del]

text \<open>The tags of a range: one per extent.  \<open>None\<close> is a loop that does not end, which happens
  when the extent does not reach the block; the result says whether \<^verbatim>\<open>get_blocks\<close> failed.\<close>

definition fill_extent :: "buffer_extent \<Rightarrow> nat \<Rightarrow> nat \<Rightarrow> journal_tx \<Rightarrow> ox_error + (journal_tx \<times> nat \<times> nat)" where
  "fill_extent be start cnt tx =
     (let e = add64 (be_iblock be) (be_nr be);
          lba = sub64 (add64 (be_lba be) start) (be_iblock be)
      in if add64 start cnt \<le> e then ebind (fill_tagblk tx lba (u32 cnt)) (\<lambda>tx. Inr (tx, start, 0))
         else if start < e
         then let tmp = sub64 e start
              in ebind (fill_tagblk tx lba (u32 tmp)) (\<lambda>tx. Inr (tx, add64 start tmp, sub64 cnt tmp))
         else Inr (tx, start, cnt))"

partial_function (option) fill_tags ::
  "'fs fs_ops \<Rightarrow> inode \<Rightarrow> buffer_extent \<Rightarrow> nat \<Rightarrow> nat \<Rightarrow> journal_tx \<Rightarrow> 'fs \<Rightarrow>
   (ox_error + (bool \<times> journal_tx \<times> 'fs)) option" where
  "fill_tags ops inode be start cnt tx fs =
     (case fill_extent be start cnt tx of
        Inl e \<Rightarrow> Some (Inl e)
      | Inr r \<Rightarrow>
          if snd (snd r) = 0 then Some (Inr (False, fst r, fs))
          else if snd (snd r) \<ge> 2 ^ 63 then Some (Inl Assertion)
          else case get_blocks ops inode (fst (snd r)) 0 fs of
                 Inl e \<Rightarrow> Some (Inl e)
               | Inr q \<Rightarrow>
                   (case fst q of
                      None \<Rightarrow> Some (Inr (True, fst r, snd q))
                    | Some be \<Rightarrow> fill_tags ops inode be (fst (snd r)) (snd (snd r)) (fst r) (snd q)))"

type_synonym 'fs file_state = "journal_tx \<times> shm \<times> 'fs"

definition journal_range ::
  "(nat \<Rightarrow> (nat \<Rightarrow> block) option) \<Rightarrow> nat \<Rightarrow> 'fs fs_ops \<Rightarrow> inode \<Rightarrow> nat \<times> nat \<Rightarrow> 'fs file_state \<Rightarrow> ox_error + (bool \<times> 'fs file_state)" where
  "journal_range alloc maxfs ops inode r s =
     (case (r, s) of ((start, cnt), (tx, m, fs)) \<Rightarrow>
        if cnt = 0 then Inr (False, s)
        else ebind (copy_range alloc maxfs (i_data inode) start cnt 0 (tx, m)) (\<lambda>(tx, m).
          ebind (get_blocks ops inode start 0 fs) (\<lambda>(be, fs).
            case be of
              None \<Rightarrow> Inr (True, tx, m, fs)
            | Some be \<Rightarrow>
                (case fill_tags ops inode be start cnt tx fs of
                   None \<Rightarrow> Inl Blocked
                 | Some (Inl e) \<Rightarrow> Inl e
                 | Some (Inr (failed, tx, fs)) \<Rightarrow> Inr (failed, tx, m, fs)))))"

text \<open>The entries of a list node and the nodes of the list.  An entry that is done is cleared; a
  failed \<^verbatim>\<open>get_blocks\<close> ends everything.  A node that is done is emptied, and the next one
  follows only if it has entries.\<close>

primrec journal_ranges ::
  "(nat \<Rightarrow> (nat \<Rightarrow> block) option) \<Rightarrow> nat \<Rightarrow> 'fs fs_ops \<Rightarrow> inode \<Rightarrow> (nat \<times> nat) list \<Rightarrow> 'fs file_state \<Rightarrow>
   ox_error + (bool \<times> (nat \<times> nat) list \<times> 'fs file_state)" where
  "journal_ranges alloc maxfs ops inode [] s = Inr (False, [], s)"
| "journal_ranges alloc maxfs ops inode (r # rs) s =
     ebind (journal_range alloc maxfs ops inode r s) (\<lambda>(failed, s).
       if failed then Inr (True, r # rs, s)
       else ebind (journal_ranges alloc maxfs ops inode rs s) (\<lambda>(failed, rs, s).
              Inr (failed, (if snd r = 0 then r else (0, 0)) # rs, s)))"

primrec journal_irds ::
  "(nat \<Rightarrow> (nat \<Rightarrow> block) option) \<Rightarrow> nat \<Rightarrow> 'fs fs_ops \<Rightarrow> inode \<Rightarrow> inode_range_dirty list \<Rightarrow> 'fs file_state \<Rightarrow>
   ox_error + (inode_range_dirty list \<times> 'fs file_state)" where
  "journal_irds alloc maxfs ops inode [] s = Inl Null_deref"
| "journal_irds alloc maxfs ops inode (ird # irds) s =
     ebind (journal_ranges alloc maxfs ops inode (dirty_pages ird) s) (\<lambda>(failed, ents, s).
       if failed then Inr (ird\<lparr>dirty_pages := ents\<rparr> # irds, s)
       else let ird = ird\<lparr>dirty_pages := []\<rparr>
            in if irds = [] \<or> dirty_pages (hd irds) = [] then Inr (ird # irds, s)
               else ebind (journal_irds alloc maxfs ops inode irds s) (\<lambda>(irds, s). Inr (ird # irds, s)))"

definition journal_file_data ::
  "(nat \<Rightarrow> (nat \<Rightarrow> block) option) \<Rightarrow> nat \<Rightarrow> 'fs fs_ops \<Rightarrow> journal_tx \<Rightarrow> inode \<Rightarrow> 'fs \<Rightarrow> ox_error + (journal_tx \<times> inode \<times> 'fs)" where
  "journal_file_data alloc maxfs ops tx inode fs =
     ebind (journal_irds alloc maxfs ops inode (il_nodes (i_journal_dirty inode)) (tx, i_shm inode, fs)) (\<lambda>(irds, tx, m, fs).
       Inr (tx, inode\<lparr>i_journal_dirty := (i_journal_dirty inode)\<lparr>il_nodes := irds\<rparr>, i_shm := m\<rparr>, fs))"

section \<open>Lemmas: copying pages\<close>

lemma copy_data_blk_eq:
  assumes "data_inv tx"
  shows "copy_data_blk alloc maxfs data p (tx, m) =
    ebind (copy_blk alloc tx (data p)) (\<lambda>tx. Inr (tx, unlock_page_bit maxfs m p))"
  using assms by (simp add: copy_data_blk_def copy_blk_def data_inv_def Let_def)

definition unlock_pages :: "nat \<Rightarrow> nat list \<Rightarrow> shm \<Rightarrow> shm" where
  "unlock_pages maxfs ps m = fold (\<lambda>p m. unlock_page_bit maxfs m p) ps m"

lemma copy_data_blks_inv:
  assumes inv: "data_inv tx" and room: "tx_used tx + cnt < 2 ^ 32" and alloc: "\<forall>n. alloc n \<noteq> None"
  obtains tx' where "copy_data_blks alloc maxfs data start cnt (tx, m) = Inr (tx', unlock_pages maxfs [start..<start + cnt] m)"
    "data_inv tx'" "tx_data tx' = tx_data tx @ map data [start..<start + cnt]" "data_frame tx tx'"
proof -
  define I where "I ps s \<longleftrightarrow> (\<exists>tx'. s = (tx', unlock_pages maxfs ps m) \<and> data_inv tx' \<and>
    tx_data tx' = tx_data tx @ map data ps \<and> data_frame tx tx')" for ps s
  have "\<exists>s'. foldE (copy_data_blk alloc maxfs data) [start..<start + cnt] (tx, m) = Inr s' \<and> I [start..<start + cnt] s'"
  proof (rule foldE_inv)
    show "I [] (tx, m)" using inv by (simp add: I_def unlock_pages_def)
  next
    fix ys x zs s assume e: "[start..<start + cnt] = ys @ x # zs" and "I ys s"
    then obtain tx1 where t: "s = (tx1, unlock_pages maxfs ys m)" "data_inv tx1" "tx_data tx1 = tx_data tx @ map data ys"
      "data_frame tx tx1" by (auto simp: I_def)
    have "length ys < cnt" using arg_cong [OF e, of length] by simp
    then have "tx_used tx1 + 1 < 2 ^ 32"
      using length_tx_data [OF t(2)] length_tx_data [OF inv] t(3) room by simp
    then obtain tx2 where c: "copy_blk alloc tx1 (data x) = Inr tx2" "data_inv tx2" "tx_data tx2 = tx_data tx1 @ [data x]" "data_frame tx1 tx2"
      using copy_blk_inv [OF t(2) _ alloc] by metis
    show "\<exists>s'. copy_data_blk alloc maxfs data x s = Inr s' \<and> I (ys @ [x]) s'"
      using copy_data_blk_eq [OF t(2)] c t data_frame_trans [OF t(4) c(4)]
      by (auto simp: I_def unlock_pages_def)
  qed
  then show thesis using that by (auto simp: I_def copy_data_blks_def)
qed

lemma copy_range_inv:
  assumes "data_inv tx" "tx_used tx + (cnt - tmp) < 2 ^ 32" "\<forall>n. alloc n \<noteq> None" "tmp \<le> cnt"
  shows "\<exists>tx'. copy_range alloc maxfs data start cnt tmp (tx, m) = Inr (tx', unlock_pages maxfs [start + tmp..<start + cnt] m) \<and>
    data_inv tx' \<and> tx_data tx' = tx_data tx @ map data [start + tmp..<start + cnt] \<and> data_frame tx tx'"
  using assms
proof (induction "cnt - tmp" arbitrary: tmp tx m rule: less_induct)
  case less
  let ?nr = "tx_nr_blocks tx"
  have nr: "0 < ?nr" using less.prems(1) by (simp add: data_inv_def)
  show ?case
  proof (cases "cnt - tmp > ?nr")
    case True
    have room: "tx_used tx + ?nr < 2 ^ 32" using less.prems(2) True by simp
    obtain tx1 where c: "copy_data_blks alloc maxfs data (start + tmp) ?nr (tx, m) =
        Inr (tx1, unlock_pages maxfs [start + tmp..<start + tmp + ?nr] m)"
      "data_inv tx1" "tx_data tx1 = tx_data tx @ map data [start + tmp..<start + tmp + ?nr]" "data_frame tx tx1"
      using copy_data_blks_inv [OF less.prems(1) room less.prems(3)] by blast
    have u: "tx_used tx1 = tx_used tx + ?nr"
      using length_tx_data [OF c(2)] length_tx_data [OF less.prems(1)] c(3) by simp
    obtain tx' where r: "copy_range alloc maxfs data start cnt (tmp + ?nr) (tx1, unlock_pages maxfs [start + tmp..<start + tmp + ?nr] m) =
        Inr (tx', unlock_pages maxfs [start + (tmp + ?nr)..<start + cnt] (unlock_pages maxfs [start + tmp..<start + tmp + ?nr] m))"
      "data_inv tx'" "tx_data tx' = tx_data tx1 @ map data [start + (tmp + ?nr)..<start + cnt]" "data_frame tx1 tx'"
      using less.hyps [of "tmp + ?nr" tx1] True nr c(2) u less.prems(2,3) by fastforce
    have sp: "[start + tmp..<start + cnt] = [start + tmp..<start + tmp + ?nr] @ [start + (tmp + ?nr)..<start + cnt]"
      using True upt_add_eq_append [of "start + tmp" "start + tmp + ?nr" "cnt - tmp - ?nr"] by (simp add: add.assoc)
    show ?thesis
      using True nr c r data_frame_trans [OF c(4) r(4)] unfolding sp
      by (subst copy_range.simps) (simp add: Let_def unlock_pages_def)
  next
    case False
    show ?thesis
    proof (cases "cnt > tmp")
      case True
      obtain tx1 where c: "copy_data_blks alloc maxfs data (start + tmp) (cnt - tmp) (tx, m) =
          Inr (tx1, unlock_pages maxfs [start + tmp..<start + tmp + (cnt - tmp)] m)"
        "data_inv tx1" "tx_data tx1 = tx_data tx @ map data [start + tmp..<start + tmp + (cnt - tmp)]" "data_frame tx tx1"
        using copy_data_blks_inv [OF less.prems(1,2,3)] by blast
      then show ?thesis using True False by (subst copy_range.simps) (simp add: Let_def)
    qed (use False less.prems in \<open>subst copy_range.simps, simp add: Let_def unlock_pages_def\<close>)
  qed
qed

section \<open>The block map of a file system\<close>

definition ext_for :: "(nat \<rightharpoonup> nat) \<Rightarrow> nat \<Rightarrow> buffer_extent \<Rightarrow> bool" where
  "ext_for f p be \<longleftrightarrow> be_iblock be \<le> p \<and> p < be_iblock be + be_nr be \<and> be_iblock be + be_nr be < 2 ^ 63 \<and>
     be_lba be + be_nr be < 2 ^ 63 \<and> be_nr be < 2 ^ 32 \<and>
     (\<forall>q. be_iblock be \<le> q \<and> q < be_iblock be + be_nr be \<longrightarrow> f q = Some (be_lba be + (q - be_iblock be)))"

lemma fill_extent_tag:
  assumes inv: "md_inv tx" and room: "tag_room tx (Suc n)" and be: "ext_for f start be"
    and cnt: "0 < cnt" "start + cnt < 2 ^ 63"
  obtains tx' k where "fill_extent be start cnt tx = Inr (tx', if k = cnt then start else start + k, cnt - k)" "0 < k" "k \<le> cnt"
    "md_inv tx'" "tag_blocks (tx_tags tx') = tag_blocks (tx_tags tx) @ map (the \<circ> f) [start..<start + k]"
    "length (tx_tags tx') = Suc (length (tx_tags tx))" "tx_traces tx' = tx_traces tx" "md_frame tx tx'"
    "tx_trace tx' = tx_trace tx" "desc_same tx tx'" "tag_room tx' n" "tags_pos tx \<longrightarrow> tags_pos tx'"
proof -
  let ?e = "be_iblock be + be_nr be"
  define k where "k = min cnt (?e - start)"
  note b = be [unfolded ext_for_def]
  have k: "0 < k" "k \<le> cnt" "k < 2 ^ 32" "start + k \<le> ?e" using b cnt by (auto simp: k_def)
  have lba: "sub64 (add64 (be_lba be) start) (be_iblock be) = be_lba be + (start - be_iblock be)"
    using b cnt by (simp add: c_arith)
  have ar: "add64 (be_iblock be) (be_nr be) = ?e" "add64 start cnt = start + cnt" "sub64 ?e start = ?e - start"
    using b cnt by (simp_all add: c_arith)
  obtain tx' where t: "fill_tagblk tx (be_lba be + (start - be_iblock be)) k = Inr tx'" "md_inv tx'"
    "tx_tags tx' = tx_tags tx @ [etag_of (be_lba be + (start - be_iblock be)) k]"
    "tx_traces tx' = tx_traces tx" "md_frame tx tx'" "tx_trace tx' = tx_trace tx" "desc_same tx tx'" "tag_room tx' n"
    using fill_tagblk_room [OF inv room] by metis
  have "be_lba be + (start - be_iblock be) + k \<le> be_lba be + be_nr be" using b k(4) by simp
  then have lb: "be_lba be + (start - be_iblock be) + k < 2 ^ 64" using b by simp
  have "map (the \<circ> f) [start..<start + k] = [be_lba be + (start - be_iblock be)..<be_lba be + (start - be_iblock be) + k]"
    using b k by (intro nth_equalityI) auto
  then have tb: "tag_blocks (tx_tags tx') = tag_blocks (tx_tags tx) @ map (the \<circ> f) [start..<start + k]"
    unfolding t(3) tag_blocks_append using lb k(3) by (simp add: tag_blocks_one)
  have "fill_extent be start cnt tx = Inr (tx', if k = cnt then start else start + k, cnt - k)"
  proof (cases "start + cnt \<le> ?e")
    case True
    then have kc: "k = cnt" by (simp add: k_def)
    then have "u32 cnt = k" using k(3) by (simp add: u32_def)
    then show ?thesis using True t(1) kc by (simp add: fill_extent_def Let_def ar lba)
  next
    case False
    then have ke: "k = ?e - start" "k \<noteq> cnt" "start < ?e" using b by (auto simp: k_def)
    have "u32 (?e - start) = k" "add64 start (?e - start) = start + k" "sub64 cnt (?e - start) = cnt - k"
      using k cnt ke by (simp_all add: c_arith u32_def)
    then show ?thesis using False t(1) ke(2,3) by (simp add: fill_extent_def Let_def ar lba)
  qed
  then show thesis using that [of tx' k] k t(2,4-8) tb by (simp add: t(3) tags_pos_def etag_of_def u32_def)
qed

lemma fill_tags_done:
  "fill_extent be start cnt tx = Inr (tx', s, 0) \<Longrightarrow> fill_tags ops inode be start cnt tx fs = Some (Inr (False, tx', fs))"
  by (subst fill_tags.simps) simp

lemma fill_tags_next:
  "fill_extent be start cnt tx = Inr (tx', s, c) \<Longrightarrow> 0 < c \<Longrightarrow> c < 2 ^ 63 \<Longrightarrow>
   get_blocks ops inode s 0 fs = Inr (Some be', fs') \<Longrightarrow>
   fill_tags ops inode be start cnt tx fs = fill_tags ops inode be' s c tx' fs'"
  by (subst fill_tags.simps) simp

text \<open>The pages below a limit that have a block.\<close>

definition mapped_below :: "nat \<Rightarrow> (nat \<rightharpoonup> nat) \<Rightarrow> nat \<Rightarrow> bool" where
  "mapped_below lim f p \<longleftrightarrow> p < lim \<and> f p \<noteq> None"

text \<open>What the journal relies on: \<^verbatim>\<open>get_blocks\<close> without allocation finds the extent of a block
  that is mapped, and changes neither the map nor what \<open>keeps\<close> records.  \<open>blk\<close> is the map of the
  blocks of a file.\<close>

locale block_map =
  fixes gb :: "inode \<Rightarrow> nat \<Rightarrow> nat \<Rightarrow> 'fs \<Rightarrow> ox_error + (buffer_extent option \<times> 'fs)"
    and blk :: "inode \<Rightarrow> 'fs \<Rightarrow> nat \<rightharpoonup> nat"
    and good :: "inode \<Rightarrow> 'fs \<Rightarrow> bool"
    and keeps :: "'fs \<Rightarrow> 'fs \<Rightarrow> bool"
    and lim :: nat
  assumes gb_read: "good inode fs \<Longrightarrow> mapped_below lim (blk inode fs) p \<Longrightarrow>
      \<exists>be fs'. gb inode p 0 fs = Inr (Some be, fs') \<and> good inode fs' \<and> keeps fs fs' \<and> blk inode fs' = blk inode fs \<and>
        ext_for (blk inode fs) p be"
    and keeps_refl: "keeps fs fs"
    and keeps_trans: "keeps fs fs' \<Longrightarrow> keeps fs' fs'' \<Longrightarrow> keeps fs fs''"
begin

lemma fill_tags_inv:
  assumes "good inode fs" "\<forall>p\<in>{start..<start + cnt}. mapped_below lim (blk inode fs) p" "ext_for (blk inode fs) start be" "gb = get_blocks ops"
    "md_inv tx" "tag_room tx cnt" "0 < cnt" "start + cnt < 2 ^ 63"
  shows "\<exists>tx' fs'. fill_tags ops inode be start cnt tx fs = Some (Inr (False, tx', fs')) \<and>
    good inode fs' \<and> keeps fs fs' \<and> blk inode fs' = blk inode fs \<and> md_inv tx' \<and>
    tag_blocks (tx_tags tx') = tag_blocks (tx_tags tx) @ map (the \<circ> blk inode fs) [start..<start + cnt] \<and>
    length (tx_tags tx) \<le> length (tx_tags tx') \<and> length (tx_tags tx') \<le> length (tx_tags tx) + cnt \<and>
    tx_traces tx' = tx_traces tx \<and> md_frame tx tx' \<and> tx_trace tx' = tx_trace tx \<and> desc_same tx tx' \<and>
    (tags_pos tx \<longrightarrow> tags_pos tx')"
  using assms
proof (induction cnt arbitrary: start be tx fs rule: less_induct)
  case (less cnt)
  obtain n where n: "cnt = Suc n" using less.prems(7) by (cases cnt) auto
  obtain tx1 k where t: "fill_extent be start cnt tx = Inr (tx1, if k = cnt then start else start + k, cnt - k)" "0 < k" "k \<le> cnt"
    "md_inv tx1" "tag_blocks (tx_tags tx1) = tag_blocks (tx_tags tx) @ map (the \<circ> blk inode fs) [start..<start + k]"
    "length (tx_tags tx1) = Suc (length (tx_tags tx))" "tx_traces tx1 = tx_traces tx" "md_frame tx tx1"
    "tx_trace tx1 = tx_trace tx" "desc_same tx tx1" "tag_room tx1 n" "tags_pos tx \<longrightarrow> tags_pos tx1"
    using fill_extent_tag [OF less.prems(5) less.prems(6) [unfolded n] less.prems(3,7,8)] by metis
  show ?case
  proof (cases "k = cnt")
    case True
    then have "fill_tags ops inode be start cnt tx fs = Some (Inr (False, tx1, fs))"
      using t(1) by (intro fill_tags_done) simp
    moreover have "length (tx_tags tx) \<le> length (tx_tags tx1)" "length (tx_tags tx1) \<le> length (tx_tags tx) + cnt"
      using t(6) less.prems(7) by simp_all
    ultimately show ?thesis
      using t(4,5,7-10,12) True less.prems(1) keeps_refl by blast
  next
    case False
    have m: "mapped_below lim (blk inode fs) (start + k)" using less.prems(2) False t(2,3) by auto
    obtain be' fs1 where g: "gb inode (start + k) 0 fs = Inr (Some be', fs1)" "good inode fs1" "keeps fs fs1"
      "blk inode fs1 = blk inode fs" "ext_for (blk inode fs) (start + k) be'"
      using gb_read [OF less.prems(1) m] by blast
    have "\<exists>tx' fs'. fill_tags ops inode be' (start + k) (cnt - k) tx1 fs1 = Some (Inr (False, tx', fs')) \<and>
      good inode fs' \<and> keeps fs1 fs' \<and> blk inode fs' = blk inode fs1 \<and> md_inv tx' \<and>
      tag_blocks (tx_tags tx') = tag_blocks (tx_tags tx1) @ map (the \<circ> blk inode fs1) [start + k..<start + k + (cnt - k)] \<and>
      length (tx_tags tx1) \<le> length (tx_tags tx') \<and> length (tx_tags tx') \<le> length (tx_tags tx1) + (cnt - k) \<and>
      tx_traces tx' = tx_traces tx1 \<and> md_frame tx1 tx' \<and> tx_trace tx' = tx_trace tx1 \<and> desc_same tx1 tx' \<and>
      (tags_pos tx1 \<longrightarrow> tags_pos tx')"
      using less.prems(2,4,8) t(2-4,11) g(2,4,5) False n
      by (intro less.IH) (auto intro: tag_room_le)
    then obtain tx' fs' where r: "fill_tags ops inode be' (start + k) (cnt - k) tx1 fs1 = Some (Inr (False, tx', fs'))"
      "good inode fs'" "keeps fs1 fs'" "blk inode fs' = blk inode fs1" "md_inv tx'"
      "tag_blocks (tx_tags tx') = tag_blocks (tx_tags tx1) @ map (the \<circ> blk inode fs1) [start + k..<start + k + (cnt - k)]"
      "length (tx_tags tx1) \<le> length (tx_tags tx')" "length (tx_tags tx') \<le> length (tx_tags tx1) + (cnt - k)"
      "tx_traces tx' = tx_traces tx1" "md_frame tx1 tx'" "tx_trace tx' = tx_trace tx1" "desc_same tx1 tx'"
      "tags_pos tx1 \<longrightarrow> tags_pos tx'" by blast
    have sp: "[start..<start + cnt] = [start..<start + k] @ [start + k..<start + k + (cnt - k)]"
      using t(2,3) upt_add_eq_append [of start "start + k" "cnt - k"] by simp
    have "fill_extent be start cnt tx = Inr (tx1, start + k, cnt - k)" using t(1) False by simp
    then have "fill_tags ops inode be start cnt tx fs = Some (Inr (False, tx', fs'))"
      using fill_tags_next [of be start cnt tx tx1 "start + k" "cnt - k" ops inode fs be' fs1]
        False t(3) less.prems(8) g(1) [unfolded less.prems(4)] r(1) by simp
    moreover have "tag_blocks (tx_tags tx') = tag_blocks (tx_tags tx) @ map (the \<circ> blk inode fs) [start..<start + cnt]"
      unfolding sp using r(6) t(5) g(4) by simp
    moreover have "length (tx_tags tx) \<le> length (tx_tags tx')" "length (tx_tags tx') \<le> length (tx_tags tx) + cnt"
      using r(7,8) t(2,3,6) by simp_all
    moreover have "keeps fs fs'" "md_frame tx tx'" "desc_same tx tx'"
      using keeps_trans [OF g(3) r(3)] md_frame_trans [OF t(8) r(10)] desc_same_trans [OF t(10) r(12)] .
    ultimately show ?thesis using r(2,4,5,9,11,13) g(4) t(7,9,12) by simp
  qed
qed

end

section \<open>Lemmas: the dirty pages of a file\<close>

text \<open>The pages \<open>ps\<close> of a file at their blocks.\<close>

definition page_writes :: "(nat \<rightharpoonup> nat) \<Rightarrow> (nat \<Rightarrow> block) \<Rightarrow> nat list \<Rightarrow> (baddr \<times> block) list" where
  "page_writes f data ps = map (\<lambda>p. (the (f p), data p)) ps"

text \<open>No node that has entries comes after an empty one.\<close>

fun ird_filled :: "inode_range_dirty list \<Rightarrow> bool" where
  "ird_filled (x # y # zs) = ((dirty_pages y = [] \<longrightarrow> ird_ranges (y # zs) = []) \<and> ird_filled (y # zs))"
| "ird_filled xs = True"

lemma ird_chain_filled: "ird_chain irds \<Longrightarrow> ird_filled irds"
proof (induction irds rule: ird_filled.induct)
  case (1 x y zs)
  have "ird_chain (y # zs)" using 1(2) by (auto simp: ird_chain_def split: if_splits)
  moreover have "ird_ranges (y # zs) = []" if "dirty_pages y = []"
    using 1(2) that by (cases zs) (auto simp: ird_chain_def ird_ranges_def RANGE_DIRTY_ENT_MAX_def)
  ultimately show ?case using 1(1) by simp
qed simp_all

lemma tx_grows_holds: "tx_grows tx new n tx' \<Longrightarrow> tx_holds tx ws \<Longrightarrow> tx_holds tx' (ws @ new)"
  by (simp add: tx_grows_def)

context block_map
begin

lemma journal_range_inv:
  assumes ops: "gb = get_blocks ops" and h: "tx_holds tx ws" and alloc: "\<forall>n. alloc n \<noteq> None"
    and room: "tag_room tx cnt" "length ws + cnt < 2 ^ 32" and r: "start + cnt < 2 ^ 63"
    and fs: "good inode fs" "\<forall>p\<in>{start..<start + cnt}. mapped_below lim (blk inode fs) p"
  shows "\<exists>tx' fs' n. journal_range alloc maxfs ops inode (start, cnt) (tx, m, fs) =
      Inr (False, tx', unlock_pages maxfs [start..<start + cnt] m, fs') \<and> n \<le> cnt \<and>
    tx_grows tx (page_writes (blk inode fs) (i_data inode) [start..<start + cnt]) n tx' \<and>
    good inode fs' \<and> keeps fs fs' \<and> blk inode fs' = blk inode fs"
proof (cases "cnt = 0")
  case True
  then show ?thesis
    using fs keeps_refl by (auto simp: journal_range_def unlock_pages_def page_writes_def intro!: exI [of _ 0])
next
  case False
  have di: "data_inv tx" "md_inv tx" using tx_holdsD [OF h] by simp_all
  have "tx_used tx + (cnt - 0) < 2 ^ 32" using room(2) tx_holdsD(3) [OF h] by simp
  from copy_range_inv [OF di(1) this alloc, of maxfs "i_data inode" start m] obtain tx1 where
    c: "copy_range alloc maxfs (i_data inode) start cnt 0 (tx, m) = Inr (tx1, unlock_pages maxfs [start..<start + cnt] m)"
    "data_inv tx1" "tx_data tx1 = tx_data tx @ map (i_data inode) [start..<start + cnt]" "data_frame tx tx1"
    by auto
  note f = md_inv_data_frame [OF c(4)]
  have "mapped_below lim (blk inode fs) start" using fs(2) False by simp
  from gb_read [OF fs(1) this] obtain be fs1 where g: "gb inode start 0 fs = Inr (Some be, fs1)" "good inode fs1" "keeps fs fs1"
    "blk inode fs1 = blk inode fs" "ext_for (blk inode fs) start be" by blast
  have "\<forall>p\<in>{start..<start + cnt}. mapped_below lim (blk inode fs1) p" "ext_for (blk inode fs1) start be" using fs(2) g(4,5) by simp_all
  from fill_tags_inv [OF g(2) this ops _ _ _ r, of tx1] obtain tx' fs' where
    t: "fill_tags ops inode be start cnt tx1 fs1 = Some (Inr (False, tx', fs'))"
    "good inode fs'" "keeps fs1 fs'" "blk inode fs' = blk inode fs1" "md_inv tx'"
    "tag_blocks (tx_tags tx') = tag_blocks (tx_tags tx1) @ map (the \<circ> blk inode fs1) [start..<start + cnt]"
    "length (tx_tags tx1) \<le> length (tx_tags tx')" "length (tx_tags tx') \<le> length (tx_tags tx1) + cnt"
    "tx_traces tx' = tx_traces tx1" "md_frame tx1 tx'" "tx_trace tx' = tx_trace tx1" "desc_same tx1 tx'" "tags_pos tx1 \<longrightarrow> tags_pos tx'"
    using f(1) di(2) room(1) tag_room_frame [OF c(4)] False by auto
  let ?new = "page_writes (blk inode fs) (i_data inode) [start..<start + cnt]"
  note d = data_inv_md_frame [OF t(10)]
  have "tx_holds tx' (ws' @ ?new)" if "tx_holds tx ws'" for ws'
    using that t(5,6,13) c(2,3) f d g(4) by (simp add: tx_holds_def page_writes_def comp_def tags_pos_def)
  moreover have "tx_frame tx tx'" using tx_frame_trans tx_frame_simps c(4) t(10) by blast
  moreover have "desc_same tx tx'" using t(12) data_frameD(1) [OF c(4)] by (simp add: desc_same_def)
  ultimately have "tx_grows tx ?new (length (tx_tags tx') - length (tx_tags tx)) tx'"
    using t(7,9,11) f data_frameD(5) [OF c(4)] by (simp add: tx_grows_def)
  moreover have "length (tx_tags tx') - length (tx_tags tx) \<le> cnt" using t(8) f(2) by simp
  moreover have "journal_range alloc maxfs ops inode (start, cnt) (tx, m, fs) =
      Inr (False, tx', unlock_pages maxfs [start..<start + cnt] m, fs')"
    using False c(1) g(1) t(1) ops by (simp add: journal_range_def)
  moreover have "good inode fs' \<and> keeps fs fs' \<and> blk inode fs' = blk inode fs"
    using t(2,4) g(4) keeps_trans [OF g(3) t(3)] by simp
  ultimately show ?thesis by blast
qed

lemma journal_ranges_inv:
  assumes ops: "gb = get_blocks ops" and alloc: "\<forall>n. alloc n \<noteq> None"
    and "tx_holds tx ws" "tag_room tx (length (range_pages rs))" "length ws + length (range_pages rs) < 2 ^ 32"
    and "\<forall>(start, cnt)\<in>set rs. start + cnt < 2 ^ 63" "good inode fs" "\<forall>p\<in>set (range_pages rs). mapped_below lim (blk inode fs) p"
  shows "\<exists>tx' fs' n rs'. journal_ranges alloc maxfs ops inode rs (tx, m, fs) =
      Inr (False, rs', tx', unlock_pages maxfs (range_pages rs) m, fs') \<and> n \<le> length (range_pages rs) \<and>
    tx_grows tx (page_writes (blk inode fs) (i_data inode) (range_pages rs)) n tx' \<and>
    good inode fs' \<and> keeps fs fs' \<and> blk inode fs' = blk inode fs"
  using assms(3-)
proof (induction rs arbitrary: tx ws m fs)
  case Nil
  then show ?case
    using keeps_refl by (auto simp: range_pages_def unlock_pages_def page_writes_def intro!: exI [of _ 0])
next
  case (Cons r rs)
  obtain start cnt where r: "r = (start, cnt)" by fastforce
  have rp: "range_pages (r # rs) = [start..<start + cnt] @ range_pages rs" by (simp add: r range_pages_def)
  have len: "length (range_pages (r # rs)) = cnt + length (range_pages rs)" by (simp add: rp)
  have "tag_room tx cnt" "length ws + cnt < 2 ^ 32" "start + cnt < 2 ^ 63" "\<forall>p\<in>{start..<start + cnt}. mapped_below lim (blk inode fs) p"
    using Cons.prems(2-4,6) len by (auto simp: r rp intro: tag_room_le)
  from journal_range_inv [OF ops Cons.prems(1) alloc this(1-3) Cons.prems(5) this(4), of maxfs m]
  obtain tx1 fs1 n1 where j: "journal_range alloc maxfs ops inode r (tx, m, fs) = Inr (False, tx1, unlock_pages maxfs [start..<start + cnt] m, fs1)"
    "n1 \<le> cnt" "tx_grows tx (page_writes (blk inode fs) (i_data inode) [start..<start + cnt]) n1 tx1"
    "good inode fs1" "keeps fs fs1" "blk inode fs1 = blk inode fs" by (auto simp: r)
  let ?ws = "ws @ page_writes (blk inode fs) (i_data inode) [start..<start + cnt]"
  have h: "tx_holds tx1 ?ws" by (rule tx_grows_holds [OF j(3) Cons.prems(1)])
  have "tag_room tx1 (length (range_pages rs))"
    using j(2) Cons.prems(2) len by (intro tx_grows_room [OF j(3)]) (auto intro: tag_room_le)
  moreover have "length ?ws + length (range_pages rs) < 2 ^ 32" using Cons.prems(3) len by (simp add: page_writes_def)
  ultimately have "\<exists>tx' fs' n rs'. journal_ranges alloc maxfs ops inode rs (tx1, unlock_pages maxfs [start..<start + cnt] m, fs1) =
      Inr (False, rs', tx', unlock_pages maxfs (range_pages rs) (unlock_pages maxfs [start..<start + cnt] m), fs') \<and> n \<le> length (range_pages rs) \<and>
    tx_grows tx1 (page_writes (blk inode fs1) (i_data inode) (range_pages rs)) n tx' \<and>
    good inode fs' \<and> keeps fs1 fs' \<and> blk inode fs' = blk inode fs1"
    using Cons.prems(4,6) j(4,6) by (intro Cons.IH [OF h]) (auto simp: rp)
  then obtain tx' fs' n rs' where k: "journal_ranges alloc maxfs ops inode rs (tx1, unlock_pages maxfs [start..<start + cnt] m, fs1) =
      Inr (False, rs', tx', unlock_pages maxfs (range_pages rs) (unlock_pages maxfs [start..<start + cnt] m), fs')"
    "n \<le> length (range_pages rs)" "tx_grows tx1 (page_writes (blk inode fs1) (i_data inode) (range_pages rs)) n tx'"
    "good inode fs'" "keeps fs1 fs'" "blk inode fs' = blk inode fs1" by blast
  have "tx_grows tx (page_writes (blk inode fs) (i_data inode) (range_pages (r # rs))) (n1 + n) tx'"
    using tx_grows_trans [OF j(3) k(3)] j(6) by (simp add: page_writes_def rp)
  moreover have "unlock_pages maxfs (range_pages (r # rs)) m = unlock_pages maxfs (range_pages rs) (unlock_pages maxfs [start..<start + cnt] m)"
    by (simp add: rp unlock_pages_def)
  moreover have "n1 + n \<le> length (range_pages (r # rs))" using j(2) k(2) len by simp
  ultimately show ?case using j(1,6) k(1,4,6) keeps_trans [OF j(5) k(5)] by auto
qed

lemma journal_irds_inv:
  assumes ops: "gb = get_blocks ops" and alloc: "\<forall>n. alloc n \<noteq> None"
    and "irds \<noteq> []" "ird_filled irds"
    and "tx_holds tx ws" "tag_room tx (length (range_pages (ird_ranges irds)))" "length ws + length (range_pages (ird_ranges irds)) < 2 ^ 32"
    and "\<forall>(start, cnt)\<in>set (ird_ranges irds). start + cnt < 2 ^ 63" "good inode fs"
    and "\<forall>p\<in>set (range_pages (ird_ranges irds)). mapped_below lim (blk inode fs) p"
  shows "\<exists>irds' tx' fs' n. journal_irds alloc maxfs ops inode irds (tx, m, fs) =
      Inr (irds', tx', unlock_pages maxfs (range_pages (ird_ranges irds)) m, fs') \<and> n \<le> length (range_pages (ird_ranges irds)) \<and>
    tx_grows tx (page_writes (blk inode fs) (i_data inode) (range_pages (ird_ranges irds))) n tx' \<and>
    good inode fs' \<and> keeps fs fs' \<and> blk inode fs' = blk inode fs \<and> ird_ranges irds' = [] \<and> length irds' = length irds"
  using assms(3-)
proof (induction irds arbitrary: tx ws m fs)
  case (Cons ird irds)
  let ?r1 = "dirty_pages ird" and ?r2 = "ird_ranges irds"
  have ir: "ird_ranges (ird # irds) = ?r1 @ ?r2" by (simp add: ird_ranges_def)
  have rp: "range_pages (?r1 @ ?r2) = range_pages ?r1 @ range_pages ?r2" by (simp add: range_pages_def)
  have "tag_room tx (length (range_pages ?r1))" "length ws + length (range_pages ?r1) < 2 ^ 32"
    "\<forall>(start, cnt)\<in>set ?r1. start + cnt < 2 ^ 63" "\<forall>p\<in>set (range_pages ?r1). mapped_below lim (blk inode fs) p"
    using Cons.prems(4-6,8) by (auto simp: ir rp intro: tag_room_le)
  from journal_ranges_inv [OF ops alloc Cons.prems(3) this(1-3) Cons.prems(7) this(4), of maxfs m]
  obtain tx1 fs1 n1 rs1 where j: "journal_ranges alloc maxfs ops inode ?r1 (tx, m, fs) =
      Inr (False, rs1, tx1, unlock_pages maxfs (range_pages ?r1) m, fs1)" "n1 \<le> length (range_pages ?r1)"
    "tx_grows tx (page_writes (blk inode fs) (i_data inode) (range_pages ?r1)) n1 tx1"
    "good inode fs1" "keeps fs fs1" "blk inode fs1 = blk inode fs" by blast
  show ?case
  proof (cases "irds = [] \<or> dirty_pages (hd irds) = []")
    case True
    then have r2: "?r2 = []" using Cons.prems(2) by (cases irds) (auto simp: ird_ranges_def)
    have "journal_irds alloc maxfs ops inode (ird # irds) (tx, m, fs) =
        Inr (ird\<lparr>dirty_pages := []\<rparr> # irds, tx1, unlock_pages maxfs (range_pages ?r1) m, fs1)"
      using True j(1) by auto
    moreover have "ird_ranges (ird\<lparr>dirty_pages := []\<rparr> # irds) = []" using r2 by (simp add: ird_ranges_def)
    moreover have "length (ird\<lparr>dirty_pages := []\<rparr> # irds) = length (ird # irds)" by simp
    ultimately show ?thesis using j(2-6) unfolding ir r2 append_Nil2 by blast
  next
    case False
    let ?m1 = "unlock_pages maxfs (range_pages ?r1) m"
    let ?ws = "ws @ page_writes (blk inode fs) (i_data inode) (range_pages ?r1)"
    have h: "tx_holds tx1 ?ws" by (rule tx_grows_holds [OF j(3) Cons.prems(3)])
    have fl: "irds \<noteq> []" "ird_filled irds" using False Cons.prems(2) by (cases irds; simp)+
    have "tag_room tx1 (length (range_pages ?r2))"
      using j(2) Cons.prems(4) by (intro tx_grows_room [OF j(3)]) (auto simp: ir rp intro: tag_room_le)
    moreover have "length ?ws + length (range_pages ?r2) < 2 ^ 32" using Cons.prems(5) by (simp add: page_writes_def ir rp)
    ultimately have "\<exists>irds' tx' fs' n. journal_irds alloc maxfs ops inode irds (tx1, ?m1, fs1) =
      Inr (irds', tx', unlock_pages maxfs (range_pages ?r2) ?m1, fs') \<and> n \<le> length (range_pages ?r2) \<and>
      tx_grows tx1 (page_writes (blk inode fs1) (i_data inode) (range_pages ?r2)) n tx' \<and>
      good inode fs' \<and> keeps fs1 fs' \<and> blk inode fs' = blk inode fs1 \<and> ird_ranges irds' = [] \<and> length irds' = length irds"
      using Cons.prems(6,8) j(4,6) by (intro Cons.IH [OF fl h]) (auto simp: ir rp)
    then obtain irds' tx' fs' n where k: "journal_irds alloc maxfs ops inode irds (tx1, ?m1, fs1) =
      Inr (irds', tx', unlock_pages maxfs (range_pages ?r2) ?m1, fs')" "n \<le> length (range_pages ?r2)"
      "tx_grows tx1 (page_writes (blk inode fs1) (i_data inode) (range_pages ?r2)) n tx'"
      "good inode fs'" "keeps fs1 fs'" "blk inode fs' = blk inode fs1" "ird_ranges irds' = []" "length irds' = length irds" by blast
    have "tx_grows tx (page_writes (blk inode fs) (i_data inode) (range_pages (?r1 @ ?r2))) (n1 + n) tx'"
      using tx_grows_trans [OF j(3) k(3)] j(6) by (simp add: page_writes_def rp)
    moreover have "unlock_pages maxfs (range_pages (?r1 @ ?r2)) m = unlock_pages maxfs (range_pages ?r2) ?m1"
      by (simp add: rp unlock_pages_def)
    moreover have "n1 + n \<le> length (range_pages (?r1 @ ?r2))" using j(2) k(2) by (simp add: rp)
    ultimately show ?thesis
      using False j(1,6) k(1,4,6-8) keeps_trans [OF j(5) k(5)] unfolding ir
      by (auto simp: ird_ranges_def)
  qed
qed simp

end

end
