(* ===== verification/Ox_Sefs.thy ===== *)
theory Ox_Sefs
  imports Ox_Sefs_Alloc Ox_Jtx_File
begin

text \<open>
  Inodes and extents of sefs (\<^verbatim>\<open>sefs_get_block\<close>, \<^verbatim>\<open>alloc_file_block\<close>, \<^verbatim>\<open>get_next_ei_block\<close> of
  \<^verbatim>\<open>secure_daemon/src/fs/sefs/inode.c\<close> and \<^verbatim>\<open>sefs_write_inode\<close> of \<^verbatim>\<open>super.c\<close>).  The index of a
  file is a chain of blocks with extents in order; reading through it gives the interface
  \<open>block_map\<close> of the journal.
\<close>

section \<open>Inodes on disk\<close>

definition sizeof_sefs_inode :: nat where
  "sizeof_sefs_inode = 72"

definition SEFS_INODES_PER_BLOCK :: nat where
  "SEFS_INODES_PER_BLOCK = OXBOW_BLOCK_SIZE div sizeof_sefs_inode"

definition SEFS_INO_BLOCK :: "nat \<Rightarrow> nat" where
  "SEFS_INO_BLOCK ino = ino div SEFS_INODES_PER_BLOCK + 1"

definition SEFS_INO_SHIFT :: "nat \<Rightarrow> nat" where
  "SEFS_INO_SHIFT ino = ino mod SEFS_INODES_PER_BLOCK"

text \<open>The fields of \<^verbatim>\<open>struct sefs_inode\<close> that are written, at offset \<open>o\<close>; the times stay.\<close>

definition put_sefs_inode :: "nat \<Rightarrow> inode \<Rightarrow> sefs_inode_info \<Rightarrow> block \<Rightarrow> block" where
  "put_sefs_inode off inode ii b =
     fold (\<lambda>k. put_le 4 (off + 40 + 4 * k) (si_data ii k)) [0..<8]
       (put_le 8 (off + 32) (ei_block ii)
         (put_le 2 (off + 6) (i_nlink inode)
           (put_le 4 (off + 28) (i_blocks inode)
             (put_le 8 (off + 8) (i_size inode)
               (put_le 2 (off + 4) (i_gid inode)
                 (put_le 2 (off + 2) (i_uid inode) (put_le 2 off (i_mode inode) b)))))))"

text \<open>\<^verbatim>\<open>add_journal_inode\<close>: the block goes to the list of the transaction that is built.\<close>

definition add_journal_inode :: "nat \<Rightarrow> journal_tx \<Rightarrow> 'a bcache_scheme \<Rightarrow> ox_error + (journal_tx \<times> 'a bcache_scheme)" where
  "add_journal_inode b tx bc =
     (case bhs bc b of
        None \<Rightarrow> Inl Null_deref
      | Some bh \<Rightarrow> Inr (tx\<lparr>tx_blks := tx_blks tx @ [b]\<rparr>, set_bh b (bh\<lparr>bh_injournal := True\<rparr>) bc))"

definition sefs_write_inode ::
  "(nat \<Rightarrow> block) \<Rightarrow> inode \<Rightarrow> journal_tx \<Rightarrow> sefs_fs \<Rightarrow> ox_error + (bool \<times> inode \<times> journal_tx \<times> sefs_fs)" where
  "sefs_write_inode junk inode tx fs =
     (let ino = i_ino inode; b = SEFS_INO_BLOCK ino
      in ebind (sb_bread junk b fs) (\<lambda>(fs, bh).
           let bh = bh\<lparr>b_data := put_sefs_inode (sizeof_sefs_inode * SEFS_INO_SHIFT ino) inode (sefs_ii fs ino) (b_data bh)\<rparr>;
               fs = set_bh b bh fs
           in ebind (if i_use_journal inode
                     then if \<not> bh_injournal bh then add_journal_inode b tx fs else Inr (tx, fs)
                     else ebind (sync_dirty_buffer b (mark_buffer_dirty b fs)) (\<lambda>fs. Inr (tx, fs))) (\<lambda>(tx, fs).
                Inr (False, inode\<lparr>i_dirty := False\<rparr>, tx, brelse b fs))))"

text \<open>What \<^verbatim>\<open>sefs_iget\<close> reads of an inode that is not in memory.\<close>

record sefs_disk_inode =
  d_mode :: nat
  d_size :: nat
  d_blocks :: nat
  d_uid :: nat
  d_gid :: nat
  d_nlink :: nat
  d_ei_block :: nat

definition get_sefs_inode :: "nat \<Rightarrow> block \<Rightarrow> sefs_disk_inode" where
  "get_sefs_inode off b =
     \<lparr>d_mode = get_le 2 off b, d_size = get_le 8 (off + 8) b, d_blocks = get_le 4 (off + 28) b, d_uid = get_le 2 (off + 2) b,
      d_gid = get_le 2 (off + 4) b, d_nlink = get_le 2 (off + 6) b, d_ei_block = get_le 8 (off + 32) b\<rparr>"

definition sefs_iget_disk :: "(nat \<Rightarrow> block) \<Rightarrow> nat \<Rightarrow> sefs_fs \<Rightarrow> ox_error + (sefs_disk_inode option \<times> sefs_fs)" where
  "sefs_iget_disk junk ino fs =
     (if ino \<ge> nr_inodes (sbi fs) then Inr (None, fs)
      else ebind (sb_bread junk (SEFS_INO_BLOCK ino) fs) (\<lambda>(fs, bh).
        let di = get_sefs_inode (sizeof_sefs_inode * SEFS_INO_SHIFT ino) (b_data bh)
        in if d_mode di = 0 then Inl Assertion
           else Inr (Some di, brelse (SEFS_INO_BLOCK ino)
             (if S_ISDIR (d_mode di) \<or> S_ISREG (d_mode di)
              then fs\<lparr>sefs_ii := (sefs_ii fs)(ino := (sefs_ii fs ino)\<lparr>ei_block := d_ei_block di\<rparr>)\<rparr> else fs))))"

section \<open>The extents of a file\<close>

definition SEFS_MAX_EXTENTS :: nat where
  "SEFS_MAX_EXTENTS = (OXBOW_BLOCK_SIZE - 8) div 14"

abbreviation ei_next :: "block \<Rightarrow> nat" where "ei_next \<equiv> get_le 8 0"

definition ext_bno :: "nat \<Rightarrow> block \<Rightarrow> nat" where
  "ext_bno i b = get_le 8 (8 + 14 * i) b"

definition ext_iblock :: "nat \<Rightarrow> block \<Rightarrow> nat" where
  "ext_iblock i b = get_le 4 (16 + 14 * i) b"

definition ext_len :: "nat \<Rightarrow> block \<Rightarrow> nat" where
  "ext_len i b = get_le 2 (20 + 14 * i) b"

definition sefs_ext_search :: "block \<Rightarrow> nat \<Rightarrow> nat option" where
  "sefs_ext_search index iblock =
     find (\<lambda>i. ext_bno i index = 0 \<or>
        iblock \<ge> ext_iblock i index \<and> iblock < add32 (ext_iblock i index) (ext_len i index)) [0..<SEFS_MAX_EXTENTS]"

definition MATCH_EXTENT :: "nat \<Rightarrow> nat" where
  "MATCH_EXTENT blocks =
     (if blocks = 1 then 1 else if blocks \<le> 8 then 8 else if blocks \<le> 32 then 32 else if blocks \<le> 128 then 128
      else if blocks \<le> 512 then 512 else if blocks \<le> 2048 then 2048 else if blocks \<le> 8192 then 8192 else 32768)"

text \<open>The size of a new extent: four times as much after four extents of the size that fits.\<close>

definition new_extent_size :: "block \<Rightarrow> nat \<Rightarrow> nat \<Rightarrow> nat" where
  "new_extent_size index nr ei =
     (let nr = (if ei > 3 \<and> (\<forall>k\<in>set [1..<5]. ext_len (ei - k) index = MATCH_EXTENT nr) then u32 (nr * 4) else nr)
      in if ei \<noteq> 0 then max (ext_len (ei - 1) index) (MATCH_EXTENT nr) else MATCH_EXTENT nr)"

definition put_extent :: "nat \<Rightarrow> nat \<Rightarrow> nat \<Rightarrow> block \<Rightarrow> block" where
  "put_extent ei bno blks index =
     (let index = put_le 2 (20 + 14 * ei) blks (put_le 8 (8 + 14 * ei) bno index)
      in if ei \<noteq> 0 \<and> ext_bno ei index \<noteq> 0
         then put_le 4 (16 + 14 * ei) (add32 (ext_iblock (ei - 1) index) (ext_len (ei - 1) index)) index else index)"

text \<open>The index block \<open>b\<close> is held in the cache.  The result says whether it failed.\<close>

definition alloc_file_block ::
  "(nat \<Rightarrow> block) \<Rightarrow> nat \<Rightarrow> nat \<Rightarrow> nat \<Rightarrow> nat \<Rightarrow> sefs_fs \<Rightarrow> ox_error + (bool \<times> sefs_fs)" where
  "alloc_file_block junk ino b nr ei fs =
     (case bhs fs b of
        None \<Rightarrow> Inl Null_deref
      | Some bh \<Rightarrow>
          let blks = new_extent_size (b_data bh) nr ei
          in ebind (sefs_get_free_blocks junk blks fs) (\<lambda>(bno, fs).
               if bno = 0 then Inr (True, fs)
               else case bhs fs b of
                      None \<Rightarrow> Inl Null_deref
                    | Some bh \<Rightarrow>
                        if bh_locked bh then Inl Blocked
                        else ebind (mark_buffer_dirty_inode b ino (set_bh b (bh\<lparr>b_data := put_extent ei bno blks (b_data bh)\<rparr>) fs))
                               (\<lambda>fs. Inr (False, fs))))"

text \<open>The index block after \<open>b\<close>, which is made if there is none; \<open>None\<close> is a failure.\<close>

definition get_next_ei_block ::
  "(nat \<Rightarrow> block) \<Rightarrow> nat \<Rightarrow> nat \<Rightarrow> sefs_fs \<Rightarrow> ox_error + (nat option \<times> sefs_fs)" where
  "get_next_ei_block junk ino b fs =
     (case bhs fs b of
        None \<Rightarrow> Inl Null_deref
      | Some bh \<Rightarrow>
          if ei_next (b_data bh) \<noteq> 0
          then ebind (sb_bread junk (ei_next (b_data bh)) (brelse b fs)) (\<lambda>(fs, _). Inr (Some (ei_next (b_data bh)), fs))
          else let last = add32 (ext_iblock (SEFS_MAX_EXTENTS - 1) (b_data bh)) (ext_len (SEFS_MAX_EXTENTS - 1) (b_data bh))
               in ebind (sefs_get_free_blocks junk 1 fs) (\<lambda>(bno, fs).
                    if bno = 0 then Inr (None, brelse b fs)
                    else case bhs fs b of
                           None \<Rightarrow> Inl Null_deref
                         | Some bh \<Rightarrow>
                             if bh_locked bh then Inl Blocked
                             else ebind (mark_buffer_dirty_inode b ino (set_bh b (bh\<lparr>b_data := put_le 8 0 bno (b_data bh)\<rparr>) fs)) (\<lambda>fs.
                               ebind (sb_balloc junk bno (brelse b fs)) (\<lambda>(fs, bh).
                                 ebind (mark_buffer_dirty_inode bno ino
                                     (set_bh bno (bh\<lparr>b_data := put_le 4 16 last (\<lambda>i. if i < OXBOW_BLOCK_SIZE then 0 else b_data bh i)\<rparr>) fs))
                                   (\<lambda>fs. Inr (Some bno, fs))))))"

text \<open>The search through the chain of index blocks.  \<open>None\<close> is a chain that does not end.\<close>

partial_function (option) ei_search ::
  "(nat \<Rightarrow> block) \<Rightarrow> nat \<Rightarrow> nat \<Rightarrow> nat \<Rightarrow> sefs_fs \<Rightarrow> (ox_error + ((nat \<times> nat) option \<times> sefs_fs)) option" where
  "ei_search junk ino iblock b fs =
     (case bhs fs b of
        None \<Rightarrow> Some (Inl Null_deref)
      | Some bh \<Rightarrow>
          (case sefs_ext_search (b_data bh) iblock of
             Some ei \<Rightarrow> Some (Inr (Some (b, ei), fs))
           | None \<Rightarrow>
               (case get_next_ei_block junk ino b fs of
                  Inl e \<Rightarrow> Some (Inl e)
                | Inr r \<Rightarrow>
                    (case fst r of
                       None \<Rightarrow> Some (Inr (None, snd r))
                     | Some b' \<Rightarrow> ei_search junk ino iblock b' (snd r)))))"

text \<open>The loop that allocates the rest of \<open>create\<close> blocks after extent \<open>ei\<close> of block \<open>b\<close>.  A round
  returns the result of the loop, or \<open>None\<close> and the extent of the next round.\<close>

definition grow_round ::
  "(nat \<Rightarrow> block) \<Rightarrow> nat \<Rightarrow> nat \<Rightarrow> nat \<Rightarrow> nat \<Rightarrow> nat \<Rightarrow> sefs_fs \<Rightarrow>
   (ox_error + (bool option \<times> nat \<times> nat \<times> sefs_fs)) option" where
  "grow_round junk ino iblock create b ei fs =
     (case bhs fs b of
        None \<Rightarrow> Some (Inl Null_deref)
      | Some bh \<Rightarrow>
          (let n_iblock = add32 (ext_iblock ei (b_data bh)) (ext_len ei (b_data bh));
               n_create = u32 (sub64 create (sub64 n_iblock iblock))
           in case ei_search junk ino n_iblock b fs of
                None \<Rightarrow> None
              | Some (Inl e) \<Rightarrow> Some (Inl e)
              | Some (Inr (None, fs)) \<Rightarrow> Some (Inr (Some True, b, ei, fs))
              | Some (Inr (Some (b, ei), fs)) \<Rightarrow>
                  Some (ebind (case bhs fs b of
                           None \<Rightarrow> Inl Null_deref
                         | Some bh \<Rightarrow> if ext_bno ei (b_data bh) = 0 then alloc_file_block junk ino b n_create ei fs else Inr (False, fs))
                    (\<lambda>(failed, fs).
                       if failed then Inr (Some True, b, ei, brelse b fs)
                       else case bhs fs b of
                              None \<Rightarrow> Inl Null_deref
                            | Some bh \<Rightarrow>
                                Inr (if add64 n_iblock n_create > add32 (ext_iblock ei (b_data bh)) (ext_len ei (b_data bh))
                                     then None else Some False, b, ei, fs)))))"

partial_function (option) grow_extents ::
  "(nat \<Rightarrow> block) \<Rightarrow> nat \<Rightarrow> nat \<Rightarrow> nat \<Rightarrow> nat \<Rightarrow> nat \<Rightarrow> sefs_fs \<Rightarrow> (ox_error + (bool \<times> sefs_fs)) option" where
  "grow_extents junk ino iblock create b ei fs =
     (case grow_round junk ino iblock create b ei fs of
        None \<Rightarrow> None
      | Some r \<Rightarrow>
          (case r of
             Inl e \<Rightarrow> Some (Inl e)
           | Inr q \<Rightarrow>
               (case fst q of
                  Some failed \<Rightarrow> Some (Inr (failed, snd (snd (snd q))))
                | None \<Rightarrow> grow_extents junk ino iblock create (fst (snd q)) (fst (snd (snd q))) (snd (snd (snd q))))))"

definition ext_at :: "nat \<Rightarrow> block \<Rightarrow> buffer_extent" where
  "ext_at ei index = \<lparr>be_iblock = ext_iblock ei index, be_nr = ext_len ei index, be_lba = ext_bno ei index\<rparr>"

text \<open>A chain that does not end is a call that does not return.\<close>

definition sefs_get_block ::
  "nat \<Rightarrow> (nat \<Rightarrow> block) \<Rightarrow> inode \<Rightarrow> nat \<Rightarrow> nat \<Rightarrow> sefs_fs \<Rightarrow> ox_error + (buffer_extent option \<times> sefs_fs)" where
  "sefs_get_block maxfs junk inode iblock create fs =
     (let ino = i_ino inode; b = ei_block (sefs_ii fs ino)
      in if S_ISDIR (i_mode inode) then Inl Assertion
         else if iblock > (maxfs - 1) div PAGE_SIZE then Inr (None, fs)
         else ebind (sb_bread junk b fs) (\<lambda>(fs, _).
           case ei_search junk ino (u32 iblock) b fs of
             None \<Rightarrow> Inl Blocked
           | Some (Inl e) \<Rightarrow> Inl e
           | Some (Inr (None, fs)) \<Rightarrow> Inr (None, fs)
           | Some (Inr (Some (b, ei), fs)) \<Rightarrow>
               (case bhs fs b of
                  None \<Rightarrow> Inl Null_deref
                | Some bh \<Rightarrow>
                    let index = b_data bh
                    in if create = 0
                       then if iblock = 0 \<and> ext_len ei index \<noteq> 0 \<or> ext_bno ei index \<noteq> 0
                            then Inr (Some (ext_at ei index), brelse b fs) else Inr (None, brelse b fs)
                       else if add64 iblock create \<le> add32 (ext_iblock ei index) (ext_len ei index)
                       then Inr (Some (ext_at ei index), brelse b fs)
                       else if ext_bno ei index = 0
                       then ebind (alloc_file_block junk ino b create ei fs) (\<lambda>(failed, fs).
                              if failed then Inr (None, brelse b fs)
                              else case bhs fs b of None \<Rightarrow> Inl Null_deref
                                   | Some bh \<Rightarrow> Inr (Some (ext_at ei (b_data bh)), brelse b fs))
                       else (case grow_extents junk ino iblock create b ei fs of
                               None \<Rightarrow> Inl Blocked
                             | Some (Inl e) \<Rightarrow> Inl e
                             | Some (Inr (failed, fs)) \<Rightarrow> Inr (if failed then None else Some (ext_at ei index), fs)))))"

definition sefs_ops :: "nat \<Rightarrow> (nat \<Rightarrow> block) \<Rightarrow> sefs_fs fs_ops" where
  "sefs_ops maxfs junk = \<lparr>get_blocks = sefs_get_block maxfs junk, write_inode = sefs_write_inode junk\<rparr>"

section \<open>Specification of the index\<close>

text \<open>An index block has \<open>ext_used\<close> extents, which cover the blocks from \<open>k\<close> on without gaps.\<close>

definition ext_used :: "block \<Rightarrow> nat" where
  "ext_used b = (case find (\<lambda>i. ext_bno i b = 0) [0..<SEFS_MAX_EXTENTS] of None \<Rightarrow> SEFS_MAX_EXTENTS | Some n \<Rightarrow> n)"

definition ext_end :: "nat \<Rightarrow> block \<Rightarrow> nat" where
  "ext_end k b = (if ext_used b = 0 then k else ext_iblock (ext_used b - 1) b + ext_len (ext_used b - 1) b)"

definition ei_wf :: "nat \<Rightarrow> block \<Rightarrow> bool" where
  "ei_wf k b \<longleftrightarrow> ext_iblock 0 b = k \<and> ext_end k b < 2 ^ 32 \<and>
     (\<forall>i<ext_used b. 0 < ext_len i b \<and> ext_bno i b < 2 ^ 32) \<and>
     (\<forall>i. Suc i < ext_used b \<longrightarrow> ext_iblock (Suc i) b = ext_iblock i b + ext_len i b)"

text \<open>The chain of the index blocks of a file; only the last one may have unused extents.\<close>

fun ei_chain :: "(nat \<Rightarrow> block) \<Rightarrow> nat \<Rightarrow> nat list \<Rightarrow> bool" where
  "ei_chain v k [] = False"
| "ei_chain v k [b] = (ei_wf k (v b) \<and> ei_next (v b) = 0)"
| "ei_chain v k (b # c # bs) =
     (ei_wf k (v b) \<and> ext_used (v b) = SEFS_MAX_EXTENTS \<and> ei_next (v b) = c \<and> c \<noteq> 0 \<and> ei_chain v (ext_end k (v b)) (c # bs))"

text \<open>Where page \<open>p\<close> is found, and its block.\<close>

partial_function (option) ei_lookup :: "(nat \<Rightarrow> block) \<Rightarrow> nat \<Rightarrow> nat \<Rightarrow> (nat \<times> nat) option" where
  "ei_lookup v p b =
     (case sefs_ext_search (v b) p of
        Some i \<Rightarrow> Some (b, i)
      | None \<Rightarrow> if ei_next (v b) = 0 then None else ei_lookup v p (ei_next (v b)))"

definition sefs_blk :: "inode \<Rightarrow> sefs_fs \<Rightarrow> nat \<rightharpoonup> nat" where
  "sefs_blk inode fs p =
     (case ei_lookup (bc_view fs) p (ei_block (sefs_ii fs (i_ino inode))) of
        None \<Rightarrow> None
      | Some (b, i) \<Rightarrow> let x = bc_view fs b in if ext_bno i x = 0 then None else Some (ext_bno i x + (p - ext_iblock i x)))"

text \<open>The disk has the inodes first, then the bitmaps, then the data blocks.\<close>

definition data_block :: "sefs_fs \<Rightarrow> nat \<Rightarrow> bool" where
  "data_block fs b \<longleftrightarrow> bfree_first (sbi fs) + nr_bfree_blocks (sbi fs) \<le> b"

definition ino_ok :: "sefs_fs \<Rightarrow> nat \<Rightarrow> bool" where
  "ino_ok fs ino \<longleftrightarrow> SEFS_INO_BLOCK ino < ifree_first (sbi fs) \<and> ifree_first (sbi fs) \<le> bfree_first (sbi fs)"

definition sefs_good :: "inode \<Rightarrow> sefs_fs \<Rightarrow> bool" where
  "sefs_good inode fs \<longleftrightarrow> unlocked fs \<and> \<not> S_ISDIR (i_mode inode) \<and> ino_ok fs (i_ino inode) \<and>
     (\<exists>bs. bs \<noteq> [] \<and> hd bs = ei_block (sefs_ii fs (i_ino inode)) \<and> ei_chain (bc_view fs) 0 bs \<and> (\<forall>b\<in>set bs. data_block fs b))"

section \<open>Lemmas: the index\<close>

lemma ext_used_le: "ext_used b \<le> SEFS_MAX_EXTENTS"
  by (auto simp: ext_used_def find_Some_iff split: option.splits)

lemma ext_used_bno: "i < ext_used b \<Longrightarrow> ext_bno i b \<noteq> 0" "ext_used b < SEFS_MAX_EXTENTS \<Longrightarrow> ext_bno (ext_used b) b = 0"
  by (auto simp: ext_used_def find_Some_iff find_None_iff split: option.splits)

lemma find_upt_Some:
  "find P [0..<n] = Some i \<longleftrightarrow> i < n \<and> P i \<and> (\<forall>j<i. \<not> P j)"
  by (auto simp: find_Some_iff)

lemma find_upt_None: "find P [0..<n] = None \<longleftrightarrow> (\<forall>i<n. \<not> P i)"
  by (auto simp: find_None_iff)

lemma ei_wf_bounds:
  assumes "ei_wf k b" "i < ext_used b"
  shows "k \<le> ext_iblock i b" "ext_iblock i b + ext_len i b \<le> ext_end k b"
    "\<And>j. j < i \<Longrightarrow> ext_iblock j b + ext_len j b \<le> ext_iblock i b"
proof -
  have st: "ext_iblock (Suc i) b = ext_iblock i b + ext_len i b" if "Suc i < ext_used b" for i
    using assms(1) that by (simp add: ei_wf_def)
  have mono: "ext_iblock j b + ext_len j b \<le> ext_iblock i b" if "j < i" "i < ext_used b" for i j
    using that
  proof (induction i)
    case (Suc i)
    then show ?case using st [of i] by (cases "j = i") auto
  qed simp
  show "\<And>j. j < i \<Longrightarrow> ext_iblock j b + ext_len j b \<le> ext_iblock i b" using mono assms(2) by blast
  show "k \<le> ext_iblock i b" using mono [of 0 i] assms by (cases i) (auto simp: ei_wf_def)
  show "ext_iblock i b + ext_len i b \<le> ext_end k b"
    using mono [of i "ext_used b - 1"] assms(2) by (cases "i < ext_used b - 1") (auto simp: ext_end_def not_less dest!: le_antisym [rotated])
qed

lemma ext_end_ge: "ei_wf k b \<Longrightarrow> k \<le> ext_end k b"
  using ei_wf_bounds(1,2) [of k b 0] by (cases "ext_used b = 0") (auto simp: ext_end_def)

lemma ei_wf_cover:
  assumes wf: "ei_wf k b" and p: "k \<le> p" "p < ext_end k b"
  obtains i where "i < ext_used b" "ext_iblock i b \<le> p" "p < ext_iblock i b + ext_len i b"
proof -
  let ?n = "LEAST i. p < ext_iblock i b + ext_len i b"
  have ne: "ext_used b \<noteq> 0" using p by (auto simp: ext_end_def split: if_splits)
  then have l: "p < ext_iblock (ext_used b - 1) b + ext_len (ext_used b - 1) b" using p by (simp add: ext_end_def)
  have n: "p < ext_iblock ?n b + ext_len ?n b" "?n \<le> ext_used b - 1" 
    using LeastI [of "\<lambda>i. p < ext_iblock i b + ext_len i b", OF l] Least_le [of "\<lambda>i. p < ext_iblock i b + ext_len i b", OF l] by simp_all
  have "ext_iblock ?n b \<le> p"
  proof (cases ?n)
    case 0
    then show ?thesis using wf p(1) by (simp add: ei_wf_def)
  next
    case (Suc m)
    have "\<not> p < ext_iblock m b + ext_len m b" using not_less_Least [of m "\<lambda>i. p < ext_iblock i b + ext_len i b"] Suc by simp
    moreover have "Suc m < ext_used b" using n(2) Suc ne by simp
    ultimately show ?thesis using wf Suc by (simp add: ei_wf_def)
  qed
  then show thesis using that [of ?n] n ne by simp
qed

lemma add32_ext: "ei_wf k b \<Longrightarrow> i < ext_used b \<Longrightarrow> add32 (ext_iblock i b) (ext_len i b) = ext_iblock i b + ext_len i b"
  using ei_wf_bounds(2) by (fastforce simp: ei_wf_def c_arith)

lemma ext_search_in:
  assumes wf: "ei_wf k b" and i: "i < ext_used b" "ext_iblock i b \<le> p" "p < ext_iblock i b + ext_len i b"
  shows "sefs_ext_search b p = Some i"
proof -
  have "\<not> (ext_bno j b = 0 \<or> p \<ge> ext_iblock j b \<and> p < add32 (ext_iblock j b) (ext_len j b))" if "j < i" for j
    using ext_used_bno(1) [of j b] add32_ext [OF wf, of j] ei_wf_bounds(3) [OF wf i(1) that] that i by simp
  then show ?thesis
    using i ext_used_le [of b] add32_ext [OF wf i(1)] by (simp add: sefs_ext_search_def find_upt_Some)
qed

lemma ext_search_beyond:
  assumes wf: "ei_wf k b" and p: "ext_end k b \<le> p"
  shows "sefs_ext_search b p = (if ext_used b < SEFS_MAX_EXTENTS then Some (ext_used b) else None)"
proof -
  have "\<not> (ext_bno j b = 0 \<or> p \<ge> ext_iblock j b \<and> p < add32 (ext_iblock j b) (ext_len j b))" if "j < ext_used b" for j
    using ext_used_bno(1) [OF that] add32_ext [OF wf that] ei_wf_bounds(2) [OF wf that] p by simp
  then show ?thesis
    using ext_used_bno(2) [of b] ext_used_le [of b]
    by (auto simp: sefs_ext_search_def find_upt_Some find_upt_None)
qed

lemma ei_chain_wf: "ei_chain v k (b # bs) \<Longrightarrow> ei_wf k (v b)"
  by (cases bs) auto

text \<open>In a chain a page is found in the extent that covers it, or in the first unused one.\<close>

lemma ei_lookup_step:
  "ei_lookup v p b = (case sefs_ext_search (v b) p of Some i \<Rightarrow> Some (b, i)
     | None \<Rightarrow> if ei_next (v b) = 0 then None else ei_lookup v p (ei_next (v b)))"
  by (subst ei_lookup.simps) simp

definition ext_hit :: "(nat \<Rightarrow> block) \<Rightarrow> nat \<Rightarrow> nat \<Rightarrow> nat \<Rightarrow> nat \<Rightarrow> bool" where
  "ext_hit v p b0 b i \<longleftrightarrow> i < ext_used (v b) \<and> ext_iblock i (v b) \<le> p \<and> p < ext_iblock i (v b) + ext_len i (v b) \<and>
     (\<forall>q. ext_iblock i (v b) \<le> q \<and> q < ext_iblock i (v b) + ext_len i (v b) \<longrightarrow> ei_lookup v q b0 = Some (b, i))"

lemma ei_lookup_here:
  assumes wf: "ei_wf k (v c)" and p: "k \<le> p" "p < ext_end k (v c)" and l: "ei_lookup v p c = Some (b, i)"
  shows "b = c \<and> ext_hit v p c b i"
proof -
  from ei_wf_cover [OF wf p] obtain j where
    j: "j < ext_used (v c)" "ext_iblock j (v c) \<le> p" "p < ext_iblock j (v c) + ext_len j (v c)" .
  have "ei_lookup v q c = Some (c, j)" if "ext_iblock j (v c) \<le> q" "q < ext_iblock j (v c) + ext_len j (v c)" for q
    using ext_search_in [OF wf j(1) that] by (simp add: ei_lookup_step [of v q c])
  then show ?thesis using l j by (auto simp: ext_hit_def)
qed

lemma ei_lookup_chain:
  assumes "ei_chain v k bs" "ei_lookup v p (hd bs) = Some (b, i)" "k \<le> p"
  shows "b \<in> set bs \<and> (\<exists>k'\<ge>k. ei_wf k' (v b)) \<and> (ext_hit v p (hd bs) b i \<or> ext_bno i (v b) = 0)"
  using assms
proof (induction v k bs rule: ei_chain.induct)
  case (2 v k c)
  have wf: "ei_wf k (v c)" and nx: "ei_next (v c) = 0" using 2(1) by auto
  show ?case
  proof (cases "p < ext_end k (v c)")
    case True
    then show ?thesis using ei_lookup_here [of k v c p, OF wf 2(3) True] 2(2) wf by auto
  next
    case False
    then have "b = c \<and> i = ext_used (v c) \<and> ext_used (v c) < SEFS_MAX_EXTENTS"
      using 2(2) ext_search_beyond [OF wf] nx by (auto simp: ei_lookup_step [of v p c] split: if_splits)
    then show ?thesis using ext_used_bno(2) [of "v c"] wf by auto
  qed
next
  case (3 v k c d bs)
  have wf: "ei_wf k (v c)" and full: "ext_used (v c) = SEFS_MAX_EXTENTS" and nx: "ei_next (v c) = d" "d \<noteq> 0"
    and ch: "ei_chain v (ext_end k (v c)) (d # bs)" using 3(2) by auto
  show ?case
  proof (cases "p < ext_end k (v c)")
    case True
    then show ?thesis using ei_lookup_here [of k v c p, OF wf 3(4) True] 3(3) wf by auto
  next
    case False
    have skip: "ei_lookup v q c = ei_lookup v q d" if "ext_end k (v c) \<le> q" for q
      using ext_search_beyond [OF wf that] full nx by (simp add: ei_lookup_step [of v q c])
    then have "ei_lookup v p (hd (d # bs)) = Some (b, i)" using 3(3) False by simp
    from 3(1) [OF ch this] False obtain k' where b: "b \<in> set (d # bs)" and k': "ext_end k (v c) \<le> k'" "ei_wf k' (v b)"
      and h: "ext_hit v p d b i \<or> ext_bno i (v b) = 0" by auto
    have "ext_hit v p c b i" if "ext_hit v p d b i"
    proof -
      have "i < ext_used (v b)" using that by (simp add: ext_hit_def)
      then have "ext_end k (v c) \<le> ext_iblock i (v b)" using ei_wf_bounds(1) [OF k'(2)] k'(1) by (meson le_trans)
      then show ?thesis using that skip by (simp add: ext_hit_def)
    qed
    moreover have "k \<le> k'" using ext_end_ge [OF wf] k'(1) by simp
    ultimately show ?thesis using b k'(2) h by auto
  qed
qed simp

section \<open>Lemmas: reading through the index\<close>

lemma bc_sameD:
  assumes "bc_same bc bc'"
  shows "bc_view bc' = bc_view bc" "bcache.more bc' = bcache.more bc" "unlocked bc \<Longrightarrow> unlocked bc'"
  using assms by (simp_all add: bc_same_def)

lemma get_next_ei_block_read:
  assumes u: "unlocked fs" and b: "bhs fs b = Some bh" "ei_next (b_data bh) \<noteq> 0"
  obtains fs' where "get_next_ei_block junk ino b fs = Inr (Some (ei_next (b_data bh)), fs')" "bc_same fs fs'"
    "\<exists>bh'. bhs fs' (ei_next (b_data bh)) = Some bh' \<and> bh_uptodate bh'"
proof -
  have u1: "unlocked (brelse b fs)" by (rule unlocked_brelse [OF u])
  from sb_bread_same [OF u1, of junk "ei_next (b_data bh)"] obtain fs' bh' where
    r: "sb_bread junk (ei_next (b_data bh)) (brelse b fs) = Inr (fs', bh')" "bc_same (brelse b fs) fs'"
    "bhs fs' (ei_next (b_data bh)) = Some bh'" "bh_uptodate bh'" by metis
  show thesis
    by (rule that [of fs']) (use r b bc_same_trans [OF brelse_same r(2)] in \<open>auto simp: get_next_ei_block_def\<close>)
qed

lemma ei_search_read:
  assumes "ei_chain v k bs" "ei_lookup v p (hd bs) = Some (b, i)"
    "bc_view fs = v" "unlocked fs" "bhs fs (hd bs) = Some bh" "bh_uptodate bh"
  shows "\<exists>fs'. ei_search junk ino p (hd bs) fs = Some (Inr (Some (b, i), fs')) \<and> bc_same fs fs' \<and>
    (\<exists>bh'. bhs fs' b = Some bh' \<and> bh_uptodate bh')"
  using assms
proof (induction v k bs arbitrary: fs bh rule: ei_chain.induct)
  case (2 v k c)
  have d: "b_data bh = v c" using 2(3,5,6) view_at(2) [of fs c bh] by auto
  have "sefs_ext_search (v c) p = Some i" "b = c"
    using 2(1,2) by (auto simp: ei_lookup_step [of v p c] split: option.splits)
  then show ?case using 2(5,6) d by (auto simp: ei_search.simps [of _ _ _ c])
next
  case (3 v k c e bs)
  have d: "b_data bh = v c" using 3(4,6,7) view_at(2) [of fs c bh] by auto
  show ?case
  proof (cases "sefs_ext_search (v c) p")
    case (Some j)
    then have "b = c" "i = j" using 3(3) by (auto simp: ei_lookup_step [of v p c])
    then show ?thesis using 3(6,7) d Some by (auto simp: ei_search.simps [of _ _ _ c])
  next
    case None
    have nx: "ei_next (b_data bh) = e" "e \<noteq> 0" and ch: "ei_chain v (ext_end k (v c)) (e # bs)" using 3(2) d by auto
    have b: "bhs fs c = Some bh" using 3(6) by simp
    from get_next_ei_block_read [OF 3(5) b] nx obtain fs1 bh1 where
      g: "get_next_ei_block junk ino c fs = Inr (Some e, fs1)" "bc_same fs fs1" "bhs fs1 e = Some bh1" "bh_uptodate bh1" by metis
    have l: "ei_lookup v p (hd (e # bs)) = Some (b, i)" using 3(3) None nx d by (simp add: ei_lookup_step [of v p c])
    have v: "bc_view fs1 = v" "unlocked fs1" using bc_sameD [OF g(2)] 3(4,5) by auto
    from 3(1) [OF ch l v] g(3,4) obtain fs' where
      r: "ei_search junk ino p e fs1 = Some (Inr (Some (b, i), fs'))" "bc_same fs1 fs'" "\<exists>bh'. bhs fs' b = Some bh' \<and> bh_uptodate bh'" by auto
    have "ei_search junk ino p c fs = ei_search junk ino p e fs1"
      using b d None g(1) by (simp add: ei_search.simps [of _ _ _ c])
    then show ?thesis using r bc_same_trans [OF g(2) r(2)] by auto
  qed
qed simp

lemma sefs_good_same: "bc_same fs fs' \<Longrightarrow> sefs_good inode fs \<Longrightarrow> sefs_good inode fs'"
  using sefs_more_eq [of fs' fs] by (auto simp: sefs_good_def bc_same_def data_block_def ino_ok_def)

lemma sefs_blk_cong:
  "bc_view fs' = bc_view fs \<Longrightarrow> sefs_ii fs' = sefs_ii fs \<Longrightarrow> sefs_blk inode fs' = sefs_blk inode fs"
  by (rule ext) (simp only: sefs_blk_def)

lemma sefs_blk_same: "bc_same fs fs' \<Longrightarrow> sefs_blk inode fs' = sefs_blk inode fs"
  using sefs_more_eq [of fs' fs] bc_sameD [of fs fs'] sefs_blk_cong by blast

lemma sefs_get_block_read:
  assumes good: "sefs_good inode fs" and p: "p < 2 ^ 32" "p \<le> (maxfs - 1) div PAGE_SIZE" and m: "sefs_blk inode fs p \<noteq> None"
  obtains be fs' where "sefs_get_block maxfs junk inode p 0 fs = Inr (Some be, fs')" "bc_same fs fs'"
    "ext_for (sefs_blk inode fs) p be"
proof -
  let ?v = "bc_view fs" and ?b0 = "ei_block (sefs_ii fs (i_ino inode))"
  obtain bs where g: "unlocked fs" "\<not> S_ISDIR (i_mode inode)" "bs \<noteq> []" "hd bs = ?b0" "ei_chain ?v 0 bs"
    using good by (auto simp: sefs_good_def)
  obtain b i where l: "ei_lookup ?v p ?b0 = Some (b, i)" "ext_bno i (?v b) \<noteq> 0"
    using m by (auto simp: sefs_blk_def Let_def split: option.splits if_splits)
  have hit: "ext_hit ?v p ?b0 b i" and wf: "\<exists>k. ei_wf k (?v b)"
    using ei_lookup_chain [OF g(5), of p b i] l g(4) by auto
  from sb_bread_same [OF g(1), of junk ?b0] obtain fs1 bh where
    r: "sb_bread junk ?b0 fs = Inr (fs1, bh)" "bc_same fs fs1" "unlocked fs1" "bhs fs1 ?b0 = Some bh" "bh_uptodate bh" by metis
  have v1: "bc_view fs1 = ?v" using bc_sameD [OF r(2)] by simp
  obtain fs2 bh2 where s: "ei_search junk (i_ino inode) p ?b0 fs1 = Some (Inr (Some (b, i), fs2))" "bc_same fs1 fs2"
    "bhs fs2 b = Some bh2" "bh_uptodate bh2"
    using ei_search_read [OF g(5) _ v1 r(3), of p b i bh junk "i_ino inode"] l(1) g(4) r(4,5) by auto
  have d: "b_data bh2 = ?v b" using s(3,4) view_at(2) [of fs2 b bh2] bc_sameD [OF s(2)] v1 by simp
  have "sefs_get_block maxfs junk inode p 0 fs = Inr (Some (ext_at i (?v b)), brelse b fs2)"
    using g(2) p r(1) s(1,3) d l(2) by (simp add: sefs_get_block_def Let_def u32_def)
  moreover have "bc_same fs (brelse b fs2)" by (meson bc_same_trans brelse_same r(2) s(2))
  moreover have "ext_for (sefs_blk inode fs) p (ext_at i (?v b))"
  proof -
    obtain k where k: "ei_wf k (?v b)" using wf by blast
    have "i < ext_used (?v b)" using hit by (simp add: ext_hit_def)
    then have "ext_iblock i (?v b) + ext_len i (?v b) < 2 ^ 32" "ext_bno i (?v b) < 2 ^ 32" "ext_len i (?v b) < 2 ^ 16"
      using ei_wf_bounds(2) [OF k] k get_le_less [of 2] by (fastforce simp: ei_wf_def ext_len_def)+
    moreover have "sefs_blk inode fs q = Some (ext_bno i (?v b) + (q - ext_iblock i (?v b)))"
      if "ext_iblock i (?v b) \<le> q" "q < ext_iblock i (?v b) + ext_len i (?v b)" for q
      using hit that l(2) by (simp add: ext_hit_def sefs_blk_def Let_def)
    ultimately show ?thesis using hit by (auto simp: ext_for_def ext_at_def ext_hit_def)
  qed
  ultimately show thesis using that by blast
qed

text \<open>So sefs gives the journal the map of the blocks of a file.\<close>

definition sefs_page_limit :: "nat \<Rightarrow> nat" where
  "sefs_page_limit maxfs = min (2 ^ 32) (Suc ((maxfs - 1) div PAGE_SIZE))"

interpretation sefs_read: block_map "sefs_get_block maxfs junk" sefs_blk sefs_good bc_same "sefs_page_limit maxfs"
proof
  fix inode fs p
  assume a: "sefs_good inode fs" "mapped_below (sefs_page_limit maxfs) (sefs_blk inode fs) p"
  then have p: "p < 2 ^ 32" "p \<le> (maxfs - 1) div PAGE_SIZE" "sefs_blk inode fs p \<noteq> None"
    by (auto simp: mapped_below_def sefs_page_limit_def)
  from sefs_get_block_read [OF a(1) p, of junk] obtain be fs' where
    "sefs_get_block maxfs junk inode p 0 fs = Inr (Some be, fs')" "bc_same fs fs'" "ext_for (sefs_blk inode fs) p be" .
  then show "\<exists>be fs'. sefs_get_block maxfs junk inode p 0 fs = Inr (Some be, fs') \<and> sefs_good inode fs' \<and> bc_same fs fs' \<and>
      sefs_blk inode fs' = sefs_blk inode fs \<and> ext_for (sefs_blk inode fs) p be"
    using sefs_good_same [OF _ a(1)] sefs_blk_same by blast
qed (auto intro: bc_same_trans)

section \<open>Lemmas: writing inodes\<close>

lemma set_bh_set_bh [simp]: "set_bh b x (set_bh b y bc) = set_bh b x bc"
  by (simp add: set_bh_def)

text \<open>The index of a file depends on its own blocks only.\<close>

lemma ei_chain_cong: "\<forall>b\<in>set bs. v' b = v b \<Longrightarrow> ei_chain v' k bs = ei_chain v k bs"
  by (induction v k bs rule: ei_chain.induct) auto

lemma ei_lookup_cong:
  assumes "ei_chain v k bs" "\<forall>b\<in>set bs. v' b = v b"
  shows "ei_lookup v' p (hd bs) = ei_lookup v p (hd bs)"
  using assms
proof (induction v k bs rule: ei_chain.induct)
  case (2 v k c)
  then show ?case by (simp add: ei_lookup_step [of _ p c] split: option.splits)
next
  case (3 v k c d bs)
  then show ?case by (simp add: ei_lookup_step [of _ p c] split: option.splits)
qed simp

lemma ei_lookup_in:
  assumes "ei_chain v k bs" "ei_lookup v p (hd bs) = Some (b, i)"
  shows "b \<in> set bs"
  using assms
proof (induction v k bs rule: ei_chain.induct)
  case (2 v k c)
  then show ?case by (auto simp: ei_lookup_step [of _ p c] split: option.splits)
next
  case (3 v k c d bs)
  then show ?case by (auto simp: ei_lookup_step [of _ p c] split: option.splits)
qed simp

text \<open>So it stays when blocks change that are no data blocks.\<close>

lemma sefs_good_keep:
  assumes g: "sefs_good inode fs" and v: "\<And>b. data_block fs b \<Longrightarrow> bc_view fs' b = bc_view fs b" and u: "unlocked fs'"
    and ii: "sefs_ii fs' = sefs_ii fs"
    and s: "ifree_first (sbi fs') = ifree_first (sbi fs)" "bfree_first (sbi fs') = bfree_first (sbi fs)"
      "nr_bfree_blocks (sbi fs') = nr_bfree_blocks (sbi fs)"
  shows "sefs_good inode fs'" "sefs_blk inode fs' = sefs_blk inode fs"
proof -
  obtain bs where b: "bs \<noteq> []" "hd bs = ei_block (sefs_ii fs (i_ino inode))" "ei_chain (bc_view fs) 0 bs" "\<forall>b\<in>set bs. data_block fs b"
    using g by (auto simp: sefs_good_def)
  have same: "\<forall>b\<in>set bs. bc_view fs' b = bc_view fs b" using v b(4) by blast
  show "sefs_good inode fs'"
    using g u ii s b same ei_chain_cong [OF same] by (auto simp: sefs_good_def data_block_def ino_ok_def)
  show "sefs_blk inode fs' = sefs_blk inode fs"
  proof
    fix p
    have l: "ei_lookup (bc_view fs') p (hd bs) = ei_lookup (bc_view fs) p (hd bs)" by (rule ei_lookup_cong [OF b(3) same])
    show "sefs_blk inode fs' p = sefs_blk inode fs p"
    proof (cases "ei_lookup (bc_view fs) p (hd bs)")
      case None
      then show ?thesis using l b(2) ii by (simp add: sefs_blk_def)
    next
      case (Some r)
      obtain c i where "r = (c, i)" by fastforce
      moreover have "bc_view fs' c = bc_view fs c" using ei_lookup_in [OF b(3)] Some same calculation by blast
      ultimately show ?thesis using l b(2) ii Some by (simp add: sefs_blk_def)
    qed
  qed
qed

lemma sefs_write_inode_ok:
  assumes u: "unlocked fs" and j: "i_use_journal inode" and b: "b = SEFS_INO_BLOCK (i_ino inode)"
  obtains fs' bh where "sefs_write_inode junk inode tx fs = Inr (False, inode\<lparr>i_dirty := False\<rparr>,
      tx\<lparr>tx_blks := tx_blks tx @ (if snd (bh_flags fs b) then [] else [b])\<rparr>, fs')"
    "bc_view fs' = (bc_view fs)(b := put_sefs_inode (sizeof_sefs_inode * SEFS_INO_SHIFT (i_ino inode)) inode
       (sefs_ii fs (i_ino inode)) (bc_view fs b))"
    "unlocked fs'" "private_list fs' = private_list fs" "assoc fs' = assoc fs" "bcache.more fs' = bcache.more fs"
    "bdev_disk fs' = bdev_disk fs"
    "bhs fs' b = Some bh" "bh_uptodate bh" "bh_injournal bh" "b_data bh = bc_view fs' b" "\<And>c. c \<noteq> b \<Longrightarrow> bhs fs' c = bhs fs c"
proof -
  obtain fs1 bh where r: "sb_bread junk b fs = Inr (fs1, bh)" "bhs fs1 b = Some bh" "bh_uptodate bh"
    "b_data bh = bc_view fs b" "bc_view fs1 = bc_view fs" "assoc fs1 = assoc fs" "private_list fs1 = private_list fs"
    "bdev_disk fs1 = bdev_disk fs" "unlocked fs1" "bcache.more fs1 = bcache.more fs"
    "\<And>c. c \<noteq> b \<Longrightarrow> bhs fs1 c = bhs fs c" using sb_bread_reads [OF u, of junk b] by metis
  have fl: "snd (bh_flags fs b) = bh_injournal bh"
    using sb_bread_same [OF u, of junk b] r(1,2) by (metis Inr_inject Pair_inject bc_same_def bh_flags_def option.simps(5) snd_conv)
  let ?d = "put_sefs_inode (sizeof_sefs_inode * SEFS_INO_SHIFT (i_ino inode)) inode (sefs_ii fs (i_ino inode)) (bc_view fs b)"
  let ?bh = "bh\<lparr>b_data := ?d, bh_injournal := True\<rparr>"
  let ?fs = "set_bh b ?bh fs1"
  have ii: "sefs_ii fs1 = sefs_ii fs" using sefs_more_eq [OF r(10)] by simp
  have w: "sefs_write_inode junk inode tx fs = Inr (False, inode\<lparr>i_dirty := False\<rparr>,
      tx\<lparr>tx_blks := tx_blks tx @ (if snd (bh_flags fs b) then [] else [b])\<rparr>, brelse b ?fs)"
  proof (cases "bh_injournal bh")
    case True
    then have e: "set_bh b (bh\<lparr>b_data := ?d\<rparr>) fs1 = ?fs" by (cases bh) simp
    have "sefs_write_inode junk inode tx fs = Inr (False, inode\<lparr>i_dirty := False\<rparr>,
        tx\<lparr>tx_blks := tx_blks tx @ (if snd (bh_flags fs b) then [] else [b])\<rparr>, brelse b (set_bh b (bh\<lparr>b_data := ?d\<rparr>) fs1))"
      using True fl r(1,4) j b ii by (simp add: sefs_write_inode_def Let_def)
    then show ?thesis by (simp only: e)
  next
    case False
    then show ?thesis using fl r(1,4) j b ii by (simp add: sefs_write_inode_def Let_def add_journal_inode_def)
  qed
  let ?new = "brelse b ?fs"
  have n: "bhs ?new b = Some (if b_count bh \<noteq> 0 then put_bh ?bh else ?bh)" "\<And>c. c \<noteq> b \<Longrightarrow> bhs ?new c = bhs fs c"
    using r(11) by (simp_all add: brelse_def)
  have v: "bc_view ?new = (bc_view fs)(b := ?d)" using r(3,5) by simp
  have "unlocked ?new" using r(2,9) by (intro unlocked_brelse unlocked_set_bh) (auto simp: unlocked_def)
  moreover have "bcache.more ?new = bcache.more fs" "bdev_disk ?new = bdev_disk fs" "private_list ?new = private_list fs"
    using r(7,8,10) brelse_same [of ?fs b] by (simp_all add: bc_same_def)
  moreover have "assoc ?new = assoc fs" using r(2,6) by (auto simp: fun_eq_iff assoc_def split: option.splits dest: spec [of _ b])
  ultimately show thesis
    using that [OF w v _ _ _ _ _ n(1)] n(2) v r(3) by (simp add: put_bh_def)
qed

end
