(* ===== verification/Spec2Isabelle.thy ===== *)
theory Spec2Isabelle
  imports Ox_Ckpt_Plain Ox_Ring Ox_Bitmap Ox_Ird Ox_Libfs Ox_Sefs
begin

text \<open>
  A verification development for the Oxbow file system (the sources are under
  \<^verbatim>\<open>src/oxbow\<close>).

  \<^bold>\<open>The program.\<close>  Oxbow is a user-level file system in three programs.  \<^verbatim>\<open>libfs\<close> is a
  library in the process of the application: it reads and writes the pages of a file in memory
  shared with the daemon and marks them dirty there.  \<^verbatim>\<open>secure_daemon\<close> runs on the host:
  it collects dirty pages, builds background transactions and stage transactions (the latter
  for \<^verbatim>\<open>fsync\<close>), and owns the file system metadata.  \<^verbatim>\<open>devfs\<close> runs on the device: it
  fetches the data of a transaction, writes it to a circular journal log, commits it, and
  later copies the committed blocks to their home locations (the checkpoint).

  \<^bold>\<open>Conventions.\<close>  Machine integers are naturals with the wrap of their width written out
  (\<open>u32\<close>, \<open>add32\<close>, \<open>sub64\<close> and so on in \<open>Ox_Prelude\<close>), or words of the \<open>Word\<close> library where
  the code works on bits.  A block is the function from its byte offsets to bytes, a disk the
  function from block addresses to blocks, a shared memory the function from byte offsets to
  bytes.  A failure is an \<open>Inl\<close> of the type \<open>ox_error\<close>: a violated assertion, a null pointer
  that is followed, an exhausted resource, an invalid argument, or a wait that does not end in
  the state at hand.  Code that runs under a lock is one step; where threads interleave, the
  steps are an inductive relation.

  \<^bold>\<open>Theories.\<close>
  \<^item> \<open>Ox_Prelude\<close>: errors, C arithmetic, circular areas (\<open>wrap_at\<close>, \<open>wrap_range\<close>).
  \<^item> \<open>Ox_Space\<close>: the contract of a circular space that is taken at the head and released at
    the tail, as a locale.
  \<^item> \<open>Ox_Journal_Log\<close>: the two logs of \<^verbatim>\<open>devfs/src/journal.c\<close> (allocation, accounting,
    release, chunk addresses).  The log refines a queue of block addresses.
  \<^item> \<open>Ox_Sjd\<close>: the block formats of \<^verbatim>\<open>devfs/include/common/sjd.h\<close>.
  \<^item> \<open>Ox_Disk\<close>: writing lists of blocks.
  \<^item> \<open>Ox_Fifo\<close>, \<open>Ox_Bio\<close>: the contract of a queue, and the bio lists of
    \<^verbatim>\<open>devfs/include/common/bio.h\<close> with the requests that wrap around the end of a log.
  \<^item> \<open>Ox_Commit\<close>: \<^verbatim>\<open>persist_data\<close> and \<^verbatim>\<open>persist_meta_and_commit\<close>.  Layout of a committed
    transaction, commit order in every interleaving, and the transaction that starts at the last
    block of a log and loses its data.
  \<^item> \<open>Ox_Ckpt_Core\<close>, \<open>Ox_Ckpt_Replay\<close>, \<open>Ox_Checkpoint\<close>: the passes of
    \<^verbatim>\<open>do_checkpoint_coalesce\<close>.  The coalescing checkpoint leaves the disk that the replay of
    all tags in order leaves.
  \<^item> \<open>Ox_Ckpt_Plain\<close>: \<^verbatim>\<open>do_checkpoint\<close> and the loop of the checkpoint thread.  It agrees
    with the coalescing checkpoint, apart from the case it skips.
  \<^item> \<open>Ox_Ring\<close>: the lock-free queue of \<^verbatim>\<open>devfs/src/common/ring_buffer_mpmc.c\<close>, one step
    per shared access.
  \<^item> \<open>Ox_Bitmap\<close>: the bitmap library of \<^verbatim>\<open>secure_daemon/src/fs/sefs/bitmap.c\<close>.
  \<^item> \<open>Ox_Shm\<close>: the page state bits of a shared file and the collection of its dirty pages
    (\<^verbatim>\<open>devfs/src/common/shm.c\<close>, \<^verbatim>\<open>secure_daemon/src/libfs/shm.c\<close>).
  \<^item> \<open>Ox_Ird\<close>: the dump of a list of dirty ranges and its reading back.
  \<^item> \<open>Ox_Libfs\<close>: reading and writing in \<^verbatim>\<open>libfs\<close>, and the dirty page counters.

  \<^bold>\<open>Bounds.\<close>  The models have no fuel, apart from loops whose bound is the code's own (the
  number of slots, words, tags or blocks), where a lemma shows that the bound is reached only
  after the loop has ended.  Loops with another measure are \<open>function\<close>s with a termination
  proof.

  \<^bold>\<open>Not modelled.\<close>  Printing, profiling and debugging; configuration; the transports (RDMA,
  shared memory rings and sockets) and their message handlers, which only pass arguments to the
  operations modelled here; the NVMe drivers and storage engines, whose reads and writes are
  taken as atomic updates of the disk; the interface to the kernel; the port of the lwext4
  library; the readahead of \<^verbatim>\<open>mpage.c\<close>; tests and tools.
\<close>

end
